(* ===== verification/Harvest_Prelude.thy ===== *)
theory Harvest_Prelude
  imports Main "HOL-Library.Word"
begin

text \<open>
  Shared vocabulary of the development: Go's 64-bit signed arithmetic with its wrap-around,
  instants and durations, the byte-string functions of the \<open>strings\<close> package the sources
  use, percent-decoding of \<open>net/url\<close>, and generic lemmas on lists and maps.

  A Go \<open>string\<close> is a sequence of bytes, and so is a HOL \<^typ>\<open>string\<close>. Letter case and
  white space are those of ASCII: \<open>strings.ToLower\<close> and \<open>strings.TrimSpace\<close> leave the
  bytes of multi-byte characters as they are in this model.
\<close>

named_theorems go_string \<open>unfolding rules for the string functions\<close>
named_theorems pool_defs \<open>definitions of the proxy pool's operations\<close>
named_theorems metric_defs \<open>definitions of the counter operations\<close>

subsection \<open>Signed 64-bit arithmetic, instants and durations\<close>

text \<open>
  \<open>time.Duration\<close> is an \<open>int64\<close> count of nanoseconds. Durations are integers here, and every
  multiplication or shift of the sources that can leave the 64-bit range is wrapped by
  \<open>wrap64\<close>, which is reading the low 64 bits as two's complement.
  \<open>time.Time\<close> is an instant in nanoseconds; \<open>0\<close> is the zero time, and adding a duration to an
  instant does not wrap.
\<close>

type_synonym duration = int
type_synonym instant = int

definition wrap64 :: "int \<Rightarrow> int" where
  "wrap64 x = (x + 2 ^ 63) mod 2 ^ 64 - 2 ^ 63"

definition int64 :: "int \<Rightarrow> bool" where
  "int64 x \<longleftrightarrow> - (2 ^ 63) \<le> x \<and> x < 2 ^ 63"

lemma wrap64_int64 [simp]: "int64 (wrap64 x)"
proof -
  have "0 \<le> (x + 9223372036854775808) mod 18446744073709551616"
    "(x + 9223372036854775808) mod 18446744073709551616 < 18446744073709551616"
    by simp_all
  then show ?thesis by (simp add: int64_def wrap64_def)
qed

lemma wrap64_id: "int64 x \<Longrightarrow> wrap64 x = x"
  by (simp add: int64_def wrap64_def)

lemma wrap64_sint: "wrap64 x = sint (word_of_int x :: 64 word)"
  by (simp add: wrap64_def sint_word_ariths signed_take_bit_eq_take_bit_shift take_bit_eq_mod
      signed_of_int)

definition Millisecond :: duration where "Millisecond = 1000000"
definition Second :: duration where "Second = 1000000000"
definition Minute :: duration where "Minute = 60 * Second"

definition IsZero :: "instant \<Rightarrow> bool" where
  "IsZero t \<longleftrightarrow> t = 0"

subsection \<open>Byte strings\<close>

definition HasPrefix :: "string \<Rightarrow> string \<Rightarrow> bool" where
  "HasPrefix s p \<longleftrightarrow> take (length p) s = p"

definition HasSuffix :: "string \<Rightarrow> string \<Rightarrow> bool" where
  "HasSuffix s p \<longleftrightarrow> HasPrefix (rev s) (rev p)"

fun Contains :: "string \<Rightarrow> string \<Rightarrow> bool" where
  "Contains [] sub = (sub = [])"
| "Contains (c # s) sub = (HasPrefix (c # s) sub \<or> Contains s sub)"

definition TrimPrefix :: "string \<Rightarrow> string \<Rightarrow> string" where
  "TrimPrefix s p = (if HasPrefix s p then drop (length p) s else s)"

definition TrimSuffix :: "string \<Rightarrow> string \<Rightarrow> string" where
  "TrimSuffix s p = (if HasSuffix s p then take (length s - length p) s else s)"

definition byte :: "char \<Rightarrow> nat" where
  "byte c = of_char c"

definition lower_char :: "char \<Rightarrow> char" where
  "lower_char c = (if 65 \<le> byte c \<and> byte c \<le> 90 then char_of (byte c + 32) else c)"

definition ToLower :: "string \<Rightarrow> string" where
  "ToLower s = map lower_char s"

definition is_space :: "char \<Rightarrow> bool" where
  "is_space c \<longleftrightarrow> byte c = 32 \<or> 9 \<le> byte c \<and> byte c \<le> 13"

definition TrimSpace :: "string \<Rightarrow> string" where
  "TrimSpace s = rev (dropWhile is_space (rev (dropWhile is_space s)))"

text \<open>\<open>strings.Cut\<close> with a one-byte separator: the parts around its first occurrence.\<close>

fun Cut :: "string \<Rightarrow> char \<Rightarrow> (string \<times> string) option" where
  "Cut [] c = None"
| "Cut (x # s) c =
     (if x = c then Some ([], s)
      else map_option (\<lambda>(a, b). (x # a, b)) (Cut s c))"

text \<open>\<open>strings.Split\<close> with a one-byte separator.\<close>

fun Split :: "string \<Rightarrow> char \<Rightarrow> string list" where
  "Split [] c = [[]]"
| "Split (x # s) c =
     (if x = c then [] # Split s c
      else (case Split s c of [] \<Rightarrow> [[x]] | p # ps \<Rightarrow> (x # p) # ps))"

fun join :: "string list \<Rightarrow> string \<Rightarrow> string" where
  "join [] sep = []"
| "join [p] sep = p"
| "join (p # q # ps) sep = p @ sep @ join (q # ps) sep"

lemmas [go_string] = HasPrefix_def HasSuffix_def TrimPrefix_def TrimSuffix_def byte_def
  lower_char_def ToLower_def is_space_def TrimSpace_def

lemma HasPrefix_iff: "HasPrefix s p \<longleftrightarrow> (\<exists>t. s = p @ t)"
  unfolding HasPrefix_def by (metis append_eq_conv_conj append_take_drop_id)

lemma HasPrefix_Nil [simp]: "HasPrefix s []"
  by (simp add: HasPrefix_def)

lemma HasSuffix_iff: "HasSuffix s p \<longleftrightarrow> (\<exists>t. s = t @ p)"
  unfolding HasSuffix_def HasPrefix_iff by (metis rev_append rev_rev_ident)

lemma Contains_iff: "Contains s sub \<longleftrightarrow> (\<exists>u v. s = u @ sub @ v)"
proof (induction s)
  case Nil
  show ?case by auto
next
  case (Cons c s)
  have "(\<exists>u v. c # s = u @ sub @ v) \<longleftrightarrow>
      (\<exists>v. c # s = sub @ v) \<or> (\<exists>u v. s = u @ sub @ v)"
  proof
    assume "\<exists>u v. c # s = u @ sub @ v"
    then obtain u v where uv: "c # s = u @ sub @ v" by blast
    show "(\<exists>v. c # s = sub @ v) \<or> (\<exists>u v. s = u @ sub @ v)"
      using uv by (cases u) auto
  next
    assume "(\<exists>v. c # s = sub @ v) \<or> (\<exists>u v. s = u @ sub @ v)"
    then show "\<exists>u v. c # s = u @ sub @ v"
      by (metis append_Cons append_Nil)
  qed
  with Cons show ?case by (simp add: HasPrefix_iff)
qed

lemma Cut_Some: "Cut s c = Some (a, b) \<longleftrightarrow> s = a @ c # b \<and> c \<notin> set a"
  by (induction s c arbitrary: a b rule: Cut.induct) (auto simp: Cons_eq_append_conv)

lemma Cut_None: "Cut s c = None \<longleftrightarrow> c \<notin> set s"
  by (induction s c rule: Cut.induct) auto

lemma Split_not_Nil [simp]: "Split s c \<noteq> []"
  by (induction s c rule: Split.induct) (auto split: list.splits)

lemma Split_free: "p \<in> set (Split s c) \<Longrightarrow> c \<notin> set p"
  by (induction s c arbitrary: p rule: Split.induct) (auto split: list.splits if_splits)

lemma join_Cons: "ps \<noteq> [] \<Longrightarrow> join (p # ps) sep = p @ sep @ join ps sep"
  by (cases ps) auto

lemma join_Cons_Cons: "join ((x # p) # ps) sep = x # join (p # ps) sep"
  by (cases ps) auto

text \<open>Splitting and joining by the same separator is the identity.\<close>

lemma join_Split: "join (Split s c) [c] = s"
  by (induction s c rule: Split.induct)
     (auto simp: join_Cons join_Cons_Cons split: list.splits)

lemma byte_char_of [simp]: "n < 256 \<Longrightarrow> byte (char_of n) = n"
  by (simp add: byte_def)

lemma lower_char_idem [simp]: "lower_char (lower_char c) = lower_char c"
  by (simp add: lower_char_def)

lemma ToLower_idem [simp]: "ToLower (ToLower s) = ToLower s"
  by (simp add: ToLower_def)

lemma ToLower_append [simp]: "ToLower (s @ t) = ToLower s @ ToLower t"
  by (simp add: ToLower_def)

subsection \<open>Percent-decoding\<close>

definition unhex :: "char \<Rightarrow> nat option" where
  "unhex c = (let b = byte c in
     if 48 \<le> b \<and> b \<le> 57 then Some (b - 48)
     else if 97 \<le> b \<and> b \<le> 102 then Some (b - 97 + 10)
     else if 65 \<le> b \<and> b \<le> 70 then Some (b - 65 + 10)
     else None)"

text \<open>
  \<open>url.PathUnescape\<close>: a \<open>%\<close> must be followed by two hexadecimal digits, which it
  replaces by the byte they denote; anything else is an error (\<open>None\<close>).
\<close>

fun PathUnescape :: "string \<Rightarrow> string option" where
  "PathUnescape [] = Some []"
| "PathUnescape (c # s) =
     (if c = CHR ''%'' then
        (case s of
           h # l # t \<Rightarrow>
             (case (unhex h, unhex l) of
                (Some a, Some b) \<Rightarrow> map_option (Cons (char_of (16 * a + b))) (PathUnescape t)
              | _ \<Rightarrow> None)
         | _ \<Rightarrow> None)
      else map_option (Cons c) (PathUnescape s))"

lemma PathUnescape_plain: "CHR ''%'' \<notin> set s \<Longrightarrow> PathUnescape s = Some s"
  by (induction s rule: PathUnescape.induct) auto

subsection \<open>UTF-8\<close>

definition cont :: "char \<Rightarrow> bool" where
  "cont c \<longleftrightarrow> 128 \<le> byte c \<and> byte c \<le> 191"

text \<open>\<open>utf8.Valid\<close>: no stray, missing or overlong sequence, no surrogate, nothing above U+10FFFF.\<close>

fun valid_utf8 :: "string \<Rightarrow> bool" where
  "valid_utf8 [] = True"
| "valid_utf8 (a # s) =
     (let x = byte a in
      if x < 128 then valid_utf8 s
      else if 194 \<le> x \<and> x \<le> 223 then
        (case s of b # t \<Rightarrow> cont b \<and> valid_utf8 t | _ \<Rightarrow> False)
      else if 224 \<le> x \<and> x \<le> 239 then
        (case s of b # c # t \<Rightarrow>
            cont b \<and> cont c \<and> (x = 224 \<longrightarrow> 160 \<le> byte b) \<and> (x = 237 \<longrightarrow> byte b \<le> 159) \<and> valid_utf8 t
         | _ \<Rightarrow> False)
      else if 240 \<le> x \<and> x \<le> 244 then
        (case s of b # c # d # t \<Rightarrow>
            cont b \<and> cont c \<and> cont d \<and> (x = 240 \<longrightarrow> 144 \<le> byte b) \<and> (x = 244 \<longrightarrow> byte b \<le> 143) \<and>
            valid_utf8 t
         | _ \<Rightarrow> False)
      else False)"

lemma valid_utf8_ascii: "(\<forall>c\<in>set s. byte c < 128) \<Longrightarrow> valid_utf8 s"
  by (induction s rule: valid_utf8.induct) auto

subsection \<open>Decimal numbers and fields\<close>

definition digit :: "char \<Rightarrow> nat option" where
  "digit c = (if 48 \<le> byte c \<and> byte c \<le> 57 then Some (byte c - 48) else None)"

fun digits_val :: "nat \<Rightarrow> string \<Rightarrow> nat option" where
  "digits_val n [] = Some n"
| "digits_val n (c # s) = (case digit c of None \<Rightarrow> None | Some d \<Rightarrow> digits_val (10 * n + d) s)"

text \<open>
  \<open>strconv.Atoi\<close>: an optional sign, at least one decimal digit and nothing else; a value
  outside the 64-bit range is an error as well.
\<close>

definition Atoi :: "string \<Rightarrow> int option" where
  "Atoi s =
     (let neg = (s \<noteq> [] \<and> hd s = CHR ''-'');
          ds = (if s \<noteq> [] \<and> (hd s = CHR ''-'' \<or> hd s = CHR ''+'') then tl s else s)
      in if ds = [] then None
         else case digits_val 0 ds of
             None \<Rightarrow> None
           | Some n \<Rightarrow> (let i = (if neg then - int n else int n) in if int64 i then Some i else None))"

fun itoa :: "nat \<Rightarrow> string" where
  "itoa n = (if n < 10 then [char_of (48 + n)] else itoa (n div 10) @ [char_of (48 + n mod 10)])"

declare itoa.simps [simp del]

lemma digit_char [simp]: "d < 10 \<Longrightarrow> digit (char_of (48 + d)) = Some d"
  by (simp add: digit_def)

lemma digits_val_append:
  "digits_val n (s @ t) = (case digits_val n s of None \<Rightarrow> None | Some k \<Rightarrow> digits_val k t)"
  by (induction n s rule: digits_val.induct) (auto split: option.splits)

lemma digits_val_itoa: "digits_val 0 (itoa n) = Some n"
proof (induction n rule: itoa.induct)
  case (1 n)
  show ?case
  proof (cases "n < 10")
    case False
    with 1 show ?thesis by (subst itoa.simps) (simp add: digits_val_append)
  qed (subst itoa.simps, simp)
qed

lemma itoa_digits: "c \<in> set (itoa n) \<Longrightarrow> 48 \<le> byte c \<and> byte c \<le> 57"
proof (induction n rule: itoa.induct)
  case (1 n)
  have "n mod 10 < 10" by simp
  then have "48 + n mod 10 < 256" by linarith
  with 1 show ?case
    by (subst (asm) itoa.simps) (auto split: if_splits)
qed

lemma itoa_not_Nil [simp]: "itoa n \<noteq> []"
  by (subst itoa.simps) simp

lemma Atoi_itoa: "int n < 2 ^ 63 \<Longrightarrow> Atoi (itoa n) = Some (int n)"
proof -
  assume n: "int n < 2 ^ 63"
  have "hd (itoa n) \<in> set (itoa n)" by simp
  from itoa_digits [OF this] have "hd (itoa n) \<noteq> CHR ''-''" "hd (itoa n) \<noteq> CHR ''+''"
    by (auto simp: byte_def)
  with n show ?thesis by (simp add: Atoi_def digits_val_itoa int64_def Let_def)
qed

text \<open>\<open>strings.Fields\<close>: the maximal runs of non-space bytes.\<close>

function Fields :: "string \<Rightarrow> string list" where
  "Fields [] = []"
| "Fields (c # s) =
     (if is_space c then Fields s
      else (c # takeWhile (\<lambda>x. \<not> is_space x) s) # Fields (dropWhile (\<lambda>x. \<not> is_space x) s))"
  by pat_completeness auto
termination
  by (relation "measure length") (simp_all add: length_dropWhile_le less_Suc_eq_le)

lemma Fields_word: "w \<in> set (Fields s) \<Longrightarrow> w \<noteq> [] \<and> (\<forall>c\<in>set w. \<not> is_space c)"
proof (induction s rule: Fields.induct)
  case (2 c s)
  show ?case
  proof (cases "is_space c")
    case True
    with 2 show ?thesis by simp
  next
    case False
    with "2.prems" consider "w = c # takeWhile (\<lambda>x. \<not> is_space x) s"
      | "w \<in> set (Fields (dropWhile (\<lambda>x. \<not> is_space x) s))" by auto
    then show ?thesis
    proof cases
      case 1
      with False show ?thesis using set_takeWhileD [of _ "\<lambda>x. \<not> is_space x" s] by auto
    next
      case 2
      with "2.IH"(2) False show ?thesis by simp
    qed
  qed
qed simp

subsection \<open>Lists\<close>

lemma find_map_Suc: "find P (map Suc xs) = map_option Suc (find (\<lambda>j. P (Suc j)) xs)"
  by (induction xs) auto

lemma find_upt_Suc:
  "find P [0..<Suc k] = (if P 0 then Some 0 else map_option Suc (find (\<lambda>j. P (Suc j)) [0..<k]))"
proof -
  have "[0..<Suc k] = 0 # map Suc [0..<k]" by (simp add: upt_conv_Cons map_Suc_upt del: upt_Suc)
  then show ?thesis by (simp add: find_map_Suc del: upt_Suc)
qed

lemma find_upt_Some:
  "find P [0..<k] = Some j \<longleftrightarrow> j < k \<and> P j \<and> (\<forall>j'<j. \<not> P j')"
  by (auto simp: find_Some_iff intro: exI [of _ j])

lemma sum_list_map_update:
  fixes f :: "'a \<Rightarrow> 'b::comm_monoid_add"
  assumes "i < length ws"
  shows "sum_list (map f (ws[i := w])) + f (ws ! i) = sum_list (map f ws) + f w"
  using assms
proof (induction ws arbitrary: i)
  case (Cons x xs)
  then show ?case by (cases i) (auto simp: ac_simps)
qed simp

subsection \<open>Transition systems and their invariants\<close>

text \<open>
  The components that several goroutines drive at once (the proxy pool, the crawl
  coordinator, the browser pool) are step relations in which each step is one critical
  section. The contract below is what each of them proves of its invariant; reachability
  and its consequences are derived once.
\<close>

locale invariant_system =
  fixes start :: "'s \<Rightarrow> bool" and step :: "'s \<Rightarrow> 's \<Rightarrow> bool" and inv :: "'s \<Rightarrow> bool"
  assumes inv_start: "start s \<Longrightarrow> inv s"
    and inv_step: "inv s \<Longrightarrow> step s t \<Longrightarrow> inv t"
begin

lemma inv_steps: "step\<^sup>*\<^sup>* s t \<Longrightarrow> inv s \<Longrightarrow> inv t"
  by (induction rule: rtranclp_induct) (auto intro: inv_step)

lemma inv_reach: "start s \<Longrightarrow> step\<^sup>*\<^sup>* s t \<Longrightarrow> inv t"
  by (rule inv_steps) (auto intro: inv_start)

end

text \<open>Where every step makes a measure of the state smaller, a run has a bounded length.\<close>

locale measured_system =
  fixes step :: "'s \<Rightarrow> 's \<Rightarrow> bool" and measure_of :: "'s \<Rightarrow> nat"
  assumes smaller: "step s t \<Longrightarrow> measure_of t < measure_of s"
begin

lemma run_spends: "(step ^^ k) s t \<Longrightarrow> k + measure_of t \<le> measure_of s"
proof (induction k arbitrary: t)
  case (Suc k)
  then obtain u where "(step ^^ k) s u" "step u t" by auto
  with Suc.IH [of u] smaller [of u t] show ?case by simp
qed simp

lemma run_bounded: "(step ^^ k) s t \<Longrightarrow> k \<le> measure_of s"
  using run_spends by fastforce

end

subsection \<open>Stores that create an entry on first use\<close>

text \<open>
  Several components keep a map from which an entry is taken under a lock and created when it
  is missing: the limiter's buckets, the labelled counters, the robots cache. What they promise
  is the same: an entry that is there is returned as it is, one that is not is created fresh,
  and no other key is touched.
\<close>

locale keyed_store =
  fixes lookup :: "'s \<Rightarrow> 'k \<Rightarrow> 'v option"
    and entry :: "'k \<Rightarrow> 's \<Rightarrow> 'v \<times> 's"
    and fresh :: "'k \<Rightarrow> 's \<Rightarrow> 'v"
  assumes entry_hit: "lookup s k = Some v \<Longrightarrow> entry k s = (v, s)"
    and entry_miss: "lookup s k = None \<Longrightarrow> fst (entry k s) = fresh k s"
    and entry_stored: "lookup (snd (entry k s)) k = Some (fst (entry k s))"
    and entry_other: "k' \<noteq> k \<Longrightarrow> lookup (snd (entry k s)) k' = lookup s k'"
begin

text \<open>The value a key stands for, whether or not its entry has been created yet.\<close>

definition val :: "'s \<Rightarrow> 'k \<Rightarrow> 'v" where
  "val s k = (case lookup s k of Some v \<Rightarrow> v | None \<Rightarrow> fresh k s)"

lemma fst_entry: "fst (entry k s) = val s k"
  by (cases "lookup s k") (simp_all add: val_def entry_hit entry_miss)

lemma entry_again: "entry k (snd (entry k s)) = entry k s"
  by (simp add: entry_hit [OF entry_stored])

lemma lookup_entry: "lookup (snd (entry k s)) = (lookup s)(k \<mapsto> val s k)"
  by (rule ext) (simp add: entry_stored entry_other fst_entry)

end

end
