(* ===== verification/Go_Float.thy ===== *)
theory Go_Float
  imports Harvest_Prelude Complex_Main "HOL-Library.Log_Nat"
begin

text \<open>
  Go's \<open>float64\<close>. A value is a rational number, and the result of every arithmetic operation
  of the sources is rounded by \<open>fl\<close>: to 53 significant bits, to nearest, ties to even. The
  exponent is unbounded (no overflow to infinity, no subnormals, no NaN). The locale
  \<open>rounding\<close> lists the laws of rounding the components rely on and derives from them what the
  proxy pool's moving average and the limiter's rate adaptation need; it is interpreted on
  \<open>fl\<close>.
\<close>

subsection \<open>The laws of rounding and their consequences\<close>

locale rounding =
  fixes rnd :: "rat \<Rightarrow> rat"
  assumes rnd_mono: "x \<le> y \<Longrightarrow> rnd x \<le> rnd y"
    and rnd_idem: "rnd (rnd x) = rnd x"
    and rnd_zero: "rnd 0 = 0"
    and rnd_one: "rnd 1 = 1"
begin

lemma rnd_nonneg: "0 \<le> x \<Longrightarrow> 0 \<le> rnd x"
  using rnd_mono [of 0 x] by (simp add: rnd_zero)

lemma rnd_le: "x \<le> r \<Longrightarrow> rnd r = r \<Longrightarrow> rnd x \<le> r"
  using rnd_mono [of x r] by simp

lemma rnd_ge: "r \<le> x \<Longrightarrow> rnd r = r \<Longrightarrow> r \<le> rnd x"
  using rnd_mono [of r x] by simp

lemma rnd_weighted_le:
  assumes "0 \<le> a" "rnd a = a" "u \<le> 1"
  shows "rnd (a * u) \<le> a"
  by (rule rnd_le [OF mult_left_le]) (use assms in auto)

text \<open>A rounded weighted average of two values of the unit interval stays in it.\<close>

lemma average_unit:
  assumes w: "0 \<le> a" "0 \<le> b" "rnd a = a" "rnd b = b" "rnd (a + b) \<le> 1"
    and u: "0 \<le> u" "u \<le> 1" and v: "0 \<le> v" "v \<le> 1"
  shows "0 \<le> rnd (rnd (a * u) + rnd (b * v))" "rnd (rnd (a * u) + rnd (b * v)) \<le> 1"
proof -
  have "0 \<le> rnd (a * u)" "0 \<le> rnd (b * v)" using w u v by (simp_all add: rnd_nonneg)
  then show "0 \<le> rnd (rnd (a * u) + rnd (b * v))" by (intro rnd_nonneg) simp
  have "rnd (a * u) + rnd (b * v) \<le> a + b"
    using w u v by (intro add_mono rnd_weighted_le)
  from rnd_mono [OF this] w(5) show "rnd (rnd (a * u) + rnd (b * v)) \<le> 1" by simp
qed

text \<open>An additive increase never lowers a representable value.\<close>

lemma increase_ge: "rnd c = c \<Longrightarrow> 0 \<le> s \<Longrightarrow> c \<le> rnd (c + s)"
  by (rule rnd_ge) simp_all

end

subsection \<open>Rounding to 53 bits, ties to even\<close>

definition rne :: "rat \<Rightarrow> int" where
  "rne y = (let n = \<lfloor>y\<rfloor>; d = y - of_int n
     in if d < 1 / 2 \<or> d = 1 / 2 \<and> even n then n else n + 1)"

definition expo :: "rat \<Rightarrow> int" where
  "expo x = (let (a, b) = quotient_of x; e = bitlen a - bitlen b
     in if 2 powi e \<le> x then e else e - 1)"

definition fl :: "rat \<Rightarrow> rat" where
  "fl x = (if x = 0 then 0
     else let e = expo \<bar>x\<bar> - 52 in of_int (rne (x / 2 powi e)) * 2 powi e)"

lemma rne_of_int [simp]: "rne (of_int n) = n"
  by (simp add: rne_def)

lemma rne_bounds: "\<lfloor>y\<rfloor> \<le> rne y" "rne y \<le> \<lfloor>y\<rfloor> + 1"
  by (auto simp: rne_def Let_def)

lemma rne_mono: "y \<le> z \<Longrightarrow> rne y \<le> rne z"
proof -
  assume le: "y \<le> z"
  show "rne y \<le> rne z"
  proof (cases "\<lfloor>y\<rfloor> = \<lfloor>z\<rfloor>")
    case True
    with le show ?thesis by (auto simp: rne_def Let_def)
  next
    case False
    with floor_mono [OF le] have "\<lfloor>y\<rfloor> + 1 \<le> \<lfloor>z\<rfloor>" by simp
    with rne_bounds [of y] rne_bounds [of z] show ?thesis by linarith
  qed
qed

lemma rne_minus: "rne (- y) = - rne y"
proof (cases "y = of_int \<lfloor>y\<rfloor>")
  case True
  then obtain n where "y = of_int n" by blast
  then show ?thesis by (simp flip: of_int_minus)
next
  case False
  have lo: "of_int \<lfloor>y\<rfloor> < y" using False of_int_floor_le [of y] by linarith
  have hi: "y < of_int \<lfloor>y\<rfloor> + 1" by linarith
  have "\<lfloor>- y\<rfloor> = - \<lfloor>y\<rfloor> - 1"
    using lo hi by (intro floor_unique) simp_all
  moreover have "even (- \<lfloor>y\<rfloor> - 1) \<longleftrightarrow> odd \<lfloor>y\<rfloor>" by simp
  ultimately show ?thesis using lo hi unfolding rne_def Let_def by auto
qed

lemma quotient_of_pos:
  assumes "0 < x" "quotient_of x = (a, b)"
  shows "0 < a" "0 < b" "x = of_int a / of_int b"
proof -
  show b: "0 < b" using assms(2) by (rule quotient_of_denom_pos)
  show x: "x = of_int a / of_int b" using assms(2) by (rule quotient_of_div)
  show "0 < a" using assms(1) b unfolding x by (simp add: zero_less_divide_iff)
qed

lemma bitlen_powi:
  assumes "0 < a"
  shows "(2::rat) powi (bitlen a - 1) \<le> of_int a" "of_int a < (2::rat) powi bitlen a"
proof -
  have nn: "1 \<le> bitlen a" using assms
    by (metis bitlen_eq_zero_iff bitlen_nonneg int_one_le_iff_zero_less le_less not_le)
  from bitlen_bounds [OF assms] have "2 ^ nat (bitlen a - 1) \<le> a" "a < 2 ^ nat (bitlen a)"
    by auto
  then have "of_int (2 ^ nat (bitlen a - 1)) \<le> (of_int a :: rat)"
    "(of_int a :: rat) < of_int (2 ^ nat (bitlen a))" by (simp_all only: of_int_le_iff of_int_less_iff)
  then show "(2::rat) powi (bitlen a - 1) \<le> of_int a" "of_int a < (2::rat) powi bitlen a"
    using nn by (simp_all add: power_int_def)
qed

lemma expo_bounds:
  assumes "0 < x"
  shows "2 powi expo x \<le> x" "x < 2 powi (expo x + 1)"
proof -
  obtain a b where q: "quotient_of x = (a, b)" by force
  note ab = quotient_of_pos [OF assms q]
  note A = bitlen_powi [OF ab(1)] and B = bitlen_powi [OF ab(2)]
  define e where "e = bitlen a - bitlen b"
  have lo: "2 powi (e - 1) \<le> x"
  proof -
    have "(2::rat) powi (e - 1) = 2 powi (bitlen a - 1) / 2 powi bitlen b"
      by (simp add: e_def power_int_diff)
    also have "\<dots> \<le> of_int a / of_int b"
      using A B ab by (intro frac_le) (simp_all add: less_imp_le)
    finally show ?thesis by (simp add: ab(3))
  qed
  have hi: "x < 2 powi (e + 1)"
  proof -
    have "of_int a / of_int b < (2::rat) powi bitlen a / 2 powi (bitlen b - 1)"
      using A B ab by (intro frac_less) simp_all
    also have "\<dots> = 2 powi (e + 1)"
      by (simp add: e_def power_int_diff power_int_add field_simps)
    finally show ?thesis by (simp add: ab(3))
  qed
  have ex: "expo x = (if 2 powi e \<le> x then e else e - 1)"
    by (simp add: expo_def q e_def)
  show "2 powi expo x \<le> x" using lo by (simp add: ex)
  show "x < 2 powi (expo x + 1)" using hi by (simp add: ex)
qed


lemma fl_0 [simp]: "fl 0 = 0"
  by (simp add: fl_def)

lemma fl_minus: "fl (- x) = - fl x"
  by (simp add: fl_def Let_def rne_minus)

text \<open>For a positive argument: the scaled significand lies between two powers of two.\<close>

lemma fl_pos_bounds:
  assumes "0 < x"
  shows "2 powi expo x \<le> fl x" "fl x \<le> 2 powi (expo x + 1)"
    "\<exists>m. fl x = of_int m * 2 powi (expo x - 52) \<and> \<bar>m\<bar> \<le> 2 ^ 53"
proof -
  define e where "e = expo x - 52"
  define y where "y = x / 2 powi e"
  have p: "(0::rat) < 2 powi e" by simp
  have pw: "(2::rat) powi expo x = 2 ^ 52 * 2 powi e" "(2::rat) powi (expo x + 1) = 2 ^ 53 * 2 powi e"
    by (simp_all add: e_def power_int_diff power_int_add)
  note b = expo_bounds [OF assms]
  have "of_int (2 ^ 52) \<le> y" "y \<le> of_int (2 ^ 53)"
    using b p unfolding y_def pw by (simp_all add: le_divide_eq divide_le_eq less_imp_le)
  from rne_mono [OF this(1)] rne_mono [OF this(2)]
  have r: "2 ^ 52 \<le> rne y" "rne y \<le> 2 ^ 53" by (simp_all only: rne_of_int)
  have f: "fl x = of_int (rne y) * 2 powi e"
    using assms by (simp add: fl_def e_def y_def Let_def)
  from r have "(2 ^ 52 :: rat) \<le> of_int (rne y)" "of_int (rne y) \<le> (2 ^ 53 :: rat)"
    by (metis of_int_le_iff of_int_numeral of_int_power)+
  then show "2 powi expo x \<le> fl x" "fl x \<le> 2 powi (expo x + 1)"
    unfolding f pw using p by (auto intro: mult_right_mono)
  show "\<exists>m. fl x = of_int m * 2 powi (expo x - 52) \<and> \<bar>m\<bar> \<le> 2 ^ 53"
    using f r by (intro exI [of _ "rne y"]) (simp add: e_def)
qed

text \<open>The relative error of one operation: at most one unit in the last of 53 places.\<close>

lemma fl_lower:
  assumes "0 \<le> x"
  shows "x * (1 - 1 / 2 ^ 52) \<le> fl x"
proof (cases "x = 0")
  case False
  with assms have pos: "0 < x" by simp
  define e where "e = expo x - 52"
  have p: "(0::rat) < 2 powi e" by simp
  have "2 ^ 52 * 2 powi e \<le> x"
    using expo_bounds(1) [OF pos] by (simp add: e_def power_int_diff)
  then have unit: "2 powi e \<le> x / 2 ^ 52" by simp
  have "x / 2 powi e - 1 \<le> of_int (rne (x / 2 powi e))"
    using rne_bounds(1) [of "x / 2 powi e"] by linarith
  then have "(x / 2 powi e - 1) * 2 powi e \<le> fl x"
    using p pos by (simp add: fl_def e_def Let_def mult_right_mono)
  then have "x - 2 powi e \<le> fl x" using p by (simp add: left_diff_distrib)
  with unit show ?thesis by (simp add: right_diff_distrib)
qed simp

lemma fl_pos: "0 < x \<Longrightarrow> 0 < fl x"
  using fl_pos_bounds(1) [of x] zero_less_power_int [of "2::rat" "expo x"] by linarith

lemma expo_mono:
  assumes "0 < x" "x \<le> y"
  shows "expo x \<le> expo y"
proof (rule ccontr)
  assume "\<not> expo x \<le> expo y"
  then have "(2::rat) powi (expo y + 1) \<le> 2 powi expo x" by (intro power_int_increasing) simp_all
  with expo_bounds [of x] expo_bounds [of y] assms show False by linarith
qed

lemma fl_pos_mono:
  assumes "0 < x" "x \<le> y"
  shows "fl x \<le> fl y"
proof (cases "expo x = expo y")
  case True
  have "rne (x / 2 powi (expo x - 52)) \<le> rne (y / 2 powi (expo x - 52))"
    using assms by (intro rne_mono divide_right_mono) simp_all
  with True assms show ?thesis by (simp add: fl_def Let_def)
next
  case False
  with expo_mono [OF assms] have "expo x + 1 \<le> expo y" by simp
  then have "(2::rat) powi (expo x + 1) \<le> 2 powi expo y" by (intro power_int_increasing) simp_all
  with fl_pos_bounds(2) [OF assms(1)] fl_pos_bounds(1) [of y] assms show ?thesis by linarith
qed

lemma fl_nonneg: "0 \<le> x \<Longrightarrow> 0 \<le> fl x"
  using fl_pos_bounds(1) [of x] zero_less_power_int [of "2::rat" "expo x"]
  by (cases "x = 0") (simp, linarith)

lemma fl_mono: "x \<le> y \<Longrightarrow> fl x \<le> fl y"
proof -
  assume le: "x \<le> y"
  consider "0 < x" | "x \<le> 0" "0 \<le> y" | "y < 0" by linarith
  then show "fl x \<le> fl y"
  proof cases
    case 1
    then show ?thesis using le by (rule fl_pos_mono)
  next
    case 2
    with fl_nonneg [of "- x"] fl_nonneg [of y] show ?thesis by (simp add: fl_minus)
  next
    case 3
    with le fl_pos_mono [of "- y" "- x"] show ?thesis by (simp add: fl_minus)
  qed
qed

text \<open>A dyadic number with a significand of at most 53 bits is kept.\<close>

lemma fl_scaled:
  assumes "0 < z" "z = of_int n * 2 powi (expo z - 52)"
  shows "fl z = z"
proof -
  have "z / 2 powi (expo z - 52) = of_int n"
    using assms(2) by (simp add: nonzero_divide_eq_eq)
  then show ?thesis using assms by (simp add: fl_def Let_def)
qed

lemma fl_dyadic_pos:
  assumes "0 < z" "z = of_int m * 2 powi k" "m \<le> 2 ^ 53"
  shows "fl z = z"
proof (cases "expo z - 52 \<le> k")
  case True
  define j where "j = nat (k - (expo z - 52))"
  have "(2::rat) powi k = 2 ^ j * 2 powi (expo z - 52)"
    using True by (simp add: j_def flip: power_int_add power_int_of_nat)
  with assms(2) have "z = of_int (m * 2 ^ j) * 2 powi (expo z - 52)" by simp
  with assms(1) show ?thesis by (rule fl_scaled)
next
  case False
  have "z \<le> 2 ^ 53 * 2 powi k"
  proof -
    have "of_int m \<le> (of_int (2 ^ 53) :: rat)" using assms(3) by (simp only: of_int_le_iff)
    then show ?thesis unfolding assms(2) by (intro mult_right_mono) simp_all
  qed
  also have "\<dots> = 2 powi (k + 53)" by (simp add: power_int_add)
  also have "\<dots> \<le> 2 powi expo z" using False by (intro power_int_increasing) simp_all
  finally have "z = 2 powi expo z" using expo_bounds(1) [OF assms(1)] by simp
  also have "\<dots> = of_int (2 ^ 52) * 2 powi (expo z - 52)" by (simp add: power_int_diff)
  finally show ?thesis by (rule fl_scaled [OF assms(1)])
qed

lemma fl_dyadic:
  assumes "x = of_int m * 2 powi k" "\<bar>m\<bar> \<le> 2 ^ 53"
  shows "fl x = x"
proof -
  consider "x = 0" | "0 < x" | "0 < - x" by linarith
  then show ?thesis
  proof cases
    case 2
    then show ?thesis using assms(1) by (rule fl_dyadic_pos) (use assms(2) in simp)
  next
    case 3
    have "fl (- x) = - x"
      using 3 by (rule fl_dyadic_pos [where m = "- m" and k = k]) (use assms in simp_all)
    then show ?thesis by (simp add: fl_minus)
  qed simp
qed

lemma fl_rep: "\<exists>m k. fl x = of_int m * 2 powi k \<and> \<bar>m\<bar> \<le> 2 ^ 53"
proof -
  consider "x = 0" | "0 < x" | "0 < - x" by linarith
  then show ?thesis
  proof cases
    case 1
    then show ?thesis by (intro exI [of _ 0]) simp
  next
    case 2
    then show ?thesis using fl_pos_bounds(3) by blast
  next
    case 3
    from fl_pos_bounds(3) [OF this] obtain m where
      "fl (- x) = of_int m * 2 powi (expo (- x) - 52)" "\<bar>m\<bar> \<le> 2 ^ 53" by blast
    then show ?thesis
      by (intro exI [of _ "- m"] exI [of _ "expo (- x) - 52"]) (simp add: fl_minus)
  qed
qed

lemma fl_idem [simp]: "fl (fl x) = fl x"
  using fl_rep [of x] fl_dyadic by blast

lemma fl_of_int: "\<bar>n\<bar> \<le> 2 ^ 53 \<Longrightarrow> fl (of_int n) = of_int n"
  by (rule fl_dyadic [where k = 0]) simp_all

lemma fl_half: "fl x = x \<Longrightarrow> fl (x / 2) = x / 2"
proof -
  assume "fl x = x"
  with fl_rep [of x] obtain m k where "x = of_int m * 2 powi k" "\<bar>m\<bar> \<le> 2 ^ 53" by auto
  then show ?thesis by (intro fl_dyadic [where m = m and k = "k - 1"]) (simp_all add: power_int_diff)
qed

interpretation f64: rounding fl
  using fl_of_int [of 1] by unfold_locales (simp_all add: fl_mono)


lemma fl_eval: "fl (4 / 5) = 3602879701896397 / 4503599627370496"
   "fl (1 / 5) = 3602879701896397 / 18014398509481984"
  by code_simp+

end
