(* ===== verification/Proxy_Pool.thy ===== *)
theory Proxy_Pool
  imports Go_Float
begin

text \<open>
  The egress pool of \<open>internal/proxy/pool.go\<close>. Proxies are heap objects shared by pointer:
  \<open>Reload\<close> keeps the object of a URL that stays in the list, workers hold pointers to objects
  that a concurrent \<open>Reload\<close> has dropped, and a list with a repeated URL aliases one object.
  The heap is the list \<open>objs\<close>, a pointer is an index into it.

  Every operation that reads the clock takes its readings as an argument: \<open>now\<close> for a
  single reading, \<open>clk i\<close> for the \<open>i\<close>-th reading of a loop. Random draws are arguments
  as well: \<open>rand.Intn(n)\<close> is \<open>r mod n\<close> for an arbitrary \<open>r\<close>, \<open>rand.Float64()\<close> an arbitrary \<open>f\<close>.
\<close>

subsection \<open>Data\<close>

datatype proxy_error = ErrAllBanned

datatype strategy = RoundRobin | Random | WeightedSuccessRate

datatype proxy_outcome = Success | Failure | Blocked | RateLimited | Neutral

definition healthAlpha :: rat where "healthAlpha = 1 / 5"

record proxy =
  px_URL :: string
  consecutiveFails :: int
  bannedUntil :: instant
  totalSuccess :: "64 word"
  totalFailure :: "64 word"
  lastUsedAt :: instant
  banStreak :: int
  health :: rat
  hasHealth :: bool

record pool =
  objs :: "proxy list"
  proxies :: "nat list"
  byURL :: "string \<rightharpoonup> nat"
  idx :: nat
  banThreshold :: int
  banCooldown :: duration
  Strategy :: strategy
  MaxCooldown :: duration

record proxy_stats =
  st_URL :: string
  st_TotalSuccess :: "64 word"
  st_TotalFailure :: "64 word"
  st_ConsecutiveFails :: int
  st_Banned :: bool
  st_BannedUntil :: instant
  st_LastUsedAt :: instant
  st_BanStreak :: int
  st_Health :: rat

subsection \<open>One proxy\<close>

definition new_proxy :: "string \<Rightarrow> proxy" where
  "new_proxy u = \<lparr>px_URL = u, consecutiveFails = 0, bannedUntil = 0, totalSuccess = 0,
     totalFailure = 0, lastUsedAt = 0, banStreak = 0, health = 0, hasHealth = False\<rparr>"

definition Key :: "proxy \<Rightarrow> string" where
  "Key p = (if px_URL p = [] then ''direct'' else px_URL p)"

definition isBanned :: "instant \<Rightarrow> proxy \<Rightarrow> bool" where
  "isBanned now p \<longleftrightarrow> now < bannedUntil p"

definition healthLocked :: "proxy \<Rightarrow> rat" where
  "healthLocked p = (if \<not> hasHealth p then - 1 else health p)"

definition proxy_Stats :: "instant \<Rightarrow> proxy \<Rightarrow> proxy_stats" where
  "proxy_Stats now p = \<lparr>st_URL = px_URL p, st_TotalSuccess = totalSuccess p,
     st_TotalFailure = totalFailure p, st_ConsecutiveFails = consecutiveFails p,
     st_Banned = (now < bannedUntil p), st_BannedUntil = bannedUntil p,
     st_LastUsedAt = lastUsedAt p, st_BanStreak = banStreak p, st_Health = healthLocked p\<rparr>"

definition SuccessRate :: "proxy_stats \<Rightarrow> rat" where
  "SuccessRate s = (let total = st_TotalSuccess s + st_TotalFailure s in
     if total = 0 then 0
     else fl (fl (of_nat (unat (st_TotalSuccess s))) / fl (of_nat (unat total))))"

definition recordHealthLocked :: "bool \<Rightarrow> proxy \<Rightarrow> proxy" where
  "recordHealthLocked ok p = (let v = (if ok then 1 else 0) in
     if \<not> hasHealth p then p\<lparr>health := v, hasHealth := True\<rparr>
     else p\<lparr>health := fl (fl (fl (1 - healthAlpha) * health p) + fl (fl healthAlpha * v))\<rparr>)"

subsection \<open>Building and reloading the pool\<close>

fun setProxies_loop :: "string list \<Rightarrow> pool \<Rightarrow> pool" where
  "setProxies_loop [] pl = pl"
| "setProxies_loop (u # us) pl =
     setProxies_loop us (pl\<lparr>objs := objs pl @ [new_proxy u],
       proxies := proxies pl @ [length (objs pl)],
       byURL := (byURL pl)(u \<mapsto> length (objs pl))\<rparr>)"

definition setProxies :: "string list \<Rightarrow> pool \<Rightarrow> pool" where
  "setProxies urls pl =
     setProxies_loop (if urls = [] then [''''] else urls) (pl\<lparr>proxies := []\<rparr>)"

definition NewPool :: "string list \<Rightarrow> int \<Rightarrow> duration \<Rightarrow> pool" where
  "NewPool urls thr cd = setProxies urls
     \<lparr>objs = [], proxies = [], byURL = Map.empty, idx = 0, banThreshold = thr,
      banCooldown = cd, Strategy = RoundRobin, MaxCooldown = 0\<rparr>"

fun Reload_loop :: "(string \<rightharpoonup> nat) \<Rightarrow> string list \<Rightarrow> proxy list \<Rightarrow> nat list \<Rightarrow> (string \<rightharpoonup> nat) \<Rightarrow>
    proxy list \<times> nat list \<times> (string \<rightharpoonup> nat)" where
  "Reload_loop old [] h ps m = (h, ps, m)"
| "Reload_loop old (u # us) h ps m =
     (case old u of
        Some e \<Rightarrow> Reload_loop old us h (ps @ [e]) (m(u \<mapsto> e))
      | None \<Rightarrow> Reload_loop old us (h @ [new_proxy u]) (ps @ [length h]) (m(u \<mapsto> length h)))"

definition Reload :: "string list \<Rightarrow> pool \<Rightarrow> pool" where
  "Reload urls pl =
     (let us = (if urls = [] then [''''] else urls);
          (h, ps, m) = Reload_loop (byURL pl) us (objs pl) [] Map.empty
      in pl\<lparr>objs := h, proxies := ps, byURL := m, idx := 0\<rparr>)"

subsection \<open>Choosing a proxy\<close>

definition obj :: "pool \<Rightarrow> nat \<Rightarrow> proxy" where
  "obj pl p = objs pl ! p"

definition markUsed :: "instant \<Rightarrow> nat \<Rightarrow> pool \<Rightarrow> pool" where
  "markUsed now p pl = pl\<lparr>objs := (objs pl)[p := (obj pl p)\<lparr>lastUsedAt := now\<rparr>]\<rparr>"

fun rr_loop :: "(nat \<Rightarrow> instant) \<Rightarrow> nat \<Rightarrow> nat \<Rightarrow> pool \<Rightarrow> pool \<times> (proxy_error + nat)" where
  "rr_loop clk 0 i pl = (pl, Inl ErrAllBanned)"
| "rr_loop clk (Suc k) i pl =
     (let p = proxies pl ! idx pl;
          pl' = pl\<lparr>idx := (idx pl + 1) mod length (proxies pl)\<rparr>
      in if \<not> isBanned (clk i) (obj pl p) then (markUsed (clk (Suc i)) p pl', Inr p)
         else rr_loop clk k (Suc i) pl')"

definition nextRoundRobinLocked :: "(nat \<Rightarrow> instant) \<Rightarrow> pool \<Rightarrow> pool \<times> (proxy_error + nat)" where
  "nextRoundRobinLocked clk pl = rr_loop clk (length (proxies pl)) 0 pl"

definition healthyLocked :: "(nat \<Rightarrow> instant) \<Rightarrow> pool \<Rightarrow> nat list" where
  "healthyLocked clk pl =
     map fst (filter (\<lambda>(p, i). \<not> isBanned (clk i) (obj pl p))
       (zip (proxies pl) [0..<length (proxies pl)]))"

definition nextRandomLocked ::
    "(nat \<Rightarrow> instant) \<Rightarrow> nat \<Rightarrow> pool \<Rightarrow> pool \<times> (proxy_error + nat)" where
  "nextRandomLocked clk r pl = (let healthy = healthyLocked clk pl in
     if length healthy = 0 then (pl, Inl ErrAllBanned)
     else let p = healthy ! (r mod length healthy)
          in (markUsed (clk (length (proxies pl))) p pl, Inr p))"

definition weight_floor :: rat where "weight_floor = fl (1 / 10)"

definition weight :: "proxy \<Rightarrow> rat" where
  "weight p = (let w = healthLocked p; w = (if w < 0 then 1 / 2 else w)
     in if w < weight_floor then weight_floor else w)"

fun pick_weighted :: "rat \<Rightarrow> (nat \<times> rat) list \<Rightarrow> nat option" where
  "pick_weighted r [] = None"
| "pick_weighted r ((p, w) # ws) =
     (let r' = fl (r - w) in if r' \<le> 0 then Some p else pick_weighted r' ws)"

definition nextWeightedLocked ::
    "(nat \<Rightarrow> instant) \<Rightarrow> rat \<Rightarrow> pool \<Rightarrow> pool \<times> (proxy_error + nat)" where
  "nextWeightedLocked clk f pl = (let healthy = healthyLocked clk pl in
     if length healthy = 0 then (pl, Inl ErrAllBanned)
     else let weights = map (\<lambda>p. weight (obj pl p)) healthy;
              total = foldl (\<lambda>t w. fl (t + w)) 0 weights;
              p = (case pick_weighted (fl (f * total)) (zip healthy weights) of
                     Some p \<Rightarrow> p | None \<Rightarrow> healthy ! (length healthy - 1))
          in (markUsed (clk (length (proxies pl))) p pl, Inr p))"

definition Next :: "(nat \<Rightarrow> instant) \<Rightarrow> nat \<Rightarrow> rat \<Rightarrow> pool \<Rightarrow> pool \<times> (proxy_error + nat)" where
  "Next clk r f pl = (case Strategy pl of
       Random \<Rightarrow> nextRandomLocked clk r pl
     | WeightedSuccessRate \<Rightarrow> nextWeightedLocked clk f pl
     | RoundRobin \<Rightarrow> nextRoundRobinLocked clk pl)"

subsection \<open>Feedback and cooldowns\<close>

fun double_loop :: "nat \<Rightarrow> duration \<Rightarrow> duration \<Rightarrow> duration" where
  "double_loop 0 mx d = d"
| "double_loop (Suc k) mx d = (if d < mx then double_loop k mx (wrap64 (d * 2)) else d)"

definition cooldown_cap :: "pool \<Rightarrow> duration" where
  "cooldown_cap pl = (if MaxCooldown pl \<le> 0 then wrap64 (16 * banCooldown pl) else MaxCooldown pl)"

definition escalatedCooldownLocked :: "pool \<Rightarrow> proxy \<Rightarrow> duration \<times> proxy" where
  "escalatedCooldownLocked pl p =
     (let mx = cooldown_cap pl;
          d = double_loop (nat (banStreak p)) mx (banCooldown pl);
          d = (if mx < d then mx else d)
      in (d, p\<lparr>banStreak := banStreak p + 1\<rparr>))"

definition coolLocked :: "instant \<Rightarrow> duration \<Rightarrow> proxy \<Rightarrow> proxy \<times> bool" where
  "coolLocked now d p =
     (let wasCooling = (now < bannedUntil p);
          till = now + d;
          p = (if bannedUntil p < till then p\<lparr>bannedUntil := till\<rparr> else p)
      in (p\<lparr>consecutiveFails := 0\<rparr>, \<not> wasCooling))"

definition report_proxy ::
    "pool \<Rightarrow> instant \<Rightarrow> proxy_outcome \<Rightarrow> duration \<Rightarrow> proxy \<Rightarrow> proxy \<times> bool" where
  "report_proxy pl now out retryAfter p = (case out of
       Success \<Rightarrow>
         (recordHealthLocked True
            (p\<lparr>consecutiveFails := 0, banStreak := 0, totalSuccess := totalSuccess p + 1\<rparr>), False)
     | Neutral \<Rightarrow> (p, False)
     | _ \<Rightarrow>
         (let p = recordHealthLocked False (p\<lparr>totalFailure := totalFailure p + 1\<rparr>) in
          case out of
            RateLimited \<Rightarrow>
              if 0 < retryAfter then coolLocked now retryAfter p
              else (let (d, p) = escalatedCooldownLocked pl p in coolLocked now d p)
          | Blocked \<Rightarrow> (let (d, p) = escalatedCooldownLocked pl p in coolLocked now d p)
          | _ \<Rightarrow>
              (let p = p\<lparr>consecutiveFails := consecutiveFails p + 1\<rparr> in
               if 0 < banThreshold pl \<and> banThreshold pl \<le> consecutiveFails p
               then (let (d, p) = escalatedCooldownLocked pl p in coolLocked now d p)
               else (p, False))))"

definition ReportOutcome ::
    "instant \<Rightarrow> nat \<Rightarrow> proxy_outcome \<Rightarrow> duration \<Rightarrow> pool \<Rightarrow> pool \<times> bool" where
  "ReportOutcome now p out retryAfter pl =
     (let (q, b) = report_proxy pl now out retryAfter (obj pl p)
      in (pl\<lparr>objs := (objs pl)[p := q]\<rparr>, b))"

definition ReportResult :: "instant \<Rightarrow> nat \<Rightarrow> 'e option \<Rightarrow> pool \<Rightarrow> pool \<times> bool" where
  "ReportResult now p err pl =
     (case err of None \<Rightarrow> ReportOutcome now p Success 0 pl
      | Some _ \<Rightarrow> ReportOutcome now p Failure 0 pl)"

subsection \<open>Reading the pool\<close>

fun NextAvailableAt_loop :: "instant \<Rightarrow> proxy list \<Rightarrow> instant \<Rightarrow> instant" where
  "NextAvailableAt_loop now [] earliest = earliest"
| "NextAvailableAt_loop now (p # ps) earliest =
     (let till = bannedUntil p in
      if \<not> now < till then 0
      else NextAvailableAt_loop now ps (if IsZero earliest \<or> till < earliest then till else earliest))"

definition NextAvailableAt :: "instant \<Rightarrow> pool \<Rightarrow> instant" where
  "NextAvailableAt now pl = NextAvailableAt_loop now (map (obj pl) (proxies pl)) 0"

fun Counts_loop :: "(nat \<Rightarrow> instant) \<Rightarrow> nat \<Rightarrow> proxy list \<Rightarrow> nat \<times> nat \<Rightarrow> nat \<times> nat" where
  "Counts_loop clk i [] ac = ac"
| "Counts_loop clk i (p # ps) (a, c) =
     Counts_loop clk (Suc i) ps (if isBanned (clk i) p then (a, c + 1) else (a + 1, c))"

definition Counts :: "(nat \<Rightarrow> instant) \<Rightarrow> pool \<Rightarrow> nat \<times> nat" where
  "Counts clk pl = Counts_loop clk 0 (map (obj pl) (proxies pl)) (0, 0)"

definition Size :: "pool \<Rightarrow> nat" where
  "Size pl = length (proxies pl)"

definition AllStats :: "(nat \<Rightarrow> instant) \<Rightarrow> pool \<Rightarrow> proxy_stats list" where
  "AllStats clk pl =
     map (\<lambda>(p, i). proxy_Stats (clk i) (obj pl p)) (zip (proxies pl) [0..<length (proxies pl)])"

lemmas [pool_defs] = obj_def markUsed_def isBanned_def Key_def ReportOutcome_def
  coolLocked_def escalatedCooldownLocked_def

subsection \<open>The invariant\<close>

definition proxy_ok :: "proxy \<Rightarrow> bool" where
  "proxy_ok p \<longleftrightarrow> 0 \<le> health p \<and> health p \<le> 1 \<and> 0 \<le> consecutiveFails p \<and> 0 \<le> banStreak p"

definition pool_links :: "pool \<Rightarrow> bool" where
  "pool_links pl \<longleftrightarrow>
     (\<forall>p\<in>set (proxies pl). p < length (objs pl) \<and> byURL pl (px_URL (obj pl p)) \<noteq> None) \<and>
     (\<forall>u p. byURL pl u = Some p \<longrightarrow> p \<in> set (proxies pl) \<and> px_URL (obj pl p) = u)"

definition pool_wf :: "pool \<Rightarrow> bool" where
  "pool_wf pl \<longleftrightarrow> idx pl < length (proxies pl) \<and> pool_links pl \<and> list_all proxy_ok (objs pl)"

lemma proxy_ok_new [simp]: "proxy_ok (new_proxy u)"
  by (simp add: proxy_ok_def new_proxy_def)

lemma px_URL_new [simp]: "px_URL (new_proxy u) = u"
  by (simp add: new_proxy_def)

lemma pool_wf_size: "pool_wf pl \<Longrightarrow> 0 < length (proxies pl)"
  by (auto simp: pool_wf_def)

lemma pool_wf_mem: "pool_wf pl \<Longrightarrow> p \<in> set (proxies pl) \<Longrightarrow> p < length (objs pl)"
  by (auto simp: pool_wf_def pool_links_def)

lemma pool_wf_obj: "pool_wf pl \<Longrightarrow> p < length (objs pl) \<Longrightarrow> proxy_ok (obj pl p)"
  by (simp add: pool_wf_def obj_def list_all_length)

subsubsection \<open>Construction\<close>

lemma setProxies_loop_frame [simp]:
  "idx (setProxies_loop us pl) = idx pl" "banThreshold (setProxies_loop us pl) = banThreshold pl"
  "banCooldown (setProxies_loop us pl) = banCooldown pl"
  "Strategy (setProxies_loop us pl) = Strategy pl"
  "MaxCooldown (setProxies_loop us pl) = MaxCooldown pl"
  "length (proxies (setProxies_loop us pl)) = length (proxies pl) + length us"
  by (induction us pl rule: setProxies_loop.induct) simp_all

lemma setProxies_loop_objs: "objs (setProxies_loop us pl) = objs pl @ map new_proxy us"
  by (induction us pl rule: setProxies_loop.induct) simp_all

lemma setProxies_loop_links: "pool_links pl \<Longrightarrow> pool_links (setProxies_loop us pl)"
proof (induction us pl rule: setProxies_loop.induct)
  case (2 u us pl)
  have "pool_links (pl\<lparr>objs := objs pl @ [new_proxy u], proxies := proxies pl @ [length (objs pl)],
      byURL := (byURL pl)(u \<mapsto> length (objs pl))\<rparr>)"
    using "2.prems" by (auto simp: pool_links_def obj_def nth_append)
  then show ?case by (simp add: "2.IH")
qed simp

lemma pool_links_config [simp]:
  "pool_links (pl\<lparr>Strategy := st, MaxCooldown := mx\<rparr>) = pool_links pl"
  by (simp add: pool_links_def obj_def)

lemma NewPool_wf: "pool_wf ((NewPool urls thr cd)\<lparr>Strategy := st, MaxCooldown := mx\<rparr>)"
proof -
  have "pool_links (NewPool urls thr cd)"
    unfolding NewPool_def setProxies_def by (rule setProxies_loop_links) (simp add: pool_links_def)
  moreover have "list_all proxy_ok (objs (NewPool urls thr cd))"
    by (simp add: NewPool_def setProxies_def setProxies_loop_objs list_all_iff)
  moreover have "idx (NewPool urls thr cd) < length (proxies (NewPool urls thr cd))"
    by (simp add: NewPool_def setProxies_def)
  ultimately show ?thesis by (simp add: pool_wf_def)
qed

subsubsection \<open>Reload\<close>

lemma Reload_loop_heap:
  "Reload_loop old us h ps m = (h', ps', m') \<Longrightarrow> h' = h @ map new_proxy (filter (\<lambda>u. old u = None) us)"
  by (induction old us h ps m rule: Reload_loop.induct) (auto split: option.splits)

definition entry_ok :: "(string \<rightharpoonup> nat) \<Rightarrow> proxy list \<Rightarrow> string \<Rightarrow> nat \<Rightarrow> bool" where
  "entry_ok old h u p \<longleftrightarrow> p < length h \<and>
     (case old u of Some e \<Rightarrow> p = e | None \<Rightarrow> h ! p = new_proxy u)"

lemma entry_ok_append: "entry_ok old h u p \<Longrightarrow> entry_ok old (h @ h') u p"
  by (auto simp: entry_ok_def nth_append split: option.splits)

definition reload_post :: "(string \<rightharpoonup> nat) \<Rightarrow> string list \<Rightarrow> proxy list \<Rightarrow> nat list \<Rightarrow>
    (string \<rightharpoonup> nat) \<Rightarrow> (string \<rightharpoonup> nat) \<Rightarrow> bool" where
  "reload_post old us h qs m m' \<longleftrightarrow> list_all2 (entry_ok old h) us qs \<and>
    (\<forall>u. u \<notin> set us \<longrightarrow> m' u = m u) \<and>
    (\<forall>u\<in>set us. \<exists>p\<in>set qs. m' u = Some p \<and> entry_ok old h u p)"

lemma reload_post_Cons:
  assumes "reload_post old us h qs (m(u \<mapsto> e)) m'" "entry_ok old h u e"
  shows "reload_post old (u # us) h (e # qs) m m'"
proof -
  have "m' u = Some e \<or> u \<in> set us" using assms(1) by (auto simp: reload_post_def)
  then show ?thesis using assms by (auto simp: reload_post_def)
qed

lemma Reload_loop_entries:
  assumes "Reload_loop old us h ps m = (h', ps', m')"
    and "\<And>u e. old u = Some e \<Longrightarrow> e < length h"
  shows "\<exists>qs. ps' = ps @ qs \<and> reload_post old us h' qs m m'"
  using assms
proof (induction old us h ps m rule: Reload_loop.induct)
  case (1 old h ps m)
  then show ?case by (simp add: reload_post_def)
next
  case (2 old u us h ps m)
  show ?case
  proof (cases "old u")
    case None
    with "2.prems"(1) have rec: "Reload_loop old us (h @ [new_proxy u]) (ps @ [length h])
      (m(u \<mapsto> length h)) = (h', ps', m')" by simp
    have "\<exists>qs. ps' = (ps @ [length h]) @ qs \<and> reload_post old us h' qs (m(u \<mapsto> length h)) m'"
      by (rule "2.IH"(1) [OF None rec]) (use "2.prems"(2) in \<open>force intro: less_SucI\<close>)
    moreover have "entry_ok old h' u (length h)"
      using None Reload_loop_heap [OF rec] by (simp add: entry_ok_def nth_append)
    ultimately show ?thesis by (auto intro: reload_post_Cons)
  next
    case (Some e)
    with "2.prems"(1) have rec: "Reload_loop old us h (ps @ [e]) (m(u \<mapsto> e)) = (h', ps', m')"
      by simp
    have "\<exists>qs. ps' = (ps @ [e]) @ qs \<and> reload_post old us h' qs (m(u \<mapsto> e)) m'"
      using rec "2.prems"(2) by (intro "2.IH"(2) [OF Some])
    moreover have "entry_ok old h' u e"
      using Some "2.prems"(2) [OF Some] Reload_loop_heap [OF rec] by (simp add: entry_ok_def)
    ultimately show ?thesis by (auto intro: reload_post_Cons)
  qed
qed

text \<open>The URL list a reload installs: an empty list means one direct identity.\<close>

definition effective_urls :: "string list \<Rightarrow> string list" where
  "effective_urls urls = (if urls = [] then [''''] else urls)"

lemma Reload_post:
  assumes "pool_wf pl"
  shows "reload_post (byURL pl) (effective_urls urls) (objs (Reload urls pl))
      (proxies (Reload urls pl)) Map.empty (byURL (Reload urls pl))"
    and "objs (Reload urls pl) = objs pl @
      map new_proxy (filter (\<lambda>u. byURL pl u = None) (effective_urls urls))"
    and "idx (Reload urls pl) = 0"
proof -
  obtain h ps m where r: "Reload_loop (byURL pl) (effective_urls urls) (objs pl) [] Map.empty = (h, ps, m)"
    by (metis prod_cases3)
  then have R: "Reload urls pl = pl\<lparr>objs := h, proxies := ps, byURL := m, idx := 0\<rparr>"
    by (simp add: Reload_def effective_urls_def)
  have "\<And>u e. byURL pl u = Some e \<Longrightarrow> e < length (objs pl)"
    using assms by (auto simp: pool_wf_def pool_links_def)
  from Reload_loop_entries [OF r this] Reload_loop_heap [OF r]
  show "reload_post (byURL pl) (effective_urls urls) (objs (Reload urls pl))
      (proxies (Reload urls pl)) Map.empty (byURL (Reload urls pl))"
    "objs (Reload urls pl) = objs pl @
      map new_proxy (filter (\<lambda>u. byURL pl u = None) (effective_urls urls))"
    "idx (Reload urls pl) = 0"
    by (simp_all add: R)
qed

lemma Reload_entry_URL:
  assumes "pool_wf pl" "entry_ok (byURL pl) (objs (Reload urls pl)) u p"
  shows "px_URL (obj (Reload urls pl) p) = u"
proof (cases "byURL pl u")
  case None
  with assms(2) show ?thesis by (simp add: entry_ok_def obj_def)
next
  case (Some e)
  with assms have "p = e" "e < length (objs pl)" "px_URL (obj pl e) = u"
    by (auto simp: entry_ok_def pool_wf_def pool_links_def)
  with assms(1) show ?thesis by (simp add: Reload_post(2) obj_def nth_append)
qed

lemma Reload_URLs:
  assumes "pool_wf pl"
  shows "map (\<lambda>p. px_URL (obj (Reload urls pl) p)) (proxies (Reload urls pl)) = effective_urls urls"
proof -
  have "list_all2 (entry_ok (byURL pl) (objs (Reload urls pl))) (effective_urls urls)
      (proxies (Reload urls pl))"
    using Reload_post(1) [OF assms] by (simp add: reload_post_def)
  then show ?thesis
    by (intro nth_equalityI) (auto simp: list_all2_conv_all_nth dest!: Reload_entry_URL [OF assms])
qed

lemma Reload_wf:
  assumes "pool_wf pl"
  shows "pool_wf (Reload urls pl)"
proof -
  let ?R = "Reload urls pl"
  have post: "reload_post (byURL pl) (effective_urls urls) (objs ?R) (proxies ?R) Map.empty (byURL ?R)"
    by (rule Reload_post(1) [OF assms])
  have urls: "map (\<lambda>p. px_URL (obj ?R p)) (proxies ?R) = effective_urls urls"
    by (rule Reload_URLs [OF assms])
  have ne: "effective_urls urls \<noteq> []" by (simp add: effective_urls_def)
  have lt: "p < length (objs ?R)" if "p \<in> set (proxies ?R)" for p
    using that post by (auto simp: reload_post_def entry_ok_def list_all2_conv_all_nth in_set_conv_nth)
  have bk: "byURL ?R (px_URL (obj ?R p)) \<noteq> None" if "p \<in> set (proxies ?R)" for p
  proof -
    have "px_URL (obj ?R p) \<in> set (effective_urls urls)"
      using that urls by (metis (no_types, lifting) image_eqI list.set_map)
    with post show ?thesis by (fastforce simp: reload_post_def)
  qed
  have fwd: "p \<in> set (proxies ?R) \<and> px_URL (obj ?R p) = u" if u: "byURL ?R u = Some p" for u p
  proof -
    have "u \<in> set (effective_urls urls)" using post u by (cases "u \<in> set (effective_urls urls)")
        (auto simp: reload_post_def)
    with post u have "p \<in> set (proxies ?R)" "entry_ok (byURL pl) (objs ?R) u p"
      by (fastforce simp: reload_post_def)+
    then show ?thesis using Reload_entry_URL [OF assms] by blast
  qed
  have "list_all proxy_ok (objs ?R)"
    using assms by (auto simp: Reload_post(2) pool_wf_def list_all_iff)
  moreover have "0 < length (proxies ?R)" using urls ne by (metis length_greater_0_conv map_is_Nil_conv)
  ultimately show ?thesis using lt bk fwd
    by (simp add: pool_wf_def pool_links_def Reload_post(3) [OF assms])
qed

subsubsection \<open>Updates of one object\<close>

text \<open>
  What choosing and reporting do to the heap: one object is replaced by one with the same URL,
  and the rotation index moves within the list.
\<close>

definition pool_upd :: "pool \<Rightarrow> nat \<Rightarrow> nat \<Rightarrow> proxy \<Rightarrow> pool" where
  "pool_upd pl i p q = pl\<lparr>idx := i, objs := (objs pl)[p := q]\<rparr>"

lemma pool_upd_sel [simp]:
  "proxies (pool_upd pl i p q) = proxies pl" "byURL (pool_upd pl i p q) = byURL pl"
  "idx (pool_upd pl i p q) = i" "objs (pool_upd pl i p q) = (objs pl)[p := q]"
  "banThreshold (pool_upd pl i p q) = banThreshold pl"
  "banCooldown (pool_upd pl i p q) = banCooldown pl"
  "Strategy (pool_upd pl i p q) = Strategy pl" "MaxCooldown (pool_upd pl i p q) = MaxCooldown pl"
  by (simp_all add: pool_upd_def)

lemma obj_pool_upd:
  "p < length (objs pl) \<Longrightarrow> obj (pool_upd pl i p q) x = (if x = p then q else obj pl x)"
  by (simp add: obj_def nth_list_update)

lemma pool_upd_wf:
  assumes "pool_wf pl" "p < length (objs pl)" "px_URL q = px_URL (obj pl p)" "proxy_ok q"
    and "i < length (proxies pl)"
  shows "pool_wf (pool_upd pl i p q)"
proof -
  have "list_all proxy_ok ((objs pl)[p := q])"
    using assms(1,4) by (auto simp: pool_wf_def list_all_iff dest: set_update_subset_insert [THEN subsetD])
  then show ?thesis
    using assms by (auto simp: pool_wf_def pool_links_def obj_pool_upd)
qed

lemma markUsed_upd: "markUsed now p pl = pool_upd pl (idx pl) p ((obj pl p)\<lparr>lastUsedAt := now\<rparr>)"
  by (simp add: markUsed_def pool_upd_def)

lemma proxy_ok_lastUsedAt [simp]: "proxy_ok (p\<lparr>lastUsedAt := t\<rparr>) = proxy_ok p"
  by (simp add: proxy_ok_def)

lemma pool_wf_idx: "pool_wf pl \<Longrightarrow> j < length (proxies pl) \<Longrightarrow> pool_wf (pl\<lparr>idx := j\<rparr>)"
  by (simp add: pool_wf_def pool_links_def obj_def)

lemma markUsed_wf: "pool_wf pl \<Longrightarrow> p < length (objs pl) \<Longrightarrow> pool_wf (markUsed now p pl)"
  unfolding markUsed_upd
  by (rule pool_upd_wf) (simp_all add: pool_wf_obj, simp add: pool_wf_def)

lemma bannedUntil_markUsed [simp]:
  "p < length (objs pl) \<Longrightarrow> bannedUntil (obj (markUsed now p pl) x) = bannedUntil (obj pl x)"
  by (simp add: markUsed_upd obj_pool_upd)

subsubsection \<open>Choosing\<close>

definition rr_at :: "pool \<Rightarrow> nat \<Rightarrow> nat" where
  "rr_at pl j = proxies pl ! ((idx pl + j) mod length (proxies pl))"

lemma rr_at_mem: "proxies pl \<noteq> [] \<Longrightarrow> rr_at pl j \<in> set (proxies pl)"
  by (simp add: rr_at_def)

text \<open>
  The round-robin loop searches from the index on for the first entry that is not banned at its
  clock reading, and leaves the index behind it; it fails only if all entries were banned.
\<close>

definition rr_find :: "(nat \<Rightarrow> instant) \<Rightarrow> nat \<Rightarrow> nat \<Rightarrow> pool \<Rightarrow> nat option" where
  "rr_find clk k i pl = find (\<lambda>j. \<not> isBanned (clk (i + j)) (obj pl (rr_at pl j))) [0..<k]"

lemma rr_loop_find:
  assumes "idx pl < length (proxies pl)"
  shows "rr_loop clk k i pl = (case rr_find clk k i pl of
      Some j \<Rightarrow> (markUsed (clk (Suc (i + j))) (rr_at pl j)
        (pl\<lparr>idx := (idx pl + Suc j) mod length (proxies pl)\<rparr>), Inr (rr_at pl j))
    | None \<Rightarrow> (pl\<lparr>idx := (idx pl + k) mod length (proxies pl)\<rparr>, Inl ErrAllBanned))"
  using assms
proof (induction k arbitrary: i pl)
  case 0
  then show ?case by (simp add: rr_find_def)
next
  case (Suc k)
  define pl' where "pl' = pl\<lparr>idx := (idx pl + 1) mod length (proxies pl)\<rparr>"
  have p0: "proxies pl ! idx pl = rr_at pl 0" using Suc.prems by (simp add: rr_at_def)
  have [simp]: "rr_at pl' j = rr_at pl (Suc j)" "obj pl' x = obj pl x" "proxies pl' = proxies pl"
    "pl'\<lparr>idx := (idx pl' + m) mod length (proxies pl)\<rparr> =
      pl\<lparr>idx := (idx pl + Suc m) mod length (proxies pl)\<rparr>" for j x m
    by (simp_all add: pl'_def rr_at_def obj_def mod_simps)
  have step: "rr_loop clk (Suc k) i pl =
      (if isBanned (clk i) (obj pl (rr_at pl 0)) then rr_loop clk k (Suc i) pl'
       else (markUsed (clk (Suc i)) (rr_at pl 0) pl', Inr (rr_at pl 0)))"
    by (simp add: p0 pl'_def Let_def)
  have "idx pl' < length (proxies pl')"
    using Suc.prems by (auto simp: pl'_def intro!: mod_less_divisor)
  note IH = Suc.IH [OF this, of "Suc i"]
  have "rr_find clk (Suc k) i pl = (if isBanned (clk i) (obj pl (rr_at pl 0))
      then map_option Suc (rr_find clk k (Suc i) pl') else Some 0)"
    by (simp add: rr_find_def find_upt_Suc del: upt_Suc)
  then show ?case unfolding step IH
    by (simp del: rr_loop.simps add_Suc_right split: option.split) (simp add: pl'_def)
qed

lemma rr_find_None:
  assumes "idx pl < length (proxies pl)" "rr_find clk (length (proxies pl)) 0 pl = None"
    and "p \<in> set (proxies pl)"
  shows "\<exists>i. isBanned (clk i) (obj pl p)"
proof -
  obtain k where k: "k < length (proxies pl)" "p = proxies pl ! k"
    using assms(3) by (auto simp: in_set_conv_nth)
  define j where "j = (k + (length (proxies pl) - idx pl)) mod length (proxies pl)"
  have "p = rr_at pl j" using k assms(1) by (simp add: j_def rr_at_def mod_simps)
  moreover have "j < length (proxies pl)" using assms(1) by (auto simp: j_def intro!: mod_less_divisor)
  ultimately show ?thesis using assms(2) by (auto simp: rr_find_def find_None_iff)
qed

lemma set_healthyLocked:
  "set (healthyLocked clk pl) =
     {p. \<exists>i<length (proxies pl). proxies pl ! i = p \<and> \<not> isBanned (clk i) (obj pl p)}"
  by (force simp: healthyLocked_def set_zip)

lemma healthyLocked_Nil:
  assumes "healthyLocked clk pl = []" "p \<in> set (proxies pl)"
  shows "\<exists>i. isBanned (clk i) (obj pl p)"
proof -
  have "set (healthyLocked clk pl) = {}" using assms(1) by simp
  with assms(2) show ?thesis unfolding set_healthyLocked by (auto simp: in_set_conv_nth)
qed

lemma pick_weighted_mem: "pick_weighted r (zip ps ws) = Some p \<Longrightarrow> p \<in> set ps"
proof (induction ps arbitrary: ws r)
  case (Cons x xs)
  then show ?case by (cases ws) (auto simp: Let_def split: if_splits)
qed simp

text \<open>The choice every strategy makes, with the clock readings it was based on.\<close>

definition next_post :: "(nat \<Rightarrow> instant) \<Rightarrow> pool \<Rightarrow> pool \<times> (proxy_error + nat) \<Rightarrow> bool" where
  "next_post clk pl res \<longleftrightarrow>
     (\<exists>p i j t. p \<in> set (proxies pl) \<and> i < length (proxies pl) \<and> \<not> isBanned (clk i) (obj pl p) \<and>
        j < length (proxies pl) \<and> res = (markUsed t p (pl\<lparr>idx := j\<rparr>), Inr p)) \<or>
     (\<exists>j<length (proxies pl). res = (pl\<lparr>idx := j\<rparr>, Inl ErrAllBanned) \<and>
        (\<forall>p\<in>set (proxies pl). \<exists>i. isBanned (clk i) (obj pl p)))"

lemma next_post_chosen:
  assumes "p \<in> set (healthyLocked clk pl)" "idx pl < length (proxies pl)"
  shows "next_post clk pl (markUsed t p pl, Inr p)"
proof -
  from assms(1) obtain i where "p \<in> set (proxies pl)" "i < length (proxies pl)"
      "\<not> isBanned (clk i) (obj pl p)"
    by (auto simp: set_healthyLocked)
  with assms(2) show ?thesis unfolding next_post_def
    by (intro disjI1 exI [of _ p] exI [of _ i] exI [of _ "idx pl"] exI [of _ t]) simp
qed

lemma next_post_banned:
  assumes "healthyLocked clk pl = []" "idx pl < length (proxies pl)"
  shows "next_post clk pl (pl, Inl ErrAllBanned)"
  unfolding next_post_def using assms healthyLocked_Nil [OF assms(1)]
  by (intro disjI2 exI [of _ "idx pl"]) simp

lemma nextRoundRobinLocked_post:
  assumes n: "idx pl < length (proxies pl)"
  shows "next_post clk pl (nextRoundRobinLocked clk pl)"
proof (cases "rr_find clk (length (proxies pl)) 0 pl")
  case None
  with n rr_find_None [OF n None] show ?thesis
    by (auto simp: nextRoundRobinLocked_def rr_loop_find next_post_def)
next
  case (Some j)
  then have "\<not> isBanned (clk j) (obj pl (rr_at pl j))" "j < length (proxies pl)"
    by (auto simp: rr_find_def find_upt_Some)
  moreover have "proxies pl \<noteq> []" using n by auto
  ultimately show ?thesis using n Some
    unfolding next_post_def
    by (intro disjI1 exI [of _ "rr_at pl j"] exI [of _ j] exI [of _ "clk (Suc j)"]
        exI [of _ "(idx pl + Suc j) mod length (proxies pl)"])
      (auto simp: nextRoundRobinLocked_def rr_loop_find rr_at_mem simp del: add_Suc_right
        intro!: mod_less_divisor)
qed

lemma nextRandomLocked_post:
  assumes "idx pl < length (proxies pl)"
  shows "next_post clk pl (nextRandomLocked clk r pl)"
  using assms by (auto simp: nextRandomLocked_def Let_def intro: next_post_chosen next_post_banned)

lemma nextWeightedLocked_post:
  assumes "idx pl < length (proxies pl)"
  shows "next_post clk pl (nextWeightedLocked clk f pl)"
  using assms by (auto simp: nextWeightedLocked_def Let_def split: option.split
      intro: next_post_banned intro!: next_post_chosen dest: pick_weighted_mem)

lemma Next_post: "pool_wf pl \<Longrightarrow> next_post clk pl (Next clk r f pl)"
  by (auto simp: pool_wf_def Next_def nextRoundRobinLocked_post nextRandomLocked_post
      nextWeightedLocked_post split: strategy.split)

lemma Next_wf:
  assumes "pool_wf pl"
  shows "pool_wf (fst (Next clk r f pl))"
  using Next_post [OF assms, of clk r f] assms
  by (auto simp: next_post_def pool_wf_mem intro!: markUsed_wf pool_wf_idx)

subsubsection \<open>Feedback\<close>

lemma weights_round: "fl (fl (1 - healthAlpha) + fl healthAlpha) \<le> 1"
  unfolding healthAlpha_def by code_simp

lemma recordHealthLocked_ok: "proxy_ok p \<Longrightarrow> proxy_ok (recordHealthLocked ok p)"
proof -
  assume p: "proxy_ok p"
  have w: "0 \<le> fl (1 - healthAlpha)" "0 \<le> fl healthAlpha"
    by (simp_all add: healthAlpha_def fl_nonneg)
  have "0 \<le> fl (fl (fl (1 - healthAlpha) * health p) + fl (fl healthAlpha * v))"
    "fl (fl (fl (1 - healthAlpha) * health p) + fl (fl healthAlpha * v)) \<le> 1"
    if "v = 0 \<or> v = 1" for v
    using that p w weights_round f64.average_unit [of "fl (1 - healthAlpha)" "fl healthAlpha" "health p" v]
    by (auto simp: proxy_ok_def)
  with p show ?thesis by (auto simp: recordHealthLocked_def proxy_ok_def Let_def)
qed

lemma recordHealthLocked_frame [simp]:
  "px_URL (recordHealthLocked ok p) = px_URL p"
  "consecutiveFails (recordHealthLocked ok p) = consecutiveFails p"
  "bannedUntil (recordHealthLocked ok p) = bannedUntil p"
  "banStreak (recordHealthLocked ok p) = banStreak p"
  "totalSuccess (recordHealthLocked ok p) = totalSuccess p"
  "totalFailure (recordHealthLocked ok p) = totalFailure p"
  "hasHealth (recordHealthLocked ok p)"
  by (simp_all add: recordHealthLocked_def Let_def)

lemma coolLocked_simps [simp]:
  "px_URL (fst (coolLocked now d p)) = px_URL p"
  "health (fst (coolLocked now d p)) = health p"
  "banStreak (fst (coolLocked now d p)) = banStreak p"
  "totalSuccess (fst (coolLocked now d p)) = totalSuccess p"
  "totalFailure (fst (coolLocked now d p)) = totalFailure p"
  "consecutiveFails (fst (coolLocked now d p)) = 0"
  "bannedUntil (fst (coolLocked now d p)) = max (bannedUntil p) (now + d)"
  "snd (coolLocked now d p) = (\<not> isBanned now p)"
  by (simp_all add: coolLocked_def isBanned_def Let_def)

lemma escalated_simps [simp]:
  "snd (escalatedCooldownLocked pl p) = p\<lparr>banStreak := banStreak p + 1\<rparr>"
  by (simp add: escalatedCooldownLocked_def Let_def)

text \<open>The three ways a report ends: no cooldown, an escalated cooldown, or the server's delay.\<close>

definition escalate :: "pool \<Rightarrow> instant \<Rightarrow> proxy \<Rightarrow> proxy \<times> bool" where
  "escalate pl now p =
     coolLocked now (fst (escalatedCooldownLocked pl p)) (p\<lparr>banStreak := banStreak p + 1\<rparr>)"

definition failed :: "proxy \<Rightarrow> proxy" where
  "failed p = recordHealthLocked False (p\<lparr>totalFailure := totalFailure p + 1\<rparr>)"

lemma failed_simps [simp]:
  "px_URL (failed p) = px_URL p" "consecutiveFails (failed p) = consecutiveFails p"
  "bannedUntil (failed p) = bannedUntil p" "banStreak (failed p) = banStreak p"
  "totalSuccess (failed p) = totalSuccess p" "totalFailure (failed p) = totalFailure p + 1"
  by (simp_all add: failed_def)

lemma failed_ok [simp]: "proxy_ok p \<Longrightarrow> proxy_ok (failed p)"
  unfolding failed_def by (rule recordHealthLocked_ok) (simp add: proxy_ok_def)

lemma report_proxy_simps:
  "report_proxy pl now Success ra p = (recordHealthLocked True
     (p\<lparr>consecutiveFails := 0, banStreak := 0, totalSuccess := totalSuccess p + 1\<rparr>), False)"
  "report_proxy pl now Neutral ra p = (p, False)"
  "report_proxy pl now Blocked ra p = escalate pl now (failed p)"
  "report_proxy pl now RateLimited ra p =
     (if 0 < ra then coolLocked now ra (failed p) else escalate pl now (failed p))"
  "report_proxy pl now Failure ra p =
     (let q = (failed p)\<lparr>consecutiveFails := consecutiveFails p + 1\<rparr> in
      if 0 < banThreshold pl \<and> banThreshold pl \<le> consecutiveFails q then escalate pl now q
      else (q, False))"
  by (simp_all add: report_proxy_def escalate_def failed_def Let_def case_prod_unfold)

lemma escalate_ok: "proxy_ok p \<Longrightarrow> proxy_ok (fst (escalate pl now p))"
  by (simp add: escalate_def proxy_ok_def)

lemma coolLocked_ok: "proxy_ok p \<Longrightarrow> proxy_ok (fst (coolLocked now d p))"
  by (simp add: proxy_ok_def)

lemma report_proxy_ok: "proxy_ok p \<Longrightarrow> proxy_ok (fst (report_proxy pl now out ra p))"
proof (cases out)
  case Success
  assume "proxy_ok p"
  then have "proxy_ok (p\<lparr>consecutiveFails := 0, banStreak := 0, totalSuccess := totalSuccess p + 1\<rparr>)"
    by (simp add: proxy_ok_def)
  with Success show ?thesis by (simp add: report_proxy_simps recordHealthLocked_ok)
next
  case Failure
  assume p: "proxy_ok p"
  then have "proxy_ok ((failed p)\<lparr>consecutiveFails := consecutiveFails p + 1\<rparr>)"
    using failed_ok [OF p] by (simp add: proxy_ok_def)
  with Failure show ?thesis by (simp add: report_proxy_simps escalate_ok Let_def)
qed (simp_all add: report_proxy_simps escalate_ok coolLocked_ok)

lemma report_proxy_URL [simp]: "px_URL (fst (report_proxy pl now out ra p)) = px_URL p"
  by (cases out) (simp_all add: report_proxy_simps escalate_def Let_def)

lemma ReportOutcome_upd:
  "ReportOutcome now p out ra pl =
     (pool_upd pl (idx pl) p (fst (report_proxy pl now out ra (obj pl p))),
      snd (report_proxy pl now out ra (obj pl p)))"
  by (simp add: ReportOutcome_def pool_upd_def case_prod_unfold Let_def)

lemma ReportOutcome_wf:
  "pool_wf pl \<Longrightarrow> p < length (objs pl) \<Longrightarrow> pool_wf (fst (ReportOutcome now p out ra pl))"
  unfolding ReportOutcome_upd fst_conv
  by (rule pool_upd_wf) (simp_all add: report_proxy_ok pool_wf_obj, simp add: pool_wf_def)

subsection \<open>Every interleaving of the pool's operations\<close>

text \<open>
  Workers and the operator drive the pool concurrently; each operation is one critical section.
  A report may name any object ever handed out, also one a reload has dropped since.
\<close>

definition pool_start :: "pool \<Rightarrow> bool" where
  "pool_start pl \<longleftrightarrow>
     (\<exists>urls thr cd st mx. pl = (NewPool urls thr cd)\<lparr>Strategy := st, MaxCooldown := mx\<rparr>)"

inductive pool_step :: "pool \<Rightarrow> pool \<Rightarrow> bool" where
  reload: "pool_step pl (Reload urls pl)"
| choose: "pool_step pl (fst (Next clk r f pl))"
| report: "p < length (objs pl) \<Longrightarrow> pool_step pl (fst (ReportOutcome now p out ra pl))"

inductive_cases pool_stepE: "pool_step pl pl'"

interpretation pool_sys: invariant_system pool_start pool_step pool_wf
proof unfold_locales
  show "pool_wf s" if "pool_start s" for s
    using that NewPool_wf by (auto simp: pool_start_def)
  show "pool_wf t" if "pool_wf s" "pool_step s t" for s t
    using that(2,1) by (cases rule: pool_step.cases) (auto intro: Reload_wf Next_wf ReportOutcome_wf)
qed

subsection \<open>Cooldown lengths\<close>

lemma double_loop_min:
  assumes "0 \<le> d" "0 < mx" "int64 (2 * mx)"
  shows "min mx (double_loop k mx d) = min mx (d * 2 ^ k)"
  using assms
proof (induction k arbitrary: d)
  case 0
  then show ?case by simp
next
  case (Suc k)
  show ?case
  proof (cases "d < mx")
    case True
    have "wrap64 (d * 2) = d * 2"
      using True Suc.prems by (intro wrap64_id) (auto simp: int64_def)
    then show ?thesis using True Suc.IH [of "d * 2"] Suc.prems by (simp add: mult.assoc)
  next
    case False
    have "(1::int) \<le> 2 ^ Suc k" by (rule one_le_power) simp
    then have "d * 1 \<le> d * 2 ^ Suc k" using Suc.prems by (intro mult_left_mono)
    with False show ?thesis by simp
  qed
qed

text \<open>The configurations whose cooldown arithmetic stays inside 64 bits.\<close>

definition cooldown_config :: "pool \<Rightarrow> bool" where
  "cooldown_config pl \<longleftrightarrow> 0 < banCooldown pl \<and> 32 * banCooldown pl < 2 ^ 63 \<and>
     2 * MaxCooldown pl < 2 ^ 63"

lemma cooldown_cap_pos:
  assumes "cooldown_config pl"
  shows "0 < cooldown_cap pl" "int64 (2 * cooldown_cap pl)"
    "cooldown_cap pl = (if MaxCooldown pl \<le> 0 then 16 * banCooldown pl else MaxCooldown pl)"
proof -
  have "wrap64 (16 * banCooldown pl) = 16 * banCooldown pl"
    using assms by (intro wrap64_id) (simp add: cooldown_config_def int64_def)
  with assms show "0 < cooldown_cap pl" "int64 (2 * cooldown_cap pl)"
    "cooldown_cap pl = (if MaxCooldown pl \<le> 0 then 16 * banCooldown pl else MaxCooldown pl)"
    by (auto simp: cooldown_cap_def cooldown_config_def int64_def)
qed

lemma escalated_value:
  assumes "cooldown_config pl"
  shows "fst (escalatedCooldownLocked pl p) =
    min (cooldown_cap pl) (banCooldown pl * 2 ^ nat (banStreak p))"
proof -
  have "fst (escalatedCooldownLocked pl p) =
      min (cooldown_cap pl) (double_loop (nat (banStreak p)) (cooldown_cap pl) (banCooldown pl))"
    by (simp add: escalatedCooldownLocked_def Let_def min_def)
  moreover have "0 \<le> banCooldown pl" using assms by (simp add: cooldown_config_def)
  ultimately show ?thesis
    using double_loop_min cooldown_cap_pos(1,2) [OF assms] by simp
qed

lemma escalated_pos: "cooldown_config pl \<Longrightarrow> 0 < fst (escalatedCooldownLocked pl p)"
  by (simp add: escalated_value cooldown_cap_pos) (simp add: cooldown_config_def)

lemma escalated_failed [simp]:
  "fst (escalatedCooldownLocked pl (failed p)) = fst (escalatedCooldownLocked pl p)"
  "fst (escalatedCooldownLocked pl (p\<lparr>consecutiveFails := n\<rparr>)) = fst (escalatedCooldownLocked pl p)"
  by (simp_all add: escalatedCooldownLocked_def Let_def)

text \<open>
  What one report does to the proxy it names, by outcome, with the escalated length \<open>d\<close>.
\<close>

lemma report_bannedUntil:
  "bannedUntil (fst (report_proxy pl now out ra p)) = (case out of
       Success \<Rightarrow> bannedUntil p
     | Neutral \<Rightarrow> bannedUntil p
     | Blocked \<Rightarrow> max (bannedUntil p) (now + fst (escalatedCooldownLocked pl p))
     | RateLimited \<Rightarrow> max (bannedUntil p)
         (now + (if 0 < ra then ra else fst (escalatedCooldownLocked pl p)))
     | Failure \<Rightarrow> (if 0 < banThreshold pl \<and> banThreshold pl \<le> consecutiveFails p + 1
         then max (bannedUntil p) (now + fst (escalatedCooldownLocked pl p)) else bannedUntil p))"
  by (cases out) (simp_all add: report_proxy_simps escalate_def Let_def)

lemma report_returns:
  "snd (report_proxy pl now out ra p) \<longleftrightarrow> \<not> isBanned now p \<and>
     (out = Blocked \<or> out = RateLimited \<or>
      out = Failure \<and> 0 < banThreshold pl \<and> banThreshold pl \<le> consecutiveFails p + 1)"
  by (cases out) (auto simp: report_proxy_simps escalate_def isBanned_def Let_def)

subsection \<open>Properties\<close>

text \<open>
  C12. Safety of the pool under concurrency: whatever goroutines call \<open>Reload\<close>, \<open>Next\<close> and
  \<open>ReportOutcome\<close> in whatever order, the rotation index stays inside the list (no index panic),
  the list is never empty, every pointer is valid, \<open>byURL\<close> and the list agree, and every health
  score is in \<open>[0, 1]\<close> in spite of floating-point rounding.
\<close>

theorem pool_invariant:
  assumes "pool_start s" "pool_step\<^sup>*\<^sup>* s t"
  shows "idx t < length (proxies t) \<and>
    (\<forall>p\<in>set (proxies t). p < length (objs t) \<and> byURL t (px_URL (obj t p)) \<noteq> None) \<and>
    (\<forall>u p. byURL t u = Some p \<longrightarrow> p \<in> set (proxies t) \<and> px_URL (obj t p) = u) \<and>
    (\<forall>p<length (objs t). 0 \<le> health (obj t p) \<and> health (obj t p) \<le> 1)"
  using pool_sys.inv_reach [OF assms] pool_wf_obj [of t]
  by (auto simp: pool_wf_def pool_links_def proxy_ok_def)

theorem pool_invariant_witness:
  "0 \<le> health (obj (fst (ReportOutcome 5 0 Blocked 0 (NewPool [''http://a''] 3 10))) 0)"
proof -
  let ?s = "(NewPool [''http://a''] 3 10)\<lparr>Strategy := RoundRobin, MaxCooldown := 0\<rparr>"
  have eq: "?s = NewPool [''http://a''] 3 10" by (simp add: NewPool_def setProxies_def)
  have start: "pool_start (NewPool [''http://a''] 3 10)" unfolding pool_start_def using eq by metis
  have len: "0 < length (objs (NewPool [''http://a''] 3 10))"
    by (simp add: NewPool_def setProxies_def)
  have len': "0 < length (objs (fst (ReportOutcome 5 0 Blocked 0 (NewPool [''http://a''] 3 10))))"
    using len by (simp add: ReportOutcome_upd)
  show ?thesis
    using pool_invariant [OF start r_into_rtranclp, OF pool_step.report [OF len]] len' by blast
qed

text \<open>
  C13. \<open>Next\<close> hands out only proxies that are not cooling, and reports \<open>ErrAllBanned\<close> only when
  every proxy is cooling, for all three strategies and although each proxy is tested at its own
  reading of a clock that moves meanwhile.
\<close>

theorem Next_sound:
  assumes "pool_wf pl" "mono clk"
  shows "case snd (Next clk r f pl) of
      Inr p \<Rightarrow> p \<in> set (proxies pl) \<and> \<not> isBanned (clk (length (proxies pl))) (obj pl p)
    | Inl e \<Rightarrow> \<forall>p\<in>set (proxies pl). isBanned (clk 0) (obj pl p)"
  using Next_post [OF assms(1), of clk r f]
  unfolding next_post_def
proof (elim disjE exE conjE)
  fix p i j t assume p: "p \<in> set (proxies pl)" "i < length (proxies pl)"
    "\<not> isBanned (clk i) (obj pl p)" "Next clk r f pl = (markUsed t p (pl\<lparr>idx := j\<rparr>), Inr p)"
  have "clk i \<le> clk (length (proxies pl))" using assms(2) p(2) by (simp add: monoD)
  with p show ?thesis by (simp add: isBanned_def)
next
  fix j assume "Next clk r f pl = (pl\<lparr>idx := j\<rparr>, Inl ErrAllBanned)"
    "\<forall>p\<in>set (proxies pl). \<exists>i. isBanned (clk i) (obj pl p)"
  then show ?thesis
    using monoD [OF assms(2), of 0] by (fastforce simp: isBanned_def intro: le_less_trans)
qed

definition two_proxies :: pool where
  "two_proxies = fst (ReportOutcome 5 0 Blocked 0 (NewPool [''http://a'', ''http://b''] 3 10))"

lemma two_proxies_wf: "pool_wf two_proxies"
proof -
  have "pool_wf (NewPool [''http://a'', ''http://b''] 3 10)"
    using NewPool_wf [where urls = "[''http://a'', ''http://b'']" and thr = 3 and cd = 10
        and st = RoundRobin and mx = 0]
    by (simp add: NewPool_def setProxies_def)
  then show ?thesis unfolding two_proxies_def
    by (rule ReportOutcome_wf) (simp add: NewPool_def setProxies_def)
qed

theorem Next_sound_witness:
  "case snd (Next (\<lambda>_. 6) 0 0 two_proxies) of
     Inr p \<Rightarrow> p \<in> set (proxies two_proxies) \<and> \<not> isBanned 6 (obj two_proxies p)
   | Inl e \<Rightarrow> \<forall>p\<in>set (proxies two_proxies). isBanned 6 (obj two_proxies p)"
  using Next_sound [OF two_proxies_wf, of "\<lambda>_. 6" 0 0] by (simp add: mono_def)

fun next_run :: "(nat \<Rightarrow> nat \<Rightarrow> instant) \<Rightarrow> nat \<Rightarrow> nat \<Rightarrow> pool \<Rightarrow> (proxy_error + nat) list" where
  "next_run clks 0 c pl = []"
| "next_run clks (Suc k) c pl =
     (let (pl', res) = Next (clks c) 0 0 pl in res # next_run clks k (Suc c) pl')"

lemma next_run_available:
  assumes "pool_wf pl" "Strategy pl = RoundRobin"
    and "\<And>p c i. p \<in> set (proxies pl) \<Longrightarrow> \<not> isBanned (clks c i) (obj pl p)"
  shows "next_run clks k c pl = map (\<lambda>j. Inr (rr_at pl j)) [0..<k]"
  using assms
proof (induction k arbitrary: c pl)
  case (Suc k)
  have n: "idx pl < length (proxies pl)" using Suc.prems(1) by (simp add: pool_wf_def)
  then have ne: "proxies pl \<noteq> []" by auto
  define pl' where "pl' = markUsed (clks c (Suc 0)) (rr_at pl 0)
    (pl\<lparr>idx := (idx pl + Suc 0) mod length (proxies pl)\<rparr>)"
  have "rr_find (clks c) (length (proxies pl)) 0 pl = Some 0"
    using n ne Suc.prems(3) rr_at_mem [OF ne] unfolding rr_find_def find_upt_Some by simp
  then have N: "Next (clks c) 0 0 pl = (pl', Inr (rr_at pl 0))"
    using n Suc.prems(2) by (simp add: Next_def nextRoundRobinLocked_def rr_loop_find pl'_def)
  have lt: "rr_at pl 0 < length (objs pl)" by (rule pool_wf_mem [OF Suc.prems(1) rr_at_mem [OF ne]])
  have sel: "proxies pl' = proxies pl" "Strategy pl' = Strategy pl"
    "idx pl' = (idx pl + Suc 0) mod length (proxies pl)"
    by (simp_all add: pl'_def markUsed_upd)
  have wf: "pool_wf pl'" using Next_wf [OF Suc.prems(1), of "clks c" 0 0] by (simp add: N)
  have av: "\<not> isBanned (clks d i) (obj pl' p)" if "p \<in> set (proxies pl')" for p d i
    using Suc.prems(3) [of p d i] that lt
    by (simp add: isBanned_def sel(1)) (simp add: pl'_def obj_def markUsed_def nth_list_update)
  have "next_run clks k (Suc c) pl' = map (\<lambda>j. Inr (rr_at pl' j)) [0..<k]"
    by (rule Suc.IH [OF wf _ av]) (simp_all add: sel Suc.prems(2))
  moreover have "rr_at pl' j = rr_at pl (Suc j)" for j by (simp add: rr_at_def sel mod_simps)
  moreover have "[0..<Suc k] = 0 # map Suc [0..<k]"
    by (simp add: upt_conv_Cons map_Suc_upt del: upt_Suc)
  ultimately show ?case by (simp add: N del: upt_Suc)
qed simp



text \<open>
  C22. Escalation: the \<open>k\<close>-th cooldown since the last success lasts \<open>2 ^ k\<close> times the base
  cooldown, up to the configured maximum (16 times the base when none is set), and the doubling
  loop never overflows for configurations that leave one bit of head room.
\<close>

theorem escalation_closed_form:
  assumes "cooldown_config pl"
  shows "escalatedCooldownLocked pl p =
    (min (if MaxCooldown pl \<le> 0 then 16 * banCooldown pl else MaxCooldown pl)
       (banCooldown pl * 2 ^ nat (banStreak p)),
     p\<lparr>banStreak := banStreak p + 1\<rparr>)"
  using escalated_value [OF assms, of p] escalated_simps [of pl p] cooldown_cap_pos(3) [OF assms]
  by (simp add: prod_eq_iff)

theorem escalation_closed_form_witness:
  "escalatedCooldownLocked (NewPool [] 3 30) ((new_proxy [])\<lparr>banStreak := 7\<rparr>) =
     (480, (new_proxy [])\<lparr>banStreak := 8\<rparr>)"
proof -
  have c: "cooldown_config (NewPool [] 3 30)" "MaxCooldown (NewPool [] 3 30) = 0"
    "banCooldown (NewPool [] 3 30) = 30"
    by (simp_all add: cooldown_config_def NewPool_def setProxies_def)
  show ?thesis
    using escalation_closed_form [OF c(1), of "(new_proxy [])\<lparr>banStreak := 7\<rparr>"] by (simp add: c)
qed

text \<open>
  \<open>ReportOutcome\<close> returns true exactly when the call moved the proxy from not cooling to
  cooling; a cooldown in force is never shortened; and no other proxy changes.
\<close>

theorem ReportOutcome_new_cooldown:
  assumes "cooldown_config pl" "p < length (objs pl)" "ReportOutcome now p out ra pl = (pl', b)"
  shows "(b \<longleftrightarrow> \<not> isBanned now (obj pl p) \<and> isBanned now (obj pl' p)) \<and>
    bannedUntil (obj pl p) \<le> bannedUntil (obj pl' p) \<and> (\<forall>q. q \<noteq> p \<longrightarrow> obj pl' q = obj pl q)"
proof -
  have pl': "pl' = pool_upd pl (idx pl) p (fst (report_proxy pl now out ra (obj pl p)))"
    and b: "b = snd (report_proxy pl now out ra (obj pl p))"
    using assms(3) by (simp_all add: ReportOutcome_upd)
  have obj': "obj pl' p = fst (report_proxy pl now out ra (obj pl p))"
    "\<forall>q. q \<noteq> p \<longrightarrow> obj pl' q = obj pl q"
    using assms(2) by (simp_all add: pl' obj_pool_upd)
  note pos = escalated_pos [OF assms(1), of "obj pl p"]
  have "b \<longleftrightarrow> \<not> isBanned now (obj pl p) \<and> isBanned now (obj pl' p)"
    unfolding b obj' report_returns isBanned_def report_bannedUntil
    using pos by (cases out) auto
  moreover have "bannedUntil (obj pl p) \<le> bannedUntil (obj pl' p)"
    unfolding obj' report_bannedUntil by (cases out) auto
  ultimately show ?thesis using obj'(2) by blast
qed

theorem ReportOutcome_new_cooldown_witness:
  "(snd (ReportOutcome 5 0 RateLimited 7 (NewPool [] 3 10)) \<longleftrightarrow>
      \<not> isBanned 5 (obj (NewPool [] 3 10) 0) \<and>
      isBanned 5 (obj (fst (ReportOutcome 5 0 RateLimited 7 (NewPool [] 3 10))) 0))"
proof -
  have c: "cooldown_config (NewPool [] 3 10)" "0 < length (objs (NewPool [] 3 10))"
    by (simp_all add: cooldown_config_def NewPool_def setProxies_def)
  show ?thesis
    using ReportOutcome_new_cooldown [OF c, of 5 RateLimited 7] by (metis prod.collapse)
qed

text \<open>
  The hypothesis on the base cooldown is needed: with \<open>proxy_ban_cooldown: 0\<close> a block is reported
  as a new cooldown although the proxy stays available.
\<close>

theorem report_true_without_cooldown:
  "snd (ReportOutcome 5 0 Blocked 0 (NewPool [] 3 0)) \<and>
   \<not> isBanned 5 (obj (fst (ReportOutcome 5 0 Blocked 0 (NewPool [] 3 0))) 0)"
  by code_simp

text \<open>
  How long each outcome cools a proxy that is available: a block, and a rate limit without
  \<open>Retry-After\<close>, for the escalated length, advancing the streak; a rate limit with
  \<open>Retry-After\<close> for exactly that long and without escalation; a success resets the streak;
  neutral outcomes change nothing.
\<close>

theorem ReportOutcome_by_outcome:
  assumes "p < length (objs pl)" "\<not> isBanned now (obj pl p)" "cooldown_config pl"
    and "0 \<le> banStreak (obj pl p)"
  defines "d \<equiv> min (cooldown_cap pl) (banCooldown pl * 2 ^ nat (banStreak (obj pl p)))"
    and "after out ra \<equiv> obj (fst (ReportOutcome now p out ra pl)) p"
  shows "bannedUntil (after Blocked ra) = now + d \<and>
      banStreak (after Blocked ra) = banStreak (obj pl p) + 1 \<and>
    (ra \<le> 0 \<longrightarrow> bannedUntil (after RateLimited ra) = now + d \<and>
      banStreak (after RateLimited ra) = banStreak (obj pl p) + 1) \<and>
    (0 < ra \<longrightarrow> bannedUntil (after RateLimited ra) = now + ra \<and>
      banStreak (after RateLimited ra) = banStreak (obj pl p)) \<and>
    banStreak (after Success ra) = 0 \<and> consecutiveFails (after Success ra) = 0 \<and>
    bannedUntil (after Success ra) = bannedUntil (obj pl p) \<and> after Neutral ra = obj pl p"
proof -
  have a: "after out ra = fst (report_proxy pl now out ra (obj pl p))" for out ra
    using assms(1) by (simp add: after_def ReportOutcome_upd obj_pool_upd)
  have d: "fst (escalatedCooldownLocked pl (obj pl p)) = d" "0 < d"
    using escalated_value [OF assms(3)] escalated_pos [OF assms(3), of "obj pl p"] by (simp_all add: d_def)
  have "bannedUntil (obj pl p) \<le> now" using assms(2) by (simp add: isBanned_def)
  with d show ?thesis unfolding a report_bannedUntil
    by (simp add: report_proxy_simps escalate_def)
qed

theorem ReportOutcome_by_outcome_witness:
  "bannedUntil (obj (fst (ReportOutcome 5 0 RateLimited 7 (NewPool [] 3 10))) 0) = 12"
proof -
  have c: "0 < length (objs (NewPool [] 3 10))" "\<not> isBanned 5 (obj (NewPool [] 3 10) 0)"
    "cooldown_config (NewPool [] 3 10)" "0 \<le> banStreak (obj (NewPool [] 3 10) 0)"
    by (simp_all add: cooldown_config_def NewPool_def setProxies_def isBanned_def obj_def new_proxy_def)
  show ?thesis using ReportOutcome_by_outcome [OF c, of 7] by simp
qed

text \<open>
  The abstract pool is a map from URL to history. \<open>Reload\<close> on the heap of shared objects
  implements the map operation ``keep the entries of the new list, add clean ones''.
\<close>

definition pool_view :: "pool \<Rightarrow> string \<rightharpoonup> proxy" where
  "pool_view pl u = map_option (obj pl) (byURL pl u)"

definition view_reload :: "string list \<Rightarrow> (string \<rightharpoonup> proxy) \<Rightarrow> (string \<rightharpoonup> proxy)" where
  "view_reload urls v u = (if u \<in> set urls
     then Some (case v u of Some x \<Rightarrow> x | None \<Rightarrow> new_proxy u) else None)"

lemma Reload_obj_old: "pool_wf pl \<Longrightarrow> p < length (objs pl) \<Longrightarrow> obj (Reload urls pl) p = obj pl p"
  by (simp add: Reload_post(2) obj_def nth_append)

lemma Reload_entry_obj:
  assumes "pool_wf pl" "entry_ok (byURL pl) (objs (Reload urls pl)) u p"
  shows "obj (Reload urls pl) p = (case pool_view pl u of Some x \<Rightarrow> x | None \<Rightarrow> new_proxy u)"
proof (cases "byURL pl u")
  case None
  with assms(2) show ?thesis by (simp add: entry_ok_def pool_view_def obj_def)
next
  case (Some e)
  with assms have "p = e" "e < length (objs pl)"
    by (auto simp: entry_ok_def pool_wf_def pool_links_def)
  with Some assms(1) show ?thesis by (simp add: pool_view_def Reload_obj_old)
qed

text \<open>
  C21. Refinement of \<open>Reload\<close>: the new list is the given one in its order (one direct identity for
  an empty list), a URL in both lists keeps its history, a new one starts clean, a dropped one
  is gone, the rotation restarts, and objects that workers still hold are unchanged.
\<close>

theorem Reload_refines:
  assumes "pool_wf pl"
  shows "pool_view (Reload urls pl) = view_reload (effective_urls urls) (pool_view pl) \<and>
    map (\<lambda>p. px_URL (obj (Reload urls pl) p)) (proxies (Reload urls pl)) = effective_urls urls \<and>
    idx (Reload urls pl) = 0 \<and>
    (\<forall>p<length (objs pl). obj (Reload urls pl) p = obj pl p)"
proof -
  let ?R = "Reload urls pl"
  have post: "reload_post (byURL pl) (effective_urls urls) (objs ?R) (proxies ?R) Map.empty (byURL ?R)"
    by (rule Reload_post(1) [OF assms])
  have "pool_view ?R u = view_reload (effective_urls urls) (pool_view pl) u" for u
  proof (cases "u \<in> set (effective_urls urls)")
    case True
    with post obtain p where p: "byURL ?R u = Some p" "entry_ok (byURL pl) (objs ?R) u p"
      by (auto simp: reload_post_def)
    with Reload_entry_obj [OF assms p(2)] True show ?thesis
      by (simp add: pool_view_def view_reload_def)
  next
    case False
    with post have "byURL ?R u = None" by (simp add: reload_post_def)
    with False show ?thesis by (simp add: pool_view_def view_reload_def)
  qed
  then show ?thesis
    using Reload_URLs [OF assms] Reload_post(3) [OF assms] Reload_obj_old [OF assms] by blast
qed

theorem Reload_refines_witness:
  "pool_view (Reload [''http://b'', ''http://c''] two_proxies) =
     view_reload [''http://b'', ''http://c''] (pool_view two_proxies)"
  using Reload_refines [OF two_proxies_wf, of "[''http://b'', ''http://c'']"]
  by (simp add: effective_urls_def)

definition report_failures :: "nat \<Rightarrow> instant list \<Rightarrow> pool \<Rightarrow> pool" where
  "report_failures p ts pl = foldl (\<lambda>pl t. fst (ReportOutcome t p Failure 0 pl)) pl ts"

lemma report_failures_frame:
  "length (objs (report_failures p ts pl)) = length (objs pl) \<and>
   banThreshold (report_failures p ts pl) = banThreshold pl \<and>
   banCooldown (report_failures p ts pl) = banCooldown pl \<and>
   MaxCooldown (report_failures p ts pl) = MaxCooldown pl"
  unfolding report_failures_def
  by (induction ts rule: rev_induct) (simp_all add: ReportOutcome_upd)

lemma report_failure_obj:
  assumes "p < length (objs pl)"
  shows "obj (fst (ReportOutcome t p Failure 0 pl)) p = fst (report_proxy pl t Failure 0 (obj pl p))"
  using assms by (simp add: ReportOutcome_upd obj_pool_upd)

lemma bannedUntil_mono_failures:
  assumes "p < length (objs pl)"
  shows "bannedUntil (obj pl p) \<le> bannedUntil (obj (report_failures p ts pl) p)"
  using assms
proof (induction ts rule: rev_induct)
  case (snoc t ts)
  let ?q = "report_failures p ts pl"
  have "p < length (objs ?q)" using snoc.prems by (simp add: report_failures_frame)
  then have "bannedUntil (obj ?q p) \<le> bannedUntil (obj (fst (ReportOutcome t p Failure 0 ?q)) p)"
    by (simp add: report_failure_obj report_bannedUntil)
  with snoc show ?case by (simp add: report_failures_def)
qed (simp add: report_failures_def)

lemma failures_accumulate:
  assumes "p < length (objs pl)" "0 < banThreshold pl" "0 < length ts"
    and "banThreshold pl \<le> consecutiveFails (obj pl p) + int (length ts)"
    and "cooldown_config pl" "0 \<le> banStreak (obj pl p)"
  shows "\<exists>t\<in>set ts. t < bannedUntil (obj (report_failures p ts pl) p)"
  using assms
proof (induction ts arbitrary: pl)
  case (Cons t ts)
  let ?pl = "fst (ReportOutcome t p Failure 0 pl)"
  have lt: "p < length (objs ?pl)" and cfg: "banThreshold ?pl = banThreshold pl"
      "cooldown_config ?pl"
    using Cons.prems by (simp_all add: ReportOutcome_upd cooldown_config_def)
  have run: "report_failures p (t # ts) pl = report_failures p ts ?pl"
    by (simp add: report_failures_def)
  show ?case
  proof (cases "banThreshold pl \<le> consecutiveFails (obj pl p) + 1")
    case True
    then have "t < bannedUntil (obj ?pl p)"
      using Cons.prems escalated_pos [of pl "obj pl p"]
      by (simp add: report_failure_obj report_bannedUntil)
    with bannedUntil_mono_failures [OF lt, of ts] show ?thesis by (auto simp: run)
  next
    case False
    then have o: "obj ?pl p = (failed (obj pl p))\<lparr>consecutiveFails := consecutiveFails (obj pl p) + 1\<rparr>"
      using Cons.prems by (simp add: report_failure_obj report_proxy_simps Let_def)
    have "\<exists>t\<in>set ts. t < bannedUntil (obj (report_failures p ts ?pl) p)"
      using False Cons.prems lt cfg by (intro Cons.IH) (auto simp: o)
    then show ?thesis by (auto simp: run)
  qed
qed simp

text \<open>
  C23. A proxy that keeps failing is always put in cooldown again: whatever its history, among any
  \<open>banThreshold\<close> consecutive failures reported through it one starts a cooldown from the time it
  is reported (the defect this guards against is a counter that passes the threshold once and
  never meets it again).
\<close>

theorem failures_always_cool:
  assumes "pool_wf pl" "cooldown_config pl" "p \<in> set (proxies pl)"
    and "0 < banThreshold pl" "int (length ts) = banThreshold pl"
  shows "\<exists>t\<in>set ts. t < bannedUntil (obj (report_failures p ts pl) p)"
proof -
  have "proxy_ok (obj pl p)" "p < length (objs pl)"
    using assms pool_wf_mem pool_wf_obj by blast+
  then show ?thesis using assms by (intro failures_accumulate) (auto simp: proxy_ok_def)
qed

theorem failures_always_cool_witness:
  "\<exists>t\<in>{1, 2, 3}. t < bannedUntil (obj (report_failures 0 [1, 2, 3] two_proxies) 0)"
proof -
  have c: "cooldown_config two_proxies" "0 \<in> set (proxies two_proxies)" "0 < banThreshold two_proxies"
    "int (length [1::instant, 2, 3]) = banThreshold two_proxies"
    by (simp_all add: two_proxies_def NewPool_def setProxies_def ReportOutcome_upd cooldown_config_def)
  show ?thesis using failures_always_cool [OF two_proxies_wf c] by simp
qed

lemma NextAvailableAt_loop_spec:
  assumes "0 < now" "e = 0 \<or> now < e"
  shows "NextAvailableAt_loop now ps e =
    (if \<exists>p\<in>set ps. \<not> isBanned now p then 0
     else if ps = [] then e
     else Min (bannedUntil ` set ps \<union> (if e = 0 then {} else {e})))"
  using assms
proof (induction ps arbitrary: e)
  case (Cons p ps)
  show ?case
  proof (cases "isBanned now p")
    case True
    let ?e = "if e = 0 \<or> bannedUntil p < e then bannedUntil p else e"
    have e: "?e = 0 \<or> now < ?e" "?e \<noteq> 0" using True Cons.prems by (auto simp: isBanned_def)
    have step: "NextAvailableAt_loop now (p # ps) e = NextAvailableAt_loop now ps ?e"
      using True by (simp add: isBanned_def IsZero_def Let_def)
    have "Min (bannedUntil ` set ps \<union> {?e}) =
        Min (bannedUntil ` set (p # ps) \<union> (if e = 0 then {} else {e}))"
      by (cases "ps = []") (auto simp: Min_insert2 min_def Min.union Min.insert_not_elem
          Min_insert insert_commute)
    then show ?thesis
      unfolding step Cons.IH [OF Cons.prems(1) e(1)] using True e(2) by (cases "ps = []") auto
  qed (simp add: isBanned_def)
qed simp

text \<open>
  \<open>NextAvailableAt\<close> is the zero time exactly when some proxy is available, and otherwise the
  earliest end of a cooldown: the shortest time a worker has to sleep.
\<close>

theorem NextAvailableAt_earliest:
  assumes "pool_wf pl" "0 < now"
  shows "NextAvailableAt now pl =
    (if \<exists>p\<in>set (proxies pl). \<not> isBanned now (obj pl p) then 0
     else Min ((\<lambda>p. bannedUntil (obj pl p)) ` set (proxies pl)))"
proof -
  have "proxies pl \<noteq> []" using pool_wf_size [OF assms(1)] by simp
  then show ?thesis
    using assms(2) by (simp add: NextAvailableAt_def NextAvailableAt_loop_spec image_image)
qed

theorem NextAvailableAt_earliest_witness:
  "NextAvailableAt 6 two_proxies =
     (if \<exists>p\<in>set (proxies two_proxies). \<not> isBanned 6 (obj two_proxies p) then 0
      else Min ((\<lambda>p. bannedUntil (obj two_proxies p)) ` set (proxies two_proxies)))"
  using NextAvailableAt_earliest [OF two_proxies_wf, of 6] by simp

lemma Counts_loop_sum:
  "fst (Counts_loop clk i ps ac) + snd (Counts_loop clk i ps ac) = fst ac + snd ac + length ps"
  by (induction clk i ps ac rule: Counts_loop.induct) auto

lemma Counts_sum: "fst (Counts clk pl) + snd (Counts clk pl) = Size pl"
  by (simp add: Counts_def Counts_loop_sum Size_def)

lemma AllStats_order: "map st_URL (AllStats clk pl) = map (\<lambda>p. px_URL (obj pl p)) (proxies pl)"
  by (auto simp: AllStats_def proxy_Stats_def intro!: nth_equalityI)


subsection \<open>What a worker relies on\<close>

text \<open>
  The contract between the pool and a worker that waits for it: drawing keeps the pool well
  formed and every cooldown as it is, it succeeds when some proxy has been available since
  before the first reading of the clock, and the wake-up time is one at which some proxy is
  available.
\<close>

locale egress_pool =
  fixes wf :: "'p \<Rightarrow> bool" and avail :: "'p \<Rightarrow> instant \<Rightarrow> bool"
    and draw :: "(nat \<Rightarrow> instant) \<Rightarrow> nat \<Rightarrow> rat \<Rightarrow> 'p \<Rightarrow> 'p \<times> ('e + nat)"
    and wake :: "instant \<Rightarrow> 'p \<Rightarrow> instant"
  assumes draw_wf: "wf pl \<Longrightarrow> wf (fst (draw clk r f pl))"
    and draw_avail: "wf pl \<Longrightarrow> avail (fst (draw clk r f pl)) t = avail pl t"
    and draw_ok: "wf pl \<Longrightarrow> avail pl t \<Longrightarrow> (\<And>i. t \<le> clk i) \<Longrightarrow> \<not> isl (snd (draw clk r f pl))"
    and wake_zero: "wf pl \<Longrightarrow> 0 < now \<Longrightarrow> wake now pl = 0 \<Longrightarrow> avail pl now"
    and wake_later: "wf pl \<Longrightarrow> 0 < now \<Longrightarrow> wake now pl \<noteq> 0 \<Longrightarrow> avail pl (wake now pl)"
begin

text \<open>Whoever draws again after the wake-up time, or at once when it is zero, gets a proxy.\<close>

lemma draw_after_wake:
  assumes "wf pl" "0 < now" "\<And>i. now \<le> clk i" "\<And>i. wake now pl \<le> clk i"
  shows "\<not> isl (snd (draw clk r f pl))"
proof (cases "wake now pl = 0")
  case True
  show ?thesis by (rule draw_ok [OF assms(1) wake_zero [OF assms(1,2) True] assms(3)])
next
  case False
  show ?thesis by (rule draw_ok [OF assms(1) wake_later [OF assms(1,2) False] assms(4)])
qed

end

definition pool_avail :: "pool \<Rightarrow> instant \<Rightarrow> bool" where
  "pool_avail pl t \<longleftrightarrow> (\<exists>p\<in>set (proxies pl). \<not> isBanned t (obj pl p))"

lemma NextAvailableAt_spec:
  assumes "pool_wf pl" "0 < now"
  shows "NextAvailableAt now pl = (if pool_avail pl now then 0
     else Min ((\<lambda>p. bannedUntil (obj pl p)) ` set (proxies pl)))"
proof -
  have "proxies pl \<noteq> []" using pool_wf_size [OF assms(1)] by simp
  then show ?thesis
    using assms(2) by (simp add: NextAvailableAt_def NextAvailableAt_loop_spec image_image pool_avail_def)
qed

lemma markUsed_avail [simp]: "pool_avail (markUsed t p pl) = pool_avail pl"
  by (auto simp: fun_eq_iff pool_avail_def markUsed_def obj_def isBanned_def nth_list_update)
     (metis (no_types, lifting) list_update_beyond linorder_not_le nth_list_update_eq nth_list_update_neq
       proxy.select_convs(3) proxy.surjective proxy.update_convs(6))+

lemma idx_avail [simp]: "pool_avail (pl\<lparr>idx := j\<rparr>) = pool_avail pl"
  by (simp add: fun_eq_iff pool_avail_def obj_def)

interpretation pool_egress: egress_pool pool_wf pool_avail Next NextAvailableAt
proof
  fix pl clk r f t and now :: instant
  assume wf: "pool_wf pl"
  show "pool_wf (fst (Next clk r f pl))" using wf by (rule Next_wf)
  show "pool_avail (fst (Next clk r f pl)) t = pool_avail pl t"
    using Next_post [OF wf, of clk r f] by (auto simp: next_post_def)
  show "\<not> isl (snd (Next clk r f pl))" if av: "pool_avail pl t" and clk: "\<And>i. t \<le> clk i"
  proof -
    obtain p where p: "p \<in> set (proxies pl)" "\<not> isBanned t (obj pl p)" using av by (auto simp: pool_avail_def)
    then have "\<not> isBanned (clk i) (obj pl p)" for i using clk [of i] by (simp add: isBanned_def)
    with p(1) Next_post [OF wf, of clk r f] show ?thesis by (auto simp: next_post_def)
  qed
  show "pool_avail pl now" if "0 < now" "NextAvailableAt now pl = 0"
  proof (rule ccontr)
    assume na: "\<not> pool_avail pl now"
    let ?u = "(\<lambda>p. bannedUntil (obj pl p)) ` set (proxies pl)"
    have "?u \<noteq> {}" using pool_wf_size [OF wf] by auto
    then have "Min ?u \<in> ?u" by (intro Min_in) simp_all
    moreover have "\<forall>x\<in>?u. now < x" using na by (auto simp: pool_avail_def isBanned_def)
    ultimately show False using NextAvailableAt_spec [OF wf that(1)] na that by auto
  qed
  show "pool_avail pl (NextAvailableAt now pl)" if "0 < now" "NextAvailableAt now pl \<noteq> 0"
  proof -
    let ?u = "(\<lambda>p. bannedUntil (obj pl p)) ` set (proxies pl)"
    have "NextAvailableAt now pl = Min ?u" using NextAvailableAt_spec [OF wf that(1)] that(2) by (auto split: if_splits)
    moreover have "Min ?u \<in> ?u" using pool_wf_size [OF wf] by (intro Min_in) auto
    ultimately show ?thesis by (auto simp: pool_avail_def isBanned_def)
  qed
qed

end
