(* ===== verification/Rate_Limiter.thy ===== *)
theory Rate_Limiter
  imports Go_Float "HOL-Library.AList"
begin

text \<open>
  The per-key limiter of \<open>internal/ratelimit/limiter.go\<close>. The token bucket itself is
  \<open>golang.org/x/time/rate\<close>, whose source is not part of the repository: it is the parameter
  \<open>api\<close> of the definitions, a record of the operations the limiter calls, and what the limiter
  relies on is the predicate \<open>bucket_laws\<close>. A Go map is an association list with distinct keys;
  the bucket a pointer refers to is the entry of its key, since entries are never removed or
  replaced.
\<close>

subsection \<open>The token bucket the limiter calls\<close>

record ('b, 'c, 'e) bucket_api =
  api_NewLimiter :: "rat \<Rightarrow> int \<Rightarrow> 'b"
  api_Limit :: "'b \<Rightarrow> rat"
  api_SetLimit :: "rat \<Rightarrow> instant \<Rightarrow> 'b \<Rightarrow> 'b"
  api_Wait :: "'c \<Rightarrow> 'b \<Rightarrow> 'e option \<times> 'b"

definition bucket_laws :: "('b, 'c, 'e) bucket_api \<Rightarrow> bool" where
  "bucket_laws api \<longleftrightarrow>
     (\<forall>r n. api_Limit api (api_NewLimiter api r n) = r) \<and>
     (\<forall>r t b. api_Limit api (api_SetLimit api r t b) = r) \<and>
     (\<forall>c b. api_Limit api (snd (api_Wait api c b)) = api_Limit api b)"

subsection \<open>The limiter\<close>

record 'b limiter =
  buckets :: "(string \<times> 'b) list"
  rps :: rat
  burst :: int
  adaptive :: bool
  minRPS :: rat
  step :: rat

definition New :: "rat \<Rightarrow> int \<Rightarrow> 'b limiter" where
  "New r n = \<lparr>buckets = [], rps = r, burst = n, adaptive = False, minRPS = 0, step = 0\<rparr>"

definition NewAdaptive :: "rat \<Rightarrow> int \<Rightarrow> rat \<Rightarrow> 'b limiter" where
  "NewAdaptive r n mn =
     (let l = New r n;
          mn = (if mn \<le> 0 \<or> r < mn then fl (r / 10) else mn)
      in l\<lparr>adaptive := True, minRPS := mn, step := fl (r * fl (1 / 20))\<rparr>)"

definition bucketFor :: "('b, 'c, 'e) bucket_api \<Rightarrow> string \<Rightarrow> 'b limiter \<Rightarrow> 'b \<times> 'b limiter" where
  "bucketFor api key l = (case map_of (buckets l) key of
       Some b \<Rightarrow> (b, l)
     | None \<Rightarrow> (let b = api_NewLimiter api (rps l) (burst l)
               in (b, l\<lparr>buckets := AList.update key b (buckets l)\<rparr>)))"

text \<open>Writing through the pointer \<open>bucketFor\<close> returned.\<close>

definition putBucket :: "string \<Rightarrow> 'b \<Rightarrow> 'b limiter \<Rightarrow> 'b limiter" where
  "putBucket key b l = l\<lparr>buckets := AList.update key b (buckets l)\<rparr>"

definition Wait :: "('b, 'c, 'e) bucket_api \<Rightarrow> 'c \<Rightarrow> string \<Rightarrow> 'b limiter \<Rightarrow>
    'e option \<times> 'b limiter" where
  "Wait api ctx key l =
     (let (b, l) = bucketFor api key l; (err, b) = api_Wait api ctx b
      in (err, putBucket key b l))"

definition Penalize :: "('b, 'c, 'e) bucket_api \<Rightarrow> instant \<Rightarrow> string \<Rightarrow> 'b limiter \<Rightarrow>
    bool \<times> 'b limiter" where
  "Penalize api now key l =
     (if \<not> adaptive l then (False, l)
      else let (b, l) = bucketFor api key l;
               cur = api_Limit api b;
               nxt = fl (cur / 2);
               nxt = (if nxt < minRPS l then minRPS l else nxt)
           in if cur \<le> nxt then (False, l)
              else (True, putBucket key (api_SetLimit api nxt now b) l))"

definition Reward :: "('b, 'c, 'e) bucket_api \<Rightarrow> instant \<Rightarrow> string \<Rightarrow> 'b limiter \<Rightarrow> 'b limiter" where
  "Reward api now key l =
     (if \<not> adaptive l then l
      else let (b, l) = bucketFor api key l;
               cur = api_Limit api b
           in if rps l \<le> cur then l
              else let nxt = fl (cur + step l);
                       nxt = (if rps l < nxt then rps l else nxt)
                   in putBucket key (api_SetLimit api nxt now b) l)"

definition Rate :: "('b, 'c, 'e) bucket_api \<Rightarrow> string \<Rightarrow> 'b limiter \<Rightarrow> rat \<times> 'b limiter" where
  "Rate api key l = (let (b, l) = bucketFor api key l in (api_Limit api b, l))"

fun Throttled_loop :: "('b, 'c, 'e) bucket_api \<Rightarrow> rat \<Rightarrow> (string \<times> 'b) list \<Rightarrow> nat \<Rightarrow> nat" where
  "Throttled_loop api r [] n = n"
| "Throttled_loop api r ((k, b) # bs) n =
     Throttled_loop api r bs (if api_Limit api b < r then n + 1 else n)"

definition Throttled :: "('b, 'c, 'e) bucket_api \<Rightarrow> 'b limiter \<Rightarrow> nat" where
  "Throttled api l = Throttled_loop api (rps l) (buckets l) 0"

subsection \<open>The buckets are a keyed store\<close>

definition find_bucket :: "'b limiter \<Rightarrow> string \<Rightarrow> 'b option" where
  "find_bucket l = map_of (buckets l)"

interpretation store: keyed_store find_bucket "bucketFor api"
    "\<lambda>k l. api_NewLimiter api (rps l) (burst l)" for api :: "('b, 'c, 'e) bucket_api"
  by unfold_locales (auto simp: find_bucket_def bucketFor_def Let_def update_conv split: option.splits)

text \<open>The rate a key runs at: the configured one until its bucket exists.\<close>

definition rate_of :: "('b, 'c, 'e) bucket_api \<Rightarrow> 'b limiter \<Rightarrow> string \<Rightarrow> rat" where
  "rate_of api l k = (case map_of (buckets l) k of Some b \<Rightarrow> api_Limit api b | None \<Rightarrow> rps l)"

lemma bucketFor_snd:
  "snd (bucketFor api key l) = l \<or>
   snd (bucketFor api key l) =
     l\<lparr>buckets := AList.update key (api_NewLimiter api (rps l) (burst l)) (buckets l)\<rparr>"
  by (auto simp: bucketFor_def Let_def split: option.splits)

lemma bucketFor_config [simp]:
  "rps (snd (bucketFor api key l)) = rps l" "burst (snd (bucketFor api key l)) = burst l"
  "adaptive (snd (bucketFor api key l)) = adaptive l" "minRPS (snd (bucketFor api key l)) = minRPS l"
  "step (snd (bucketFor api key l)) = step l"
  by (simp_all add: bucketFor_def Let_def split: option.splits)

lemma putBucket_config [simp]:
  "rps (putBucket key b l) = rps l" "burst (putBucket key b l) = burst l"
  "adaptive (putBucket key b l) = adaptive l" "minRPS (putBucket key b l) = minRPS l"
  "step (putBucket key b l) = step l"
  by (simp_all add: putBucket_def)

lemma bucketFor_limit:
  assumes "bucket_laws api"
  shows "api_Limit api (fst (bucketFor api key l)) = rate_of api l key"
  using assms by (simp add: bucketFor_def rate_of_def bucket_laws_def Let_def split: option.splits)

lemma bucketFor_rate [simp]:
  assumes "bucket_laws api"
  shows "rate_of api (snd (bucketFor api key l)) = rate_of api l"
  using assms
  by (auto simp: bucketFor_def rate_of_def bucket_laws_def update_conv Let_def fun_eq_iff
      split: option.split)

lemma putBucket_rate [simp]:
  "rate_of api (putBucket key b l) = (rate_of api l)(key := api_Limit api b)"
  by (auto simp: putBucket_def rate_of_def update_conv fun_eq_iff split: option.split)


subsection \<open>What each operation does to the rates\<close>

text \<open>
  Seen from outside, the limiter is a rate for every key. The multiplicative decrease and the
  additive increase on one rate:
\<close>

definition halved :: "'b limiter \<Rightarrow> rat \<Rightarrow> rat" where
  "halved l r = min r (max (minRPS l) (fl (r / 2)))"

definition raised :: "'b limiter \<Rightarrow> rat \<Rightarrow> rat" where
  "raised l r = (if rps l \<le> r then r else min (rps l) (fl (r + step l)))"

lemma Wait_rate:
  assumes "bucket_laws api"
  shows "rate_of api (snd (Wait api c key l)) = rate_of api l"
proof -
  have "api_Limit api (snd (api_Wait api c (fst (bucketFor api key l)))) = rate_of api l key"
    using assms bucketFor_limit [OF assms, of key l] by (simp add: bucket_laws_def)
  then show ?thesis using assms by (simp add: Wait_def case_prod_unfold Let_def)
qed

lemma Rate_rate:
  assumes "bucket_laws api"
  shows "fst (Rate api key l) = rate_of api l key" "rate_of api (snd (Rate api key l)) = rate_of api l"
  using assms by (simp_all add: Rate_def case_prod_unfold Let_def bucketFor_limit)

lemma Penalize_rate:
  assumes "bucket_laws api" "adaptive l"
  shows "rate_of api (snd (Penalize api now key l)) =
      (rate_of api l)(key := halved l (rate_of api l key))"
    and "fst (Penalize api now key l) \<longleftrightarrow> halved l (rate_of api l key) < rate_of api l key"
  using assms bucketFor_limit [OF assms(1), of key l]
  by (auto simp: Penalize_def case_prod_unfold Let_def halved_def bucket_laws_def fun_eq_iff)

lemma Reward_rate:
  assumes "bucket_laws api" "adaptive l"
  shows "rate_of api (Reward api now key l) = (rate_of api l)(key := raised l (rate_of api l key))"
  using assms bucketFor_limit [OF assms(1), of key l]
  by (auto simp: Reward_def case_prod_unfold Let_def raised_def bucket_laws_def fun_eq_iff)

lemma Wait_config [simp]:
  "rps (snd (Wait api c key l)) = rps l" "minRPS (snd (Wait api c key l)) = minRPS l"
  "step (snd (Wait api c key l)) = step l" "adaptive (snd (Wait api c key l)) = adaptive l"
  by (simp_all add: Wait_def case_prod_unfold Let_def)

lemma Penalize_config [simp]:
  "rps (snd (Penalize api now key l)) = rps l" "minRPS (snd (Penalize api now key l)) = minRPS l"
  "step (snd (Penalize api now key l)) = step l"
  "adaptive (snd (Penalize api now key l)) = adaptive l"
  by (simp_all add: Penalize_def case_prod_unfold Let_def)

lemma Reward_config [simp]:
  "rps (Reward api now key l) = rps l" "minRPS (Reward api now key l) = minRPS l"
  "step (Reward api now key l) = step l" "adaptive (Reward api now key l) = adaptive l"
  by (simp_all add: Reward_def case_prod_unfold Let_def)

lemma Rate_config [simp]:
  "rps (snd (Rate api key l)) = rps l" "minRPS (snd (Rate api key l)) = minRPS l"
  "step (snd (Rate api key l)) = step l" "adaptive (snd (Rate api key l)) = adaptive l"
  by (simp_all add: Rate_def case_prod_unfold Let_def)

lemma NewAdaptive_fields [simp]:
  "rps (NewAdaptive r n mn) = r" "adaptive (NewAdaptive r n mn)" "buckets (NewAdaptive r n mn) = []"
  "minRPS (NewAdaptive r n mn) = (if mn \<le> 0 \<or> r < mn then fl (r / 10) else mn)"
  "step (NewAdaptive r n mn) = fl (r * fl (1 / 20))"
  by (simp_all add: NewAdaptive_def New_def Let_def)

lemma NewAdaptive_rate [simp]: "rate_of api (NewAdaptive r n mn) k = r"
  by (simp add: rate_of_def)

subsection \<open>Rates stay between the floor and the configured rate\<close>

definition rates_wf :: "('b, 'c, 'e) bucket_api \<Rightarrow> 'b limiter \<Rightarrow> bool" where
  "rates_wf api l \<longleftrightarrow> adaptive l \<and> 0 < minRPS l \<and> minRPS l \<le> rps l \<and> 0 \<le> step l \<and>
     fl (rps l) = rps l \<and> fl (minRPS l) = minRPS l \<and>
     (\<forall>k. minRPS l \<le> rate_of api l k \<and> rate_of api l k \<le> rps l \<and>
          fl (rate_of api l k) = rate_of api l k)"

datatype 'c lim_op = OpWait 'c string | OpPenalize instant string | OpReward instant string
  | OpRate string

fun lim_run :: "('b, 'c, 'e) bucket_api \<Rightarrow> 'c lim_op list \<Rightarrow> 'b limiter \<Rightarrow> 'b limiter" where
  "lim_run api [] l = l"
| "lim_run api (OpWait c k # os) l = lim_run api os (snd (Wait api c k l))"
| "lim_run api (OpPenalize t k # os) l = lim_run api os (snd (Penalize api t k l))"
| "lim_run api (OpReward t k # os) l = lim_run api os (Reward api t k l)"
| "lim_run api (OpRate k # os) l = lim_run api os (snd (Rate api k l))"

lemma halved_bounds:
  assumes "minRPS l \<le> r" "r \<le> rps l" "fl r = r" "fl (minRPS l) = minRPS l"
  shows "minRPS l \<le> halved l r \<and> halved l r \<le> rps l \<and> fl (halved l r) = halved l r"
  using assms by (auto simp: halved_def min_def max_def)

lemma raised_bounds:
  assumes "minRPS l \<le> r" "r \<le> rps l" "fl r = r" "fl (rps l) = rps l" "0 \<le> step l"
  shows "minRPS l \<le> raised l r \<and> raised l r \<le> rps l \<and> fl (raised l r) = raised l r"
proof -
  have "r \<le> fl (r + step l)" using assms by (intro f64.increase_ge)
  with assms show ?thesis by (auto simp: raised_def min_def)
qed

lemma rates_wf_new:
  assumes "0 < r" "fl r = r" "fl mn = mn"
  shows "rates_wf api (NewAdaptive r n mn)"
proof -
  have "fl (r / 10) \<le> r" using assms by (intro f64.rnd_le) simp_all
  moreover have "0 < fl (r / 10)" "0 \<le> fl (r * fl (1 / 20))"
    using assms by (simp_all add: fl_pos fl_nonneg)
  ultimately show ?thesis using assms by (auto simp: rates_wf_def)
qed

lemma rates_wf_ops:
  assumes "bucket_laws api" "rates_wf api l"
  shows "rates_wf api (snd (Wait api c k l))" "rates_wf api (snd (Penalize api t k l))"
    "rates_wf api (Reward api t k l)" "rates_wf api (snd (Rate api k l))"
  using assms halved_bounds [of l "rate_of api l k"] raised_bounds [of l "rate_of api l k"]
  by (simp_all add: rates_wf_def Wait_rate Penalize_rate Reward_rate Rate_rate)

lemma rates_wf_run: "bucket_laws api \<Longrightarrow> rates_wf api l \<Longrightarrow> rates_wf api (lim_run api os l)"
  by (induction api os l rule: lim_run.induct) (simp_all add: rates_wf_ops)

lemma lim_run_config [simp]:
  "rps (lim_run api os l) = rps l" "minRPS (lim_run api os l) = minRPS l"
  "step (lim_run api os l) = step l" "adaptive (lim_run api os l) = adaptive l"
  by (induction api os l rule: lim_run.induct) simp_all

text \<open>A concrete bucket for the witnesses: the current rate and the tokens left.\<close>

definition plain_api :: "(rat \<times> int, unit, string) bucket_api" where
  "plain_api = \<lparr>api_NewLimiter = (\<lambda>r n. (r, n)), api_Limit = fst,
     api_SetLimit = (\<lambda>r t b. (r, snd b)),
     api_Wait = (\<lambda>c b. if 0 < snd b then (None, (fst b, snd b - 1)) else (Some ''rate: Wait'', b))\<rparr>"

lemma plain_api_laws: "bucket_laws plain_api"
  by (simp add: bucket_laws_def plain_api_def)

text \<open>
  C29. From \<open>NewAdaptive\<close> on, after any sequence of calls with any keys, every key's rate is
  positive, at least the floor and at most the configured rate: adaptation can neither stop a
  key nor push it above the configured rate, whatever rounding does.
\<close>

theorem rates_bounded:
  assumes "bucket_laws api" "0 < r" "fl r = r" "fl mn = mn"
    and "l = lim_run api os (NewAdaptive r n mn)"
  shows "0 < minRPS l \<and> minRPS l \<le> rate_of api l k \<and> rate_of api l k \<le> r"
proof -
  have "rates_wf api l" unfolding assms(5)
    by (rule rates_wf_run [OF assms(1) rates_wf_new [OF assms(2-4)]])
  moreover have "rps l = r" by (simp add: assms(5))
  ultimately show ?thesis by (auto simp: rates_wf_def)
qed

theorem rates_bounded_witness:
  "let l = lim_run plain_api [OpWait () ''a'', OpPenalize 1 ''a'', OpPenalize 2 ''a'', OpReward 3 ''a'']
             (NewAdaptive 8 1 1)
   in 0 < minRPS l \<and> minRPS l \<le> rate_of plain_api l ''a'' \<and> rate_of plain_api l ''a'' \<le> 8"
  unfolding Let_def
  by (rule rates_bounded [where os = "[OpWait () ''a'', OpPenalize 1 ''a'', OpPenalize 2 ''a'', OpReward 3 ''a'']" and mn = 1 and n = 1])
     (simp_all add: plain_api_laws f64.rnd_one fl_of_int [of 8, simplified])

text \<open>
  C28. Seen through the rates, each operation is the AIMD rule on the one key it names:
  \<open>Penalize\<close> halves, not below the floor, and reports exactly whether the rate went down;
  \<open>Reward\<close> adds the step, not above the configured rate; \<open>Wait\<close> and \<open>Rate\<close> change nothing.
\<close>

theorem limiter_refines_rates:
  assumes "bucket_laws api" "adaptive l"
  shows "rate_of api (snd (Penalize api t k l)) = (rate_of api l)(k := halved l (rate_of api l k)) \<and>
    (fst (Penalize api t k l) \<longleftrightarrow> halved l (rate_of api l k) < rate_of api l k) \<and>
    rate_of api (Reward api t k l) = (rate_of api l)(k := raised l (rate_of api l k)) \<and>
    rate_of api (snd (Wait api c k l)) = rate_of api l \<and>
    fst (Rate api k l) = rate_of api l k \<and> rate_of api (snd (Rate api k l)) = rate_of api l"
  using assms by (simp add: Penalize_rate Reward_rate Wait_rate Rate_rate)

theorem limiter_refines_rates_witness:
  "fst (Penalize plain_api 5 ''p'' (NewAdaptive 8 1 1)) \<and>
   rate_of plain_api (snd (Penalize plain_api 5 ''p'' (NewAdaptive 8 1 1))) ''p'' = 4 \<and>
   rate_of plain_api (snd (Penalize plain_api 5 ''p'' (NewAdaptive 8 1 1))) ''q'' = 8"
proof -
  have "halved (NewAdaptive 8 1 1 :: (rat \<times> int) limiter) 8 = 4"
    using fl_half [of 8] fl_of_int [of 8] by (simp add: halved_def)
  then show ?thesis
    using limiter_refines_rates [OF plain_api_laws, of "NewAdaptive 8 1 1" 5 "''p''"] by simp
qed


subsection \<open>Backing off and recovering\<close>

definition penalties :: "('b, 'c, 'e) bucket_api \<Rightarrow> (nat \<Rightarrow> instant) \<Rightarrow> string \<Rightarrow> nat \<Rightarrow> 'b limiter \<Rightarrow> 'b limiter" where
  "penalties api clk key k l = fold (\<lambda>i. snd \<circ> Penalize api (clk i) key) [0..<k] l"

definition rewards :: "('b, 'c, 'e) bucket_api \<Rightarrow> (nat \<Rightarrow> instant) \<Rightarrow> string \<Rightarrow> nat \<Rightarrow> 'b limiter \<Rightarrow> 'b limiter" where
  "rewards api clk key k l = fold (\<lambda>i. Reward api (clk i) key) [0..<k] l"

lemma penalties_Suc [simp]:
  "penalties api clk key (Suc k) l = snd (Penalize api (clk k) key (penalties api clk key k l))"
  "penalties api clk key 0 l = l"
  by (simp_all add: penalties_def)

lemma rewards_Suc [simp]:
  "rewards api clk key (Suc k) l = Reward api (clk k) key (rewards api clk key k l)"
  "rewards api clk key 0 l = l"
  by (simp_all add: rewards_def)

lemma penalties_config [simp]:
  "rps (penalties api clk key k l) = rps l" "minRPS (penalties api clk key k l) = minRPS l"
  "step (penalties api clk key k l) = step l" "adaptive (penalties api clk key k l) = adaptive l"
  by (induction k) simp_all

lemma rewards_config [simp]:
  "rps (rewards api clk key k l) = rps l" "minRPS (rewards api clk key k l) = minRPS l"
  "step (rewards api clk key k l) = step l" "adaptive (rewards api clk key k l) = adaptive l"
  by (induction k) simp_all

lemma halved_cong: "minRPS l = minRPS l' \<Longrightarrow> halved l = halved l'"
  by (simp add: halved_def fun_eq_iff)

lemma raised_cong: "rps l = rps l' \<Longrightarrow> step l = step l' \<Longrightarrow> raised l = raised l'"
  by (simp add: raised_def fun_eq_iff)

lemma fl_halvings: "fl r = r \<Longrightarrow> fl (r / 2 ^ k) = r / 2 ^ k"
proof (induction k)
  case (Suc k)
  have "r / 2 ^ Suc k = (r / 2 ^ k) / 2" by simp
  then show ?case using fl_half [OF Suc.IH [OF Suc.prems]] by metis
qed simp

text \<open>Halving is exact in binary floating point, so repeated halving has a closed form.\<close>

lemma halved_again:
  assumes "fl r = r" "0 < r" "0 < minRPS l"
  shows "halved l (max (minRPS l) (r / 2 ^ k)) = max (minRPS l) (r / 2 ^ Suc k)"
proof (cases "minRPS l \<le> r / 2 ^ k")
  case True
  have "fl ((r / 2 ^ k) / 2) = r / 2 ^ Suc k" using fl_halvings [OF assms(1), of "Suc k"] by (simp add: mult.commute)
  moreover have "r / 2 ^ Suc k \<le> r / 2 ^ k" using assms(2) by (simp add: field_simps)
  ultimately show ?thesis using True by (simp add: halved_def max_def min_def)
next
  case False
  have "fl (minRPS l / 2) \<le> fl (minRPS l)" using assms(3) by (intro fl_mono) simp
  moreover have "r / 2 ^ Suc k \<le> r / 2 ^ k" using assms(2) by (simp add: field_simps)
  ultimately show ?thesis using False by (simp add: halved_def max_def min_def)
qed

text \<open>
  \<open>k\<close> penalties in a row on a key at the configured rate \<open>r\<close> leave it at \<open>r / 2 ^ k\<close>, or
  at the floor once that is larger, and leave every other key alone.
\<close>

theorem penalties_closed_form:
  assumes "bucket_laws api" "rates_wf api l" "rate_of api l key = rps l"
  shows "rate_of api (penalties api clk key k l) =
    (rate_of api l)(key := max (minRPS l) (rps l / 2 ^ k))"
proof (induction k)
  case 0
  show ?case using assms by (auto simp: rates_wf_def fun_eq_iff)
next
  case (Suc k)
  have "halved (penalties api clk key k l) (max (minRPS l) (rps l / 2 ^ k)) =
      max (minRPS l) (rps l / 2 ^ Suc k)"
    using assms(2) halved_again [of "rps l" l k] halved_cong [of "penalties api clk key k l" l]
    by (auto simp: rates_wf_def)
  then show ?case using assms Suc by (simp add: Penalize_rate rates_wf_def fun_eq_iff)
qed

theorem penalties_closed_form_witness:
  "rate_of plain_api (penalties plain_api (\<lambda>i. 0) ''p'' 2 (NewAdaptive 8 1 1)) ''p'' = 2 \<and>
   rate_of plain_api (penalties plain_api (\<lambda>i. 0) ''p'' 9 (NewAdaptive 8 1 1)) ''p'' = 1"
proof -
  have wf: "rates_wf plain_api (NewAdaptive 8 1 1)"
    by (rule rates_wf_new) (simp_all add: f64.rnd_one fl_of_int [of 8, simplified])
  show ?thesis
    using penalties_closed_form [OF plain_api_laws wf, of "''p''" "\<lambda>i. 0" 2]
      penalties_closed_form [OF plain_api_laws wf, of "''p''" "\<lambda>i. 0" 9] by simp
qed

text \<open>
  One reward raises a rate by almost a twentieth of the configured rate: rounding costs less
  than a ten-thousandth of it.
\<close>

lemma step_lower:
  assumes "0 < r"
  shows "r * (49999 / 1000000) \<le> fl (r * fl (1 / 20))"
proof -
  have "(49999 / 1000000) / (1 - 1 / 2 ^ 52) \<le> fl (1 / 20)"
    by (rule order_trans [OF _ fl_lower]) simp_all
  then have "r * ((49999 / 1000000) / (1 - 1 / 2 ^ 52)) \<le> r * fl (1 / 20)"
    using assms by (intro mult_left_mono) simp_all
  then have "r * (49999 / 1000000) \<le> r * fl (1 / 20) * (1 - 1 / 2 ^ 52)" by simp
  also have "\<dots> \<le> fl (r * fl (1 / 20))"
    using assms by (intro fl_lower) (simp add: fl_nonneg)
  finally show ?thesis .
qed

lemma raised_lower:
  assumes "0 < rps l" "step l = fl (rps l * fl (1 / 20))" "0 \<le> c" "c \<le> rps l"
  shows "min (rps l) (c + rps l * (499 / 10000)) \<le> raised l c"
proof (cases "rps l \<le> c")
  case False
  let ?s = "rps l * (49999 / 1000000)"
  have "c + ?s \<le> c + step l" using step_lower [OF assms(1)] assms(2) by simp
  then have "fl (c + ?s) \<le> fl (c + step l)" by (rule fl_mono)
  moreover have "(c + ?s) * (1 - 1 / 2 ^ 52) \<le> fl (c + ?s)"
    using assms by (intro fl_lower) simp
  moreover have "c + rps l * (499 / 10000) \<le> (c + ?s) * (1 - 1 / 2 ^ 52)"
    using assms by (simp add: algebra_simps)
  ultimately have "c + rps l * (499 / 10000) \<le> fl (c + step l)" by linarith
  then show ?thesis using False by (auto simp: raised_def min_def)
qed (simp add: raised_def)

lemma min_add_step:
  fixes m :: rat
  assumes "min m c \<le> x" "0 \<le> d"
  shows "min m (c + d) \<le> min m (x + d)"
  using assms by (auto simp: min_def split: if_splits)

lemma rewards_wf: "bucket_laws api \<Longrightarrow> rates_wf api l \<Longrightarrow> rates_wf api (rewards api clk key k l)"
  by (induction k) (simp_all add: rates_wf_ops)

lemma rewards_lower:
  assumes "bucket_laws api" "rates_wf api l" "step l = fl (rps l * fl (1 / 20))"
  shows "min (rps l) (rate_of api l key + of_nat k * (rps l * (499 / 10000)))
    \<le> rate_of api (rewards api clk key k l) key"
proof (induction k)
  case 0
  then show ?case by simp
next
  case (Suc k)
  let ?l = "rewards api clk key k l" and ?d = "rps l * (499 / 10000)"
  have wf: "rates_wf api ?l" using assms by (intro rewards_wf)
  have pos: "0 < rps l" using assms(2) by (auto simp: rates_wf_def)
  have "0 \<le> rate_of api ?l key" "rate_of api ?l key \<le> rps l"
    using wf by (auto simp: rates_wf_def intro: less_imp_le order_trans)
  then have "min (rps l) (rate_of api ?l key + ?d) \<le> raised ?l (rate_of api ?l key)"
    using raised_lower [of ?l "rate_of api ?l key"] assms(3) pos by simp
  moreover have "rate_of api (rewards api clk key (Suc k) l) key = raised ?l (rate_of api ?l key)"
    using wf assms(1) by (simp add: Reward_rate rates_wf_def)
  moreover have "min (rps l) (rate_of api l key + of_nat (Suc k) * ?d)
      \<le> min (rps l) (rate_of api ?l key + ?d)"
    using min_add_step [OF Suc, of ?d] pos by (simp add: distrib_right add_ac add_divide_distrib)
  ultimately show ?case by (simp only:)
qed

text \<open>
  A throttled key recovers: 21 successes in a row bring any key back to the configured
  rate, and 11 do for a key that is at half of it or above, in float64 arithmetic.
\<close>

theorem rewards_recover:
  assumes "bucket_laws api" "0 < r" "fl r = r" "fl mn = mn"
    and "l = lim_run api os (NewAdaptive r n mn)"
    and "21 \<le> k \<or> r / 2 \<le> rate_of api l key \<and> 11 \<le> k"
  shows "rate_of api (rewards api clk key k l) key = r"
proof -
  have wf: "rates_wf api l" unfolding assms(5)
    by (rule rates_wf_run [OF assms(1) rates_wf_new [OF assms(2-4)]])
  have cfg: "rps l = r" "step l = fl (r * fl (1 / 20))" by (simp_all add: assms(5))
  have rt: "0 \<le> rate_of api l key" using wf by (auto simp: rates_wf_def intro: less_imp_le order_trans)
  have "r \<le> rate_of api l key + of_nat k * (r * (499 / 10000))"
    using assms(6)
  proof
    assume "21 \<le> k"
    then have "21 * (r * (499 / 10000)) \<le> of_nat k * (r * (499 / 10000))"
      using assms(2) by (intro mult_right_mono) (simp_all add: of_nat_mono [of 21, simplified])
    moreover have "r \<le> rate_of api l key + 21 * (r * (499 / 10000))" using rt assms(2) by simp
    ultimately show ?thesis by linarith
  next
    assume k: "r / 2 \<le> rate_of api l key \<and> 11 \<le> k"
    then have "11 * (r * (499 / 10000)) \<le> of_nat k * (r * (499 / 10000))"
      using assms(2) by (intro mult_right_mono) (simp_all add: of_nat_mono [of 11, simplified])
    moreover have "r \<le> rate_of api l key + 11 * (r * (499 / 10000))" using k assms(2) by simp
    ultimately show ?thesis by linarith
  qed
  then have "r \<le> rate_of api (rewards api clk key k l) key"
    using rewards_lower [OF assms(1) wf, of key k clk] cfg by (simp add: min_def)
  moreover have "rate_of api (rewards api clk key k l) key \<le> r"
    using rewards_wf [OF assms(1) wf] cfg by (auto simp: rates_wf_def)
  ultimately show ?thesis by simp
qed

theorem rewards_recover_witness:
  "rate_of plain_api (rewards plain_api (\<lambda>i. 0) ''p'' 21
     (lim_run plain_api [OpPenalize 0 ''p'', OpPenalize 0 ''p'', OpPenalize 0 ''p''] (NewAdaptive 8 1 1))) ''p'' = 8"
  by (rule rewards_recover [where mn = 1 and n = 1, OF plain_api_laws _ _ _ refl])
     (simp_all add: f64.rnd_one fl_of_int [of 8, simplified])

subsection \<open>The throttling gauge\<close>

lemma Throttled_loop_filter:
  "Throttled_loop api r bs n = n + length (filter (\<lambda>(k, b). api_Limit api b < r) bs)"
  by (induction api r bs n rule: Throttled_loop.induct) auto

lemma distinct_bucketFor:
  "distinct (map fst (buckets l)) \<Longrightarrow> distinct (map fst (buckets (snd (bucketFor api k l))))"
  by (auto simp: bucketFor_def Let_def distinct_update split: option.splits)

lemma distinct_putBucket:
  "distinct (map fst (buckets l)) \<Longrightarrow> distinct (map fst (buckets (putBucket k b l)))"
  by (simp add: putBucket_def distinct_update)

lemma distinct_run:
  "distinct (map fst (buckets l)) \<Longrightarrow> distinct (map fst (buckets (lim_run api os l)))"
  by (induction api os l rule: lim_run.induct)
     (simp_all add: Wait_def Penalize_def Reward_def Rate_def case_prod_unfold Let_def
       distinct_bucketFor distinct_putBucket)

lemma Throttled_card:
  assumes "distinct (map fst (buckets l))"
  shows "Throttled api l = card {k. rate_of api l k < rps l}"
proof -
  let ?f = "filter (\<lambda>(k, b). api_Limit api b < rps l) (buckets l)"
  have "{k. rate_of api l k < rps l} = fst ` set ?f"
  proof (intro set_eqI iffI)
    fix k assume "k \<in> {k. rate_of api l k < rps l}"
    then obtain b where "map_of (buckets l) k = Some b" "api_Limit api b < rps l"
      by (auto simp: rate_of_def split: option.splits)
    then show "k \<in> fst ` set ?f" by (force dest: map_of_SomeD)
  next
    fix k assume "k \<in> fst ` set ?f"
    then obtain b where "(k, b) \<in> set (buckets l)" "api_Limit api b < rps l" by auto
    with assms show "k \<in> {k. rate_of api l k < rps l}" by (simp add: rate_of_def map_of_is_SomeI)
  qed
  moreover have "distinct (map fst ?f)" using assms by (rule distinct_map_filter)
  then have "card (fst ` set ?f) = length ?f"
    by (metis distinct_card length_map set_map)
  ultimately show ?thesis by (simp add: Throttled_def Throttled_loop_filter)
qed

end
