(* ===== verification/Serp_Model.thy ===== *)
theory Serp_Model
  imports Harvest_Prelude
begin

text \<open>
  The records that travel through the pipeline: search results and crawled pages
  (\<open>internal/model\<close>) and queued jobs (\<open>internal/queue/queue.go\<close>). A pointer that may be nil is
  an option. The decoded JSON value of an extracted field is a parameter type.
\<close>

record organic_result =
  Position :: int
  or_Title :: string
  or_URL :: string
  Snippet :: string

record featured_snippet =
  fs_Title :: string
  fs_URL :: string
  fs_Text :: string

record ai_overview =
  ai_Text :: string
  Sources :: "string list"

record calibration_note =
  MissingBlocks :: "string list"
  RawHTMLPath :: string

record serp_result =
  sr_Query :: string
  sr_RunID :: string
  sr_Locale :: string
  sr_Device :: string
  sr_FetchedAt :: instant
  sr_LatencyMS :: int
  sr_ProxyUsed :: string
  AIOverview :: "ai_overview option"
  FeaturedSnippet :: "featured_snippet option"
  PeopleAlsoAsk :: "string list"
  Organic :: "organic_result list"
  Calibration :: "calibration_note option"
  sr_RawBody :: string

record heading =
  Level :: int
  h_Text :: string

record extraction_note =
  Missing :: "string list"

record 'j page =
  pg_Target :: string
  pg_RunID :: string
  pg_URL :: string
  pg_FinalURL :: string
  pg_Depth :: int
  pg_StatusCode :: int
  pg_ContentType :: string
  pg_FetchedAt :: instant
  pg_LatencyMS :: int
  pg_ProxyUsed :: string
  pg_Title :: string
  Description :: string
  Canonical :: string
  pg_Language :: string
  Headings :: "heading list"
  OpenGraph :: "(string \<times> string) list"
  JSONLD :: "string list"
  pg_Text :: string
  pg_Links :: "string list option"
  pg_Fields :: "(string \<times> 'j) list"
  Items :: "(string \<times> 'j) list list"
  Extraction :: "extraction_note option"
  pg_RawBody :: string

record job =
  job_Query :: string
  job_RunID :: string
  job_Locale :: string
  job_Device :: string

definition Milliseconds :: "duration \<Rightarrow> int" where
  "Milliseconds d = (if 0 \<le> d then d div Millisecond else - (- d div Millisecond))"

end
