(* ===== verification/Harvest_Metrics.thy ===== *)
theory Harvest_Metrics
  imports Go_Float Serp_Model "HOL-Library.AList" "HOL-Library.Multiset" "HOL-Library.List_Lexorder"
    "HOL-Library.Char_ord"
begin

text \<open>
  The package \<open>internal/metrics\<close>: the run-wide counters, the labelled counters, the browser
  counters, the bounded latency recorder and the Prometheus collector. A counter is a 64-bit
  word and wraps; each increment is one atomic step, so a run of the program is a sequence of
  increments in some order.
\<close>

subsection \<open>Labelled counters\<close>

type_synonym labeledCounter = "(string \<times> 64 word) list"

record labeled_value =
  Label :: string
  Value :: "64 word"

definition slot :: "string \<Rightarrow> labeledCounter \<Rightarrow> 64 word \<times> labeledCounter" where
  "slot label m = (case map_of m label of
       Some c \<Rightarrow> (c, m)
     | None \<Rightarrow> (0, AList.update label 0 m))"

definition inc :: "string \<Rightarrow> labeledCounter \<Rightarrow> labeledCounter" where
  "inc label m = (let (c, m) = slot label m in AList.update label (c + 1) m)"

definition snapshot :: "labeledCounter \<Rightarrow> labeled_value list" where
  "snapshot m = sort_key Label (map (\<lambda>(k, c). \<lparr>Label = k, Value = c\<rparr>) m)"

subsection \<open>Counters of the headless browser\<close>

record browser_counters =
  Launches :: "64 word"
  Disconnects :: "64 word"
  NavigationTimeouts :: "64 word"
  ConsentHandled :: "64 word"
  BlockedCaptcha :: "64 word"
  BlockedConsent :: "64 word"
  BlockedInterstitial :: "64 word"
  BlockedChallenge :: "64 word"
  LaunchFailures :: "64 word"
  PageCrashes :: "64 word"
  SessionsOpen :: "64 word"
  SessionsInUse :: "64 word"

text \<open>
  The receiver may be nil (\<open>None\<close>); every method is then a no-op. The two gauges are signed
  in the source, which two's complement addition does not see.
\<close>

type_synonym browser = "browser_counters option"

definition zero_browser :: browser_counters where
  "zero_browser = \<lparr>Launches = 0, Disconnects = 0, NavigationTimeouts = 0, ConsentHandled = 0,
     BlockedCaptcha = 0, BlockedConsent = 0, BlockedInterstitial = 0, BlockedChallenge = 0,
     LaunchFailures = 0, PageCrashes = 0, SessionsOpen = 0, SessionsInUse = 0\<rparr>"

definition IncLaunches :: "browser \<Rightarrow> browser" where
  "IncLaunches = map_option (\<lambda>b. b\<lparr>Launches := Launches b + 1\<rparr>)"

definition IncDisconnects :: "browser \<Rightarrow> browser" where
  "IncDisconnects = map_option (\<lambda>b. b\<lparr>Disconnects := Disconnects b + 1\<rparr>)"

definition IncLaunchFailures :: "browser \<Rightarrow> browser" where
  "IncLaunchFailures = map_option (\<lambda>b. b\<lparr>LaunchFailures := LaunchFailures b + 1\<rparr>)"

definition IncPageCrashes :: "browser \<Rightarrow> browser" where
  "IncPageCrashes = map_option (\<lambda>b. b\<lparr>PageCrashes := PageCrashes b + 1\<rparr>)"

definition IncNavigationTimeouts :: "browser \<Rightarrow> browser" where
  "IncNavigationTimeouts = map_option (\<lambda>b. b\<lparr>NavigationTimeouts := NavigationTimeouts b + 1\<rparr>)"

definition IncConsentHandled :: "browser \<Rightarrow> browser" where
  "IncConsentHandled = map_option (\<lambda>b. b\<lparr>ConsentHandled := ConsentHandled b + 1\<rparr>)"

definition IncBlocked :: "string \<Rightarrow> browser \<Rightarrow> browser" where
  "IncBlocked reason = map_option (\<lambda>b.
     if reason = ''captcha'' then b\<lparr>BlockedCaptcha := BlockedCaptcha b + 1\<rparr>
     else if reason = ''consent'' then b\<lparr>BlockedConsent := BlockedConsent b + 1\<rparr>
     else if reason = ''challenge'' then b\<lparr>BlockedChallenge := BlockedChallenge b + 1\<rparr>
     else b\<lparr>BlockedInterstitial := BlockedInterstitial b + 1\<rparr>)"

definition AddSessionsOpen :: "64 word \<Rightarrow> browser \<Rightarrow> browser" where
  "AddSessionsOpen delta = map_option (\<lambda>b. b\<lparr>SessionsOpen := SessionsOpen b + delta\<rparr>)"

definition AddSessionsInUse :: "64 word \<Rightarrow> browser \<Rightarrow> browser" where
  "AddSessionsInUse delta = map_option (\<lambda>b. b\<lparr>SessionsInUse := SessionsInUse b + delta\<rparr>)"

definition browser_Snapshot :: "browser \<Rightarrow> browser_counters" where
  "browser_Snapshot b = (case b of None \<Rightarrow> zero_browser | Some b \<Rightarrow> b)"

subsection \<open>Run-wide counters\<close>

record proxy_gauges =
  Available :: nat
  Cooling :: nat
  g_Throttled :: nat

record counters =
  c_Success :: "64 word"
  c_Failure :: "64 word"
  c_Dropped :: "64 word"
  c_Retried :: "64 word"
  AIOverviewPresent :: "64 word"
  CalibrationFlagged :: "64 word"
  ProxyBanned :: "64 word"
  RateDecreases :: "64 word"
  Failovers :: "64 word"
  HTTPConsentHandled :: "64 word"
  RobotsDisallowed :: "64 word"
  outcomes :: labeledCounter
  cooldowns :: labeledCounter
  ProxyGauges :: "(unit \<Rightarrow> proxy_gauges) option"
  Browser :: browser

record snapshot =
  s_Success :: "64 word"
  s_Failure :: "64 word"
  s_Dropped :: "64 word"
  s_Retried :: "64 word"
  s_AIOverviewPresent :: "64 word"
  s_CalibrationFlagged :: "64 word"
  s_ProxyBanned :: "64 word"

definition zero_counters :: counters where
  "zero_counters = \<lparr>c_Success = 0, c_Failure = 0, c_Dropped = 0, c_Retried = 0,
     AIOverviewPresent = 0, CalibrationFlagged = 0, ProxyBanned = 0, RateDecreases = 0,
     Failovers = 0, HTTPConsentHandled = 0, RobotsDisallowed = 0, outcomes = [], cooldowns = [],
     ProxyGauges = None, Browser = None\<rparr>"

definition IncSuccess :: "counters \<Rightarrow> counters" where
  "IncSuccess c = c\<lparr>c_Success := c_Success c + 1\<rparr>"

definition IncFailure :: "counters \<Rightarrow> counters" where
  "IncFailure c = c\<lparr>c_Failure := c_Failure c + 1\<rparr>"

definition IncDropped :: "counters \<Rightarrow> counters" where
  "IncDropped c = c\<lparr>c_Dropped := c_Dropped c + 1\<rparr>"

definition IncRetried :: "counters \<Rightarrow> counters" where
  "IncRetried c = c\<lparr>c_Retried := c_Retried c + 1\<rparr>"

definition IncAIOverviewPresent :: "counters \<Rightarrow> counters" where
  "IncAIOverviewPresent c = c\<lparr>AIOverviewPresent := AIOverviewPresent c + 1\<rparr>"

definition IncCalibrationFlagged :: "counters \<Rightarrow> counters" where
  "IncCalibrationFlagged c = c\<lparr>CalibrationFlagged := CalibrationFlagged c + 1\<rparr>"

definition IncProxyBanned :: "counters \<Rightarrow> counters" where
  "IncProxyBanned c = c\<lparr>ProxyBanned := ProxyBanned c + 1\<rparr>"

definition IncRateDecrease :: "counters \<Rightarrow> counters" where
  "IncRateDecrease c = c\<lparr>RateDecreases := RateDecreases c + 1\<rparr>"

definition IncFailover :: "counters \<Rightarrow> counters" where
  "IncFailover c = c\<lparr>Failovers := Failovers c + 1\<rparr>"

definition IncHTTPConsentHandled :: "counters \<Rightarrow> counters" where
  "IncHTTPConsentHandled c = c\<lparr>HTTPConsentHandled := HTTPConsentHandled c + 1\<rparr>"

definition IncRobotsDisallowed :: "counters \<Rightarrow> counters" where
  "IncRobotsDisallowed c = c\<lparr>RobotsDisallowed := RobotsDisallowed c + 1\<rparr>"

definition IncOutcome :: "string \<Rightarrow> counters \<Rightarrow> counters" where
  "IncOutcome outcome c = c\<lparr>outcomes := inc outcome (outcomes c)\<rparr>"

definition IncProxyCooldown :: "string \<Rightarrow> counters \<Rightarrow> counters" where
  "IncProxyCooldown reason c = c\<lparr>cooldowns := inc reason (cooldowns c)\<rparr>"

definition Snapshot :: "counters \<Rightarrow> snapshot" where
  "Snapshot c = \<lparr>s_Success = c_Success c, s_Failure = c_Failure c, s_Dropped = c_Dropped c,
     s_Retried = c_Retried c, s_AIOverviewPresent = AIOverviewPresent c,
     s_CalibrationFlagged = CalibrationFlagged c, s_ProxyBanned = ProxyBanned c\<rparr>"

definition Outcomes :: "counters \<Rightarrow> labeled_value list" where
  "Outcomes c = snapshot (outcomes c)"

definition Cooldowns :: "counters \<Rightarrow> labeled_value list" where
  "Cooldowns c = snapshot (cooldowns c)"

lemmas [metric_defs] = IncSuccess_def IncFailure_def IncDropped_def IncRetried_def
  IncAIOverviewPresent_def IncCalibrationFlagged_def IncProxyBanned_def IncRateDecrease_def
  IncFailover_def IncHTTPConsentHandled_def IncRobotsDisallowed_def IncOutcome_def
  IncProxyCooldown_def

subsection \<open>Latency\<close>

record latency_recorder =
  samples :: "duration list"
  lr_idx :: nat
  capacity :: nat
  total :: "64 word"

record latency_stats =
  Count :: nat
  TotalRecorded :: "64 word"
  ls_Min :: duration
  P50 :: duration
  P95 :: duration
  P99 :: duration
  ls_Max :: duration

definition NewLatencyRecorder :: "int \<Rightarrow> latency_recorder" where
  "NewLatencyRecorder cap =
     (let cap = (if cap \<le> 0 then 1 else cap)
      in \<lparr>samples = [], lr_idx = 0, capacity = nat cap, total = 0\<rparr>)"

definition Record :: "duration \<Rightarrow> latency_recorder \<Rightarrow> latency_recorder" where
  "Record d r =
     (let r = r\<lparr>total := total r + 1\<rparr>
      in if length (samples r) < capacity r then r\<lparr>samples := samples r @ [d]\<rparr>
         else r\<lparr>samples := (samples r)[lr_idx r := d], lr_idx := (lr_idx r + 1) mod capacity r\<rparr>)"

definition pick :: "duration list \<Rightarrow> rat \<Rightarrow> duration" where
  "pick srt p =
     (let n = length srt;
          i = nat \<lfloor>fl (p * fl (of_nat n))\<rfloor>;
          i = (if n \<le> i then n - 1 else i)
      in srt ! i)"

definition Stats :: "latency_recorder \<Rightarrow> latency_stats" where
  "Stats r =
     (let n = length (samples r) in
      if n = 0 then \<lparr>Count = 0, TotalRecorded = total r, ls_Min = 0, P50 = 0, P95 = 0, P99 = 0, ls_Max = 0\<rparr>
      else let srt = sort (samples r)
           in \<lparr>Count = n, TotalRecorded = total r, ls_Min = srt ! 0,
               P50 = pick srt (fl (50 / 100)), P95 = pick srt (fl (95 / 100)),
               P99 = pick srt (fl (99 / 100)), ls_Max = srt ! (n - 1)\<rparr>)"


subsection \<open>The Prometheus collector\<close>

text \<open>
  Prometheus itself is a library; what the collector hands to it is modelled: the descriptors
  it announces (\<open>Describe\<close>) and the samples it emits at a scrape (\<open>Collect\<close>), each the list of
  what is sent on the channel, in order.
\<close>

record desc =
  fqName :: string
  variableLabels :: "string list"

datatype value_type = CounterValue | GaugeValue

record metric =
  m_desc :: desc
  m_type :: value_type
  m_value :: rat
  m_labels :: "string list"

datatype desc_field = p_success | p_failure | p_dropped | p_retried | p_aiOverviewPresent
  | p_calibrationFlagged | p_proxyBanned | p_latencyP50 | p_latencyP95 | p_latencyP99 | p_fetchOutcomes
  | p_proxyCooldowns | p_rateDecreases | p_failovers | p_httpConsent | p_robotsDisallowed
  | p_proxiesAvailable | p_proxiesCooling | p_proxiesThrottled | p_browserLaunchFails
  | p_browserPageCrashes | p_browserLaunches | p_browserDisconnects | p_browserNavTimeouts
  | p_browserConsentHandled | p_browserBlocked | p_browserSessionsOpen | p_browserSessionsInUse

definition NewDesc :: "string \<Rightarrow> string list \<Rightarrow> desc" where
  "NewDesc n ls = \<lparr>fqName = ''serp_harvester_'' @ n, variableLabels = ls\<rparr>"

fun collector_desc :: "desc_field \<Rightarrow> desc" where
  "collector_desc p_success = NewDesc ''success_total'' []"
| "collector_desc p_failure = NewDesc ''failure_total'' []"
| "collector_desc p_dropped = NewDesc ''dropped_total'' []"
| "collector_desc p_retried = NewDesc ''retried_total'' []"
| "collector_desc p_aiOverviewPresent = NewDesc ''ai_overview_total'' []"
| "collector_desc p_calibrationFlagged = NewDesc ''parser_drift_total'' []"
| "collector_desc p_proxyBanned = NewDesc ''proxy_banned_total'' []"
| "collector_desc p_latencyP50 = NewDesc ''latency_p50_ms'' []"
| "collector_desc p_latencyP95 = NewDesc ''latency_p95_ms'' []"
| "collector_desc p_latencyP99 = NewDesc ''latency_p99_ms'' []"
| "collector_desc p_fetchOutcomes = NewDesc ''fetch_outcomes_total'' [''outcome'']"
| "collector_desc p_proxyCooldowns = NewDesc ''proxy_cooldowns_total'' [''reason'']"
| "collector_desc p_rateDecreases = NewDesc ''ratelimit_decreases_total'' []"
| "collector_desc p_failovers = NewDesc ''fetch_failovers_total'' []"
| "collector_desc p_httpConsent = NewDesc ''http_consent_handled_total'' []"
| "collector_desc p_robotsDisallowed = NewDesc ''robots_disallowed_total'' []"
| "collector_desc p_proxiesAvailable = NewDesc ''proxies_available'' []"
| "collector_desc p_proxiesCooling = NewDesc ''proxies_cooling'' []"
| "collector_desc p_proxiesThrottled = NewDesc ''proxies_throttled'' []"
| "collector_desc p_browserLaunchFails = NewDesc ''browser_launch_failures_total'' []"
| "collector_desc p_browserPageCrashes = NewDesc ''browser_page_crashes_total'' []"
| "collector_desc p_browserLaunches = NewDesc ''browser_launches_total'' []"
| "collector_desc p_browserDisconnects = NewDesc ''browser_disconnects_total'' []"
| "collector_desc p_browserNavTimeouts = NewDesc ''browser_navigation_timeouts_total'' []"
| "collector_desc p_browserConsentHandled = NewDesc ''browser_consent_handled_total'' []"
| "collector_desc p_browserBlocked = NewDesc ''browser_blocked_total'' [''reason'']"
| "collector_desc p_browserSessionsOpen = NewDesc ''browser_sessions_open'' []"
| "collector_desc p_browserSessionsInUse = NewDesc ''browser_sessions_in_use'' []"

definition announced :: "counters \<Rightarrow> latency_recorder option \<Rightarrow> desc_field list" where
  "announced c lat =
     ([p_success, p_failure, p_dropped, p_retried, p_aiOverviewPresent, p_calibrationFlagged, p_proxyBanned] @
      (if lat \<noteq> None then [p_latencyP50, p_latencyP95, p_latencyP99] else []) @
      [p_fetchOutcomes, p_proxyCooldowns, p_rateDecreases, p_failovers, p_httpConsent, p_robotsDisallowed] @
      (if ProxyGauges c \<noteq> None then [p_proxiesAvailable, p_proxiesCooling, p_proxiesThrottled] else []) @
      (if Browser c \<noteq> None then
         [p_browserLaunchFails, p_browserPageCrashes, p_browserLaunches, p_browserDisconnects,
          p_browserNavTimeouts, p_browserConsentHandled, p_browserBlocked, p_browserSessionsOpen,
          p_browserSessionsInUse] else []))"

definition Describe :: "counters \<Rightarrow> latency_recorder option \<Rightarrow> desc list" where
  "Describe c lat = map collector_desc (announced c lat)"

definition MustNewConstMetric :: "desc_field \<Rightarrow> value_type \<Rightarrow> rat \<Rightarrow> string list \<Rightarrow> metric" where
  "MustNewConstMetric d t v ls =
     \<lparr>m_desc = collector_desc d, m_type = t, m_value = v, m_labels = ls\<rparr>"

definition float64_u :: "64 word \<Rightarrow> rat" where
  "float64_u w = fl (of_nat (unat w))"

definition float64_i :: "int \<Rightarrow> rat" where
  "float64_i i = fl (of_int i)"

definition counter_u :: "desc_field \<Rightarrow> 64 word \<Rightarrow> metric" where
  "counter_u d w = MustNewConstMetric d CounterValue (float64_u w) []"

definition gauge_i :: "desc_field \<Rightarrow> int \<Rightarrow> metric" where
  "gauge_i d i = MustNewConstMetric d GaugeValue (float64_i i) []"

definition labeled :: "desc_field \<Rightarrow> labeled_value list \<Rightarrow> metric list" where
  "labeled d vs = map (\<lambda>v. MustNewConstMetric d CounterValue (float64_u (Value v)) [Label v]) vs"

definition collect_latency :: "latency_recorder option \<Rightarrow> metric list" where
  "collect_latency lat = (case lat of None \<Rightarrow> []
     | Some r \<Rightarrow> (let ls = Stats r in
         [gauge_i p_latencyP50 (Milliseconds (P50 ls)), gauge_i p_latencyP95 (Milliseconds (P95 ls)),
          gauge_i p_latencyP99 (Milliseconds (P99 ls))]))"

definition collect_gauges :: "counters \<Rightarrow> metric list" where
  "collect_gauges c = (case ProxyGauges c of None \<Rightarrow> []
     | Some f \<Rightarrow> (let g = f () in
         [gauge_i p_proxiesAvailable (int (Available g)), gauge_i p_proxiesCooling (int (Cooling g)),
          gauge_i p_proxiesThrottled (int (g_Throttled g))]))"

definition collect_browser :: "counters \<Rightarrow> metric list" where
  "collect_browser c = (if Browser c = None then [] else
     (let b = browser_Snapshot (Browser c) in
      [counter_u p_browserLaunchFails (LaunchFailures b), counter_u p_browserPageCrashes (PageCrashes b),
       counter_u p_browserLaunches (Launches b), counter_u p_browserDisconnects (Disconnects b),
       counter_u p_browserNavTimeouts (NavigationTimeouts b),
       counter_u p_browserConsentHandled (ConsentHandled b)] @
      labeled p_browserBlocked
       [\<lparr>Label = ''captcha'', Value = BlockedCaptcha b\<rparr>, \<lparr>Label = ''consent'', Value = BlockedConsent b\<rparr>,
        \<lparr>Label = ''interstitial'', Value = BlockedInterstitial b\<rparr>,
        \<lparr>Label = ''challenge'', Value = BlockedChallenge b\<rparr>] @
      [gauge_i p_browserSessionsOpen (sint (SessionsOpen b)),
       gauge_i p_browserSessionsInUse (sint (SessionsInUse b))]))"

definition prom_Collect :: "counters \<Rightarrow> latency_recorder option \<Rightarrow> metric list" where
  "prom_Collect c lat =
     (let s = Snapshot c in
      [counter_u p_success (s_Success s), counter_u p_failure (s_Failure s),
       counter_u p_dropped (s_Dropped s), counter_u p_retried (s_Retried s),
       counter_u p_aiOverviewPresent (s_AIOverviewPresent s),
       counter_u p_calibrationFlagged (s_CalibrationFlagged s),
       counter_u p_proxyBanned (s_ProxyBanned s)] @
      collect_latency lat @
      labeled p_fetchOutcomes (Outcomes c) @ labeled p_proxyCooldowns (Cooldowns c) @
      [counter_u p_rateDecreases (RateDecreases c), counter_u p_failovers (Failovers c),
       counter_u p_httpConsent (HTTPConsentHandled c), counter_u p_robotsDisallowed (RobotsDisallowed c)] @
      collect_gauges c @ collect_browser c)"


subsection \<open>Labelled counters count\<close>

interpretation labels: keyed_store map_of slot "\<lambda>k m. 0"
  by unfold_locales (auto simp: slot_def update_conv split: option.splits)

definition count_of :: "labeledCounter \<Rightarrow> string \<Rightarrow> 64 word" where
  "count_of m l = (case map_of m l of Some c \<Rightarrow> c | None \<Rightarrow> 0)"

lemma count_of_inc [simp]: "count_of (inc l m) k = count_of m k + (if k = l then 1 else 0)"
proof -
  have "map_of (inc l m) = (map_of m)(l \<mapsto> labels.val m l + 1)"
    by (simp add: inc_def case_prod_unfold Let_def update_conv' labels.lookup_entry labels.fst_entry)
  then show ?thesis by (simp add: count_of_def labels.val_def)
qed

lemma count_of_Nil [simp]: "count_of [] k = 0"
  by (simp add: count_of_def)

lemma distinct_inc: "distinct (map fst m) \<Longrightarrow> distinct (map fst (inc l m))"
  by (simp add: inc_def slot_def Let_def case_prod_unfold distinct_update split: option.splits)

lemma distinct_fold_inc: "distinct (map fst m) \<Longrightarrow> distinct (map fst (fold inc ls m))"
  by (induction ls arbitrary: m) (simp_all add: distinct_inc)

lemma count_of_fold_inc: "count_of (fold inc ls m) k = count_of m k + of_nat (count_list ls k)"
  by (induction ls arbitrary: m) simp_all

lemma labels_inc: "fst ` set (inc l m) = insert l (fst ` set m)"
  by (auto simp: inc_def slot_def Let_def dom_update case_prod_unfold split: option.splits)

lemma labels_fold_inc: "fst ` set (fold inc ls m) = fst ` set m \<union> set ls"
  by (induction ls arbitrary: m) (auto simp: labels_inc)

lemma snapshot_mem:
  assumes "distinct (map fst m)"
  shows "v \<in> set (snapshot m) \<longleftrightarrow> Label v \<in> fst ` set m \<and> Value v = count_of m (Label v)"
proof -
  have "v \<in> set (snapshot m) \<longleftrightarrow> (Label v, Value v) \<in> set m"
    by (cases v) (force simp: snapshot_def)
  also have "\<dots> \<longleftrightarrow> map_of m (Label v) = Some (Value v)" using assms by simp
  also have "\<dots> \<longleftrightarrow> Label v \<in> fst ` set m \<and> Value v = count_of m (Label v)"
    by (cases "map_of m (Label v)")
       (auto simp: count_of_def map_of_eq_None_iff dest: map_of_SomeD intro: rev_image_eqI)
  finally show ?thesis .
qed

lemma Label_snapshot:
  assumes "distinct (map fst m)"
  shows "sorted (map Label (snapshot m))" "distinct (map Label (snapshot m))"
proof -
  show "sorted (map Label (snapshot m))" by (simp add: snapshot_def)
  have "mset (map Label (snapshot m)) = mset (map fst m)"
    by (simp add: snapshot_def multiset.map_comp comp_def case_prod_unfold)
  then show "distinct (map Label (snapshot m))" using assms mset_eq_imp_distinct_iff by blast
qed


text \<open>
  After any sequence of increments the snapshot of a labelled counter lists each label that
  occurred exactly once, in ascending order, with the number of its occurrences (modulo
  \<open>2 ^ 64\<close>), and no other label.
\<close>

theorem snapshot_counts:
  "sorted (map Label (snapshot (fold inc ls []))) \<and>
   distinct (map Label (snapshot (fold inc ls []))) \<and>
   set (snapshot (fold inc ls [])) =
     {v. Label v \<in> set ls \<and> Value v = of_nat (count_list ls (Label v)) \<and> labeled_value.more v = ()}"
proof -
  have d: "distinct (map fst (fold inc ls []))" by (rule distinct_fold_inc) simp
  show ?thesis
    using Label_snapshot [OF d] snapshot_mem [OF d]
    by (auto simp: labels_fold_inc count_of_fold_inc)
qed

subsection \<open>The latency reservoir\<close>

definition recorded :: "int \<Rightarrow> duration list \<Rightarrow> latency_recorder" where
  "recorded cap ds = fold Record ds (NewLatencyRecorder cap)"

text \<open>The samples from the oldest to the newest.\<close>

definition unrolled :: "latency_recorder \<Rightarrow> duration list" where
  "unrolled r = drop (lr_idx r) (samples r) @ take (lr_idx r) (samples r)"

definition ring_ok :: "duration list \<Rightarrow> latency_recorder \<Rightarrow> bool" where
  "ring_ok ds r \<longleftrightarrow> 0 < capacity r \<and> lr_idx r < capacity r \<and>
     length (samples r) = min (capacity r) (length ds) \<and>
     (length (samples r) < capacity r \<longrightarrow> lr_idx r = 0) \<and>
     unrolled r = drop (length ds - capacity r) ds \<and> total r = of_nat (length ds)"

lemma ring_new: "ring_ok [] (NewLatencyRecorder cap)"
  by (simp add: ring_ok_def NewLatencyRecorder_def unrolled_def Let_def)

lemma unrolled_overwrite:
  assumes "length xs = n" "i < n"
  shows "drop (Suc i mod n) (xs[i := d]) @ take (Suc i mod n) (xs[i := d]) =
    tl (drop i xs @ take i xs) @ [d]"
proof -
  have upd: "xs[i := d] = take i xs @ d # drop (Suc i) xs" using assms by (simp add: upd_conv_take_nth_drop)
  have "drop i xs = xs ! i # drop (Suc i) xs" using assms by (simp add: Cons_nth_drop_Suc)
  then have tl: "tl (drop i xs @ take i xs) = drop (Suc i) xs @ take i xs" by simp
  show ?thesis
  proof (cases "Suc i = n")
    case True
    with assms tl show ?thesis by (simp add: upd)
  next
    case False
    with assms tl show ?thesis by (simp add: upd)
  qed
qed

lemma ring_record:
  assumes "ring_ok ds r"
  shows "ring_ok (ds @ [d]) (Record d r)"
proof (cases "length (samples r) < capacity r")
  case True
  with assms have i: "lr_idx r = 0" and n: "length ds < capacity r"
    by (simp_all add: ring_ok_def)
  with assms have "samples r = ds" "total r = of_nat (length ds)"
    by (simp_all add: ring_ok_def unrolled_def)
  with i n show ?thesis by (simp add: ring_ok_def Record_def unrolled_def Let_def)
next
  case False
  with assms have len: "length (samples r) = capacity r" "capacity r \<le> length ds"
    by (auto simp: ring_ok_def)
  have "unrolled (Record d r) = tl (unrolled r) @ [d]"
    using assms False len unrolled_overwrite [of "samples r" "capacity r" "lr_idx r" d]
    by (simp add: Record_def unrolled_def Let_def ring_ok_def)
  also have "\<dots> = drop (length (ds @ [d]) - capacity r) (ds @ [d])"
    using assms len by (simp add: ring_ok_def drop_Suc tl_drop Suc_diff_le)
  finally show ?thesis
    using assms False len by (auto simp: ring_ok_def Record_def Let_def intro: mod_less_divisor)
qed

lemma capacity_Record [simp]: "capacity (Record d r) = capacity r"
  by (simp add: Record_def Let_def)

lemma ring_fold: "ring_ok ds r \<Longrightarrow> ring_ok (ds @ es) (fold Record es r)"
proof (induction es arbitrary: ds r)
  case (Cons e es)
  from Cons.IH [OF ring_record [OF Cons.prems, of e]] show ?case by simp
qed simp

lemma capacity_recorded: "capacity (recorded cap ds) = (if cap \<le> 0 then 1 else nat cap)"
proof -
  have "capacity (fold Record ds r) = capacity r" for r by (induction ds arbitrary: r) simp_all
  then show ?thesis by (simp add: recorded_def NewLatencyRecorder_def Let_def)
qed

text \<open>
  The recorder is a ring: after any number of observations it holds exactly the most recent
  ones, at most its capacity of them, in order from \<open>idx\<close> on, and counts all of them.
\<close>

theorem recorder_keeps_latest:
  "let r = recorded cap ds; n = (if cap \<le> 0 then 1 else nat cap)
   in unrolled r = drop (length ds - n) ds \<and>
      mset (samples r) = mset (drop (length ds - n) ds) \<and>
      total r = of_nat (length ds)"
proof -
  let ?r = "recorded cap ds"
  have ok: "ring_ok ds ?r"
    unfolding recorded_def using ring_fold [OF ring_new, of ds cap] by simp
  have "mset (samples ?r) = mset (unrolled ?r)"
    by (metis append_take_drop_id mset_append union_commute unrolled_def)
  with ok show ?thesis by (simp add: ring_ok_def capacity_recorded Let_def)
qed

subsection \<open>Percentiles\<close>

definition rank :: "nat \<Rightarrow> rat \<Rightarrow> nat" where
  "rank n p = min (n - 1) (nat \<lfloor>fl (p * fl (of_nat n))\<rfloor>)"

lemma pick_rank: "xs \<noteq> [] \<Longrightarrow> pick xs p = xs ! rank (length xs) p"
proof -
  assume "xs \<noteq> []"
  then have "(if length xs \<le> i then length xs - 1 else i) = min (length xs - 1) i" for i
    by (cases xs) (auto simp: min_def)
  then show ?thesis by (simp add: pick_def rank_def Let_def)
qed

lemma rank_less: "0 < n \<Longrightarrow> rank n p < n"
  unfolding rank_def by linarith

lemma rank_mono: "p \<le> q \<Longrightarrow> rank n p \<le> rank n q"
proof -
  assume "p \<le> q"
  then have "p * fl (of_nat n) \<le> q * fl (of_nat n)" by (intro mult_right_mono) (simp_all add: fl_nonneg)
  then have "nat \<lfloor>fl (p * fl (of_nat n))\<rfloor> \<le> nat \<lfloor>fl (q * fl (of_nat n))\<rfloor>"
    by (intro nat_mono floor_mono fl_mono)
  then show ?thesis by (simp add: rank_def)
qed

lemma sorted_rank_count:
  assumes "sorted xs" "i < length xs"
  shows "i < length (filter (\<lambda>x. x \<le> xs ! i) xs)"
proof -
  have "filter (\<lambda>x. x \<le> xs ! i) (take (Suc i) xs) = take (Suc i) xs"
    using assms by (auto simp: filter_id_conv in_set_conv_nth intro!: sorted_nth_mono)
  then have "length (filter (\<lambda>x. x \<le> xs ! i) (take (Suc i) xs)) = Suc i"
    using assms(2) by simp
  moreover have "filter (\<lambda>x. x \<le> xs ! i) xs =
      filter (\<lambda>x. x \<le> xs ! i) (take (Suc i) xs) @ filter (\<lambda>x. x \<le> xs ! i) (drop (Suc i) xs)"
    by (metis append_take_drop_id filter_append)
  ultimately show ?thesis by simp
qed

lemma rank_count:
  assumes "samples r \<noteq> []"
  shows "rank (length (samples r)) p < size (filter_mset (\<lambda>x. x \<le> pick (sort (samples r)) p) (mset (samples r)))"
proof -
  let ?s = "sort (samples r)"
  have "?s \<noteq> []" using assms by (metis length_0_conv length_sort)
  then have "rank (length ?s) p < length (filter (\<lambda>x. x \<le> pick ?s p) ?s)"
    using assms by (simp add: pick_rank sorted_rank_count rank_less)
  also have "\<dots> = size (filter_mset (\<lambda>x. x \<le> pick ?s p) (mset ?s))"
    by (metis mset_filter size_mset)
  finally show ?thesis by simp
qed

text \<open>
  \<open>Stats\<close> on a recorder that holds samples: the minimum and maximum are those of the
  samples, every percentile is a sample, they are ordered, and a percentile \<open>p\<close> has at least
  \<open>p\<close> of the samples at or below it, up to the rounding of \<open>p * n\<close>.
\<close>

theorem Stats_percentiles:
  assumes "samples r \<noteq> []"
  shows "ls_Min (Stats r) = Min (set (samples r)) \<and> ls_Max (Stats r) = Max (set (samples r)) \<and>
    ls_Min (Stats r) \<le> P50 (Stats r) \<and> P50 (Stats r) \<le> P95 (Stats r) \<and>
    P95 (Stats r) \<le> P99 (Stats r) \<and> P99 (Stats r) \<le> ls_Max (Stats r) \<and>
    {P50 (Stats r), P95 (Stats r), P99 (Stats r)} \<subseteq> set (samples r) \<and>
    rank (length (samples r)) (fl (50 / 100)) < size (filter_mset (\<lambda>x. x \<le> P50 (Stats r)) (mset (samples r))) \<and>
    rank (length (samples r)) (fl (95 / 100)) < size (filter_mset (\<lambda>x. x \<le> P95 (Stats r)) (mset (samples r))) \<and>
    rank (length (samples r)) (fl (99 / 100)) < size (filter_mset (\<lambda>x. x \<le> P99 (Stats r)) (mset (samples r)))"
proof -
  let ?s = "sort (samples r)" and ?n = "length (samples r)"
  have ne: "?s \<noteq> []" "0 < ?n" using assms by (metis length_0_conv length_sort) (simp add: assms)
  have mono: "?s ! i \<le> ?s ! j" if "i \<le> j" "j < ?n" for i j
    using that by (intro sorted_nth_mono) simp_all
  have mem: "?s ! i \<in> set (samples r)" if "i < ?n" for i
    using nth_mem [of i ?s] that by simp
  have mn: "?s ! 0 = Min (set (samples r))"
  proof (rule Min_eqI [symmetric])
    fix y assume "y \<in> set (samples r)"
    then obtain i where "i < ?n" "y = ?s ! i" by (metis in_set_conv_nth length_sort set_sort)
    then show "?s ! 0 \<le> y" using mono [of 0 i] by simp
  qed (use mem ne in auto)
  have mx: "?s ! (?n - 1) = Max (set (samples r))"
  proof (rule Max_eqI [symmetric])
    fix y assume "y \<in> set (samples r)"
    then obtain i where "i < ?n" "y = ?s ! i" by (metis in_set_conv_nth length_sort set_sort)
    then show "y \<le> ?s ! (?n - 1)" using mono [of i "?n - 1"] by simp
  qed (use mem ne in auto)
  have pk: "pick ?s p = ?s ! rank ?n p" for p using pick_rank [OF ne(1)] by simp
  have ord: "pick ?s p \<le> pick ?s q" if "p \<le> q" for p q
    unfolding pk using rank_mono [OF that] rank_less [OF ne(2)] by (intro mono)
  have hi: "pick ?s p \<le> ?s ! (?n - 1)" "?s ! 0 \<le> pick ?s p" for p
    unfolding pk using rank_less [OF ne(2), of p] by (auto intro!: mono)
  have St: "ls_Min (Stats r) = ?s ! 0" "ls_Max (Stats r) = ?s ! (?n - 1)"
    "P50 (Stats r) = pick ?s (fl (50 / 100))" "P95 (Stats r) = pick ?s (fl (95 / 100))"
    "P99 (Stats r) = pick ?s (fl (99 / 100))"
    using assms by (simp_all add: Stats_def Let_def)
  show ?thesis unfolding St
    using mn mx ord hi rank_count [OF assms] mem rank_less [OF ne(2)]
    by (simp add: fl_mono) (simp add: pk)
qed

theorem Stats_percentiles_witness:
  "let r = recorded 4 [30, 10, 20, 50, 40]
   in samples r = [40, 10, 20, 50] \<and> ls_Min (Stats r) = Min (set (samples r)) \<and>
      P50 (Stats r) \<le> P95 (Stats r)"
proof -
  have s: "samples (recorded 4 [30, 10, 20, 50, 40]) = [40, 10, 20, 50]" by code_simp
  then have "samples (recorded 4 [30, 10, 20, 50, 40]) \<noteq> []" by simp
  from Stats_percentiles [OF this] s show ?thesis by (simp add: Let_def)
qed


subsection \<open>The collector is consistent\<close>

lemmas metric_makers = counter_u_def gauge_i_def labeled_def MustNewConstMetric_def

definition all_fields :: "desc_field list" where
  "all_fields = [p_success, p_failure, p_dropped, p_retried, p_aiOverviewPresent,
     p_calibrationFlagged, p_proxyBanned, p_latencyP50, p_latencyP95, p_latencyP99,
     p_fetchOutcomes, p_proxyCooldowns, p_rateDecreases, p_failovers, p_httpConsent,
     p_robotsDisallowed, p_proxiesAvailable, p_proxiesCooling, p_proxiesThrottled,
     p_browserLaunchFails, p_browserPageCrashes, p_browserLaunches, p_browserDisconnects,
     p_browserNavTimeouts, p_browserConsentHandled, p_browserBlocked, p_browserSessionsOpen,
     p_browserSessionsInUse]"

lemma all_fields_UNIV: "d \<in> set all_fields"
  by (cases d) (simp_all add: all_fields_def)

lemma names_distinct: "distinct (map (\<lambda>d. fqName (collector_desc d)) all_fields)"
  by code_simp

lemma fqName_inj: "inj (\<lambda>d. fqName (collector_desc d))"
  using names_distinct all_fields_UNIV by (simp add: distinct_map inj_on_def)

lemma collector_desc_inj: "inj collector_desc"
  using fqName_inj by (simp add: inj_on_def)

definition sample_key :: "metric \<Rightarrow> desc \<times> string list" where
  "sample_key x = (m_desc x, m_labels x)"

lemma sample_key_simps [simp]:
  "sample_key (counter_u d w) = (collector_desc d, [])"
  "sample_key (gauge_i d i) = (collector_desc d, [])"
  "sample_key (MustNewConstMetric d t v ls) = (collector_desc d, ls)"
  by (simp_all add: sample_key_def metric_makers)

lemma sample_key_labeled [simp]:
  "map sample_key (labeled d vs) = map (\<lambda>v. (collector_desc d, [Label v])) vs"
  by (simp add: labeled_def)

text \<open>The samples of a scrape, as descriptor and label values, in the order they are sent.\<close>

definition scrape_keys :: "counters \<Rightarrow> latency_recorder option \<Rightarrow> (desc_field \<times> string list) list" where
  "scrape_keys c lat =
     map (\<lambda>d. (d, [])) ([p_success, p_failure, p_dropped, p_retried, p_aiOverviewPresent,
       p_calibrationFlagged, p_proxyBanned] @
       (if lat = None then [] else [p_latencyP50, p_latencyP95, p_latencyP99])) @
     map (\<lambda>v. (p_fetchOutcomes, [Label v])) (Outcomes c) @
     map (\<lambda>v. (p_proxyCooldowns, [Label v])) (Cooldowns c) @
     map (\<lambda>d. (d, [])) ([p_rateDecreases, p_failovers, p_httpConsent, p_robotsDisallowed] @
       (if ProxyGauges c = None then [] else [p_proxiesAvailable, p_proxiesCooling, p_proxiesThrottled])) @
     (if Browser c = None then [] else
       map (\<lambda>d. (d, [])) [p_browserLaunchFails, p_browserPageCrashes, p_browserLaunches,
         p_browserDisconnects, p_browserNavTimeouts, p_browserConsentHandled] @
       map (\<lambda>l. (p_browserBlocked, [l])) [''captcha'', ''consent'', ''interstitial'', ''challenge''] @
       map (\<lambda>d. (d, [])) [p_browserSessionsOpen, p_browserSessionsInUse])"

lemma Collect_keys:
  "map sample_key (prom_Collect c lat) = map (map_prod collector_desc id) (scrape_keys c lat)"
  by (simp add: prom_Collect_def scrape_keys_def collect_latency_def collect_gauges_def
      collect_browser_def Let_def split: option.split)

lemma scrape_keys_distinct:
  assumes "distinct (map fst (outcomes c))" "distinct (map fst (cooldowns c))"
  shows "distinct (scrape_keys c lat)"
proof -
  have inj: "distinct (map (\<lambda>v. (d, [Label v])) (snapshot m))" if "distinct (map fst m)"
    for d :: desc_field and m
    using Label_snapshot(2) [OF that] by (auto simp: distinct_map inj_on_def)
  have "distinct (map (\<lambda>v. (p_fetchOutcomes, [Label v])) (Outcomes c))"
    "distinct (map (\<lambda>v. (p_proxyCooldowns, [Label v])) (Cooldowns c))"
    unfolding Outcomes_def Cooldowns_def using assms by (simp_all add: inj)
  moreover have "(\<lambda>v. (p_fetchOutcomes, [Label v])) ` set (Outcomes c) \<inter>
      (\<lambda>v. (p_proxyCooldowns, [Label v])) ` set (Cooldowns c) = {}" by auto
  ultimately show ?thesis by (simp add: scrape_keys_def image_iff)
qed

lemma scrape_keys_announced:
  "list_all (\<lambda>k. fst k \<in> set (announced c lat)) (scrape_keys c lat)"
  by (cases "lat = None"; cases "ProxyGauges c = None"; cases "Browser c = None")
     (simp_all add: scrape_keys_def announced_def list.pred_map comp_def list.pred_True)

lemma scrape_keys_arity:
  "list_all (\<lambda>k. length (snd k) = length (variableLabels (collector_desc (fst k)))) (scrape_keys c lat)"
  by (simp add: scrape_keys_def list.pred_map comp_def list.pred_True NewDesc_def)

text \<open>
  What a registry requires of a collector holds at every scrape: the announced names are
  pairwise distinct, every sample belongs to an announced descriptor and carries as many label
  values as the descriptor has labels, and no two samples have the same descriptor and labels.
\<close>

theorem collector_consistent:
  assumes "distinct (map fst (outcomes c))" "distinct (map fst (cooldowns c))"
  shows "distinct (map fqName (Describe c lat)) \<and>
    (\<forall>x\<in>set (prom_Collect c lat). m_desc x \<in> set (Describe c lat) \<and>
       length (m_labels x) = length (variableLabels (m_desc x))) \<and>
    distinct (map sample_key (prom_Collect c lat))"
proof (intro conjI)
  have "distinct (announced c lat)"
    by (cases "lat = None"; cases "ProxyGauges c = None"; cases "Browser c = None")
       (simp_all add: announced_def)
  then show "distinct (map fqName (Describe c lat))"
    using inj_on_subset [OF fqName_inj subset_UNIV]
    by (simp add: Describe_def distinct_map comp_def)
  have keys: "sample_key x \<in> map_prod collector_desc id ` set (scrape_keys c lat)"
    if "x \<in> set (prom_Collect c lat)" for x
    using that by (metis Collect_keys image_eqI list.set_map)
  have "collector_desc d \<in> set (Describe c lat) \<and> length ls = length (variableLabels (collector_desc d))"
    if "(d, ls) \<in> set (scrape_keys c lat)" for d ls
    using that scrape_keys_announced [of c lat] scrape_keys_arity [of c lat]
    by (force simp: list_all_iff Describe_def)
  with keys show "\<forall>x\<in>set (prom_Collect c lat). m_desc x \<in> set (Describe c lat) \<and>
       length (m_labels x) = length (variableLabels (m_desc x))"
    by (force simp: sample_key_def)
  have "inj (map_prod collector_desc (id :: string list \<Rightarrow> _))"
    using collector_desc_inj by (simp add: prod.inj_map)
  then show "distinct (map sample_key (prom_Collect c lat))"
    unfolding Collect_keys using scrape_keys_distinct [OF assms]
    by (simp add: distinct_map inj_on_subset [OF _ subset_UNIV])
qed

theorem collector_consistent_witness:
  "let c = IncOutcome ''success'' (IncOutcome ''captcha'' zero_counters)
   in distinct (map fqName (Describe c None)) \<and> distinct (map sample_key (prom_Collect c None))"
proof -
  let ?c = "IncOutcome ''success'' (IncOutcome ''captcha'' zero_counters)"
  have "distinct (map fst (outcomes ?c))" "distinct (map fst (cooldowns ?c))"
    by (simp_all add: zero_counters_def IncOutcome_def distinct_inc)
  from collector_consistent [OF this, of None] show ?thesis by (simp add: Let_def)
qed

subsection \<open>The reporter\<close>

text \<open>\<open>Duration.Seconds\<close>, a sum of two converted parts, and \<open>Duration.Round\<close>, halfway away from zero.\<close>

definition Seconds :: "duration \<Rightarrow> rat" where
  "Seconds d = fl (fl (of_int (sgn d * (\<bar>d\<bar> div Second))) + fl (fl (of_int (sgn d * (\<bar>d\<bar> mod Second))) / 10 ^ 9))"

definition Round_duration :: "duration \<Rightarrow> duration \<Rightarrow> duration" where
  "Round_duration d m =
     (if m \<le> 0 then d
      else let r = \<bar>d\<bar> mod m in sgn d * (if r + r < m then \<bar>d\<bar> - r else \<bar>d\<bar> + m - r))"

datatype report_value = Elapsed duration | Whole int | Ratio rat

definition whole_u :: "64 word \<Rightarrow> report_value" where
  "whole_u w = Whole (int (unat w))"

lemma whole_u_simps [simp]:
  "whole_u v = whole_u w \<longleftrightarrow> v = w" "whole_u w \<noteq> Ratio r" "Ratio r \<noteq> whole_u w" "whole_u w \<noteq> Elapsed d" "Elapsed d \<noteq> whole_u w"
  by (simp_all add: whole_u_def word_uint_eq_iff)

lemma float64_u_nonneg [simp]: "0 \<le> float64_u w"
  unfolding float64_u_def by (rule fl_nonneg) (rule of_nat_0_le_iff)

text \<open>What \<open>report\<close> prints: the lines, each as the names and the values before formatting.\<close>

definition report :: "counters \<Rightarrow> duration \<Rightarrow> (string \<times> report_value) list list" where
  "report c elapsed =
     (let s = Snapshot c;
          all = s_Success s + s_Dropped s;
          rps = (if 0 < Seconds elapsed then fl (float64_u (s_Success s) / Seconds elapsed) else 0);
          dailyProjection = fl (rps * 86400)
      in [[(''elapsed'', Elapsed (Round_duration elapsed Second)), (''success'', whole_u (s_Success s)),
           (''failure'', whole_u (s_Failure s)), (''retried'', whole_u (s_Retried s)), (''dropped'', whole_u (s_Dropped s)),
           (''completed'', whole_u all), (''req/s'', Ratio rps), (''projected/day'', Ratio dailyProjection),
           (''ai_overview'', whole_u (s_AIOverviewPresent s)), (''calibration_flagged'', whole_u (s_CalibrationFlagged s)),
           (''proxy_banned'', whole_u (s_ProxyBanned s))]] @
         (case ProxyGauges c of None \<Rightarrow> []
          | Some f \<Rightarrow> (let g = f () in
              [[(''available'', Whole (int (Available g))), (''cooling'', Whole (int (Cooling g))),
                (''throttled'', Whole (int (g_Throttled g))), (''failovers'', whole_u (Failovers c))]])) @
         (if Browser c = None then []
          else let b = browser_Snapshot (Browser c) in
              [[(''launches'', whole_u (Launches b)), (''disconnects'', whole_u (Disconnects b)),
                (''nav_timeouts'', whole_u (NavigationTimeouts b)), (''consent_handled'', whole_u (ConsentHandled b)),
                (''blocked_captcha'', whole_u (BlockedCaptcha b)), (''blocked_consent'', whole_u (BlockedConsent b)),
                (''blocked_interstitial'', whole_u (BlockedInterstitial b)), (''blocked_challenge'', whole_u (BlockedChallenge b)),
                (''sessions_open'', Whole (sint (SessionsOpen b))), (''sessions_in_use'', Whole (sint (SessionsInUse b)))]]))"

lemma Seconds_nonneg: "0 \<le> d \<Longrightarrow> 0 \<le> Seconds d"
  by (cases "d = 0") (auto simp: Seconds_def sgn_if Second_def intro!: fl_nonneg add_nonneg_nonneg divide_nonneg_nonneg)

text \<open>
  The report and the scrape tell the same: every counter and gauge of the report that is also
  exported has, converted, the exported value.
\<close>

lemma report_agrees_with_scrape:
  assumes "(name, whole_u w) \<in> set (hd (report c elapsed))" "(name, d) \<in> {(''success'', p_success), (''failure'', p_failure),
      (''dropped'', p_dropped), (''retried'', p_retried), (''proxy_banned'', p_proxyBanned)}"
  shows "counter_u d w \<in> set (prom_Collect c lat)"
  using assms by (auto simp: report_def Let_def prom_Collect_def Snapshot_def)

lemma report_rates_nonneg:
  assumes "(name, Ratio r) \<in> set (hd (report c elapsed))"
  shows "0 \<le> r"
  using assms by (auto simp: report_def Let_def intro!: fl_nonneg divide_nonneg_nonneg mult_nonneg_nonneg)

end
