(* ===== verification/Fetch_Outcome.thy ===== *)
theory Fetch_Outcome
  imports Harvest_Prelude
begin

text \<open>
  What every fetcher shares: the request and response types (\<open>fetcher/fetcher.go\<close>), the error
  types and \<open>Retry-After\<close> (\<open>fetcher/errors.go\<close>), the outcome of a fetch and the recognition of
  block pages (\<open>fetcher/classify.go\<close>).

  A Go error is a chain of wrapped errors; the datatype \<open>go_error\<close> has the repository's own
  error types, the sentinels \<open>Classify\<close> compares with, the two families of network errors of
  the standard library, wrapping by \<open>fmt.Errorf\<close> with \<open>%w\<close>, and any other error. The HTML parser
  (goquery) and \<open>net/url\<close>'s and \<open>net/http\<close>'s parsers are parameters of the definitions that
  call them.
\<close>

subsection \<open>Requests, responses and errors\<close>

record request =
  Query :: string
  req_URL :: string
  UserAgent :: string
  ProxyURL :: string
  Country :: string
  Language :: string
  Device :: string
  WaitSelector :: string

record response =
  StatusCode :: int
  Body :: string
  Latency :: duration
  ContentType :: string
  FinalURL :: string

record blocked_error =
  Reason :: string
  be_URL :: string
  be_StatusCode :: int
  be_Body :: string

record rate_limit_error =
  rl_StatusCode :: int
  RetryAfter :: duration
  rl_Body :: string

datatype go_error =
    RateLimitError rate_limit_error
  | BlockedError blocked_error
  | StatusError int
  | TransportError go_error
  | ContextCanceled
  | DeadlineExceeded
  | PlaywrightTimeout
  | UrlError go_error
  | NetError bool "go_error option"
  | Wrapped string go_error
  | ErrorString string

text \<open>\<open>errors.Unwrap\<close>, the chain it spans, \<open>errors.As\<close> and \<open>errors.Is\<close> on it.\<close>

fun Unwrap :: "go_error \<Rightarrow> go_error option" where
  "Unwrap (TransportError e) = Some e"
| "Unwrap (UrlError e) = Some e"
| "Unwrap (NetError t e) = e"
| "Unwrap (Wrapped s e) = Some e"
| "Unwrap e = None"

fun error_chain :: "go_error \<Rightarrow> go_error list" where
  "error_chain (TransportError e) = TransportError e # error_chain e"
| "error_chain (UrlError e) = UrlError e # error_chain e"
| "error_chain (NetError t None) = [NetError t None]"
| "error_chain (NetError t (Some e)) = NetError t (Some e) # error_chain e"
| "error_chain (Wrapped s e) = Wrapped s e # error_chain e"
| "error_chain e = [e]"

definition errors_As :: "(go_error \<Rightarrow> 'a option) \<Rightarrow> go_error \<Rightarrow> 'a option" where
  "errors_As sel e = (case List.map_filter sel (error_chain e) of [] \<Rightarrow> None | x # _ \<Rightarrow> Some x)"

definition errors_Is :: "go_error \<Rightarrow> go_error \<Rightarrow> bool" where
  "errors_Is e target \<longleftrightarrow> target \<in> set (error_chain e)"

fun as_RateLimit :: "go_error \<Rightarrow> rate_limit_error option" where
  "as_RateLimit (RateLimitError r) = Some r"
| "as_RateLimit e = None"

fun as_Blocked :: "go_error \<Rightarrow> blocked_error option" where
  "as_Blocked (BlockedError b) = Some b"
| "as_Blocked e = None"

fun as_Status :: "go_error \<Rightarrow> int option" where
  "as_Status (StatusError c) = Some c"
| "as_Status e = None"

fun as_Transport :: "go_error \<Rightarrow> go_error option" where
  "as_Transport (TransportError e) = Some e"
| "as_Transport e = None"

fun as_Url :: "go_error \<Rightarrow> go_error option" where
  "as_Url (UrlError e) = Some e"
| "as_Url e = None"

text \<open>
  \<open>net.Error\<close> is the interface with a \<open>Timeout\<close> method: network errors, \<open>*url.Error\<close>, which
  asks the error directly inside it, and \<open>context.DeadlineExceeded\<close>. The value is what
  \<open>Timeout()\<close> returns.
\<close>

fun as_NetError :: "go_error \<Rightarrow> bool option" where
  "as_NetError (NetError t e) = Some t"
| "as_NetError DeadlineExceeded = Some True"
| "as_NetError (UrlError e) = Some (case as_NetError e of Some t \<Rightarrow> t | None \<Rightarrow> False)"
| "as_NetError e = None"

subsection \<open>Outcomes\<close>

datatype outcome = OutcomeSuccess | OutcomeRateLimited | OutcomeCaptcha | OutcomeConsent
  | OutcomeInterstitial | OutcomeChallenge | OutcomeTimeout | OutcomeTransport
  | OutcomeServerError | OutcomeClientError | OutcomeCanceled | OutcomeOther

fun outcome_String :: "outcome \<Rightarrow> string" where
  "outcome_String OutcomeSuccess = ''success''"
| "outcome_String OutcomeRateLimited = ''rate_limited''"
| "outcome_String OutcomeCaptcha = ''captcha''"
| "outcome_String OutcomeConsent = ''consent''"
| "outcome_String OutcomeInterstitial = ''interstitial''"
| "outcome_String OutcomeChallenge = ''challenge''"
| "outcome_String OutcomeTimeout = ''timeout''"
| "outcome_String OutcomeTransport = ''transport''"
| "outcome_String OutcomeServerError = ''http_5xx''"
| "outcome_String OutcomeClientError = ''http_4xx''"
| "outcome_String OutcomeCanceled = ''canceled''"
| "outcome_String OutcomeOther = ''other''"

fun Retryable :: "outcome \<Rightarrow> bool" where
  "Retryable OutcomeSuccess = False"
| "Retryable OutcomeClientError = False"
| "Retryable OutcomeCanceled = False"
| "Retryable _ = True"

definition outcome_Blocked :: "outcome \<Rightarrow> bool" where
  "outcome_Blocked out \<longleftrightarrow>
     out = OutcomeCaptcha \<or> out = OutcomeInterstitial \<or> out = OutcomeChallenge"

definition blocked_outcome :: "blocked_error \<Rightarrow> outcome" where
  "blocked_outcome b =
     (if Reason b = ''captcha'' then OutcomeCaptcha
      else if Reason b = ''consent'' then OutcomeConsent
      else if Reason b = ''challenge'' then OutcomeChallenge
      else OutcomeInterstitial)"

definition Classify_error :: "go_error \<Rightarrow> outcome" where
  "Classify_error e = (case errors_As as_RateLimit e of Some _ \<Rightarrow> OutcomeRateLimited | None \<Rightarrow>
     (case errors_As as_Blocked e of Some b \<Rightarrow> blocked_outcome b | None \<Rightarrow>
     (case errors_As as_Status e of
        Some c \<Rightarrow> (if 500 \<le> c then OutcomeServerError else OutcomeClientError) | None \<Rightarrow>
      if errors_Is e ContextCanceled then OutcomeCanceled
      else if errors_Is e DeadlineExceeded \<or> errors_Is e PlaywrightTimeout then OutcomeTimeout
      else if errors_As as_NetError e = Some True then OutcomeTimeout
      else if errors_As as_Transport e \<noteq> None \<or> errors_As as_Url e \<noteq> None \<or>
              errors_As as_NetError e \<noteq> None then OutcomeTransport
      else OutcomeOther)))"

definition Classify :: "go_error option \<Rightarrow> outcome" where
  "Classify err = (case err of None \<Rightarrow> OutcomeSuccess | Some e \<Rightarrow> Classify_error e)"

subsection \<open>Retry-After\<close>

definition parseRetryAfter ::
    "(string \<Rightarrow> instant option) \<Rightarrow> instant \<Rightarrow> string \<Rightarrow> duration \<times> bool" where
  "parseRetryAfter ParseTime now header =
     (if header = [] then (0, False)
      else case Atoi header of
          Some secs \<Rightarrow> if secs < 0 then (0, False) else (wrap64 (secs * Second), True)
        | None \<Rightarrow> (case ParseTime header of
            Some t \<Rightarrow> (let d = t - now in if d < 0 then (0, False) else (d, True))
          | None \<Rightarrow> (0, False)))"

subsection \<open>Block pages\<close>

datatype pageKind = pageNormal | pageConsent | pageCaptcha | pageInterstitial | pageChallenge

text \<open>
  A parsed URL (\<open>net/url\<close>). The components the sources never look at (user information, the
  encoded form of the path, an opaque part) are carried along in \<open>u_Other\<close>.
\<close>

record url =
  Scheme :: string
  Host :: string
  Path :: string
  RawQuery :: string
  Fragment :: string
  RawFragment :: string
  u_Other :: string

text \<open>
  The parsers the page checks call: \<open>url.Parse\<close>, goquery's document, the number of elements a
  selector finds, the text of the first title, the \<open>type\<close> attributes of the scripts (empty when
  absent) and the text of the body without its scripts, styles, templates and images.
\<close>

record 'd page_api =
  pa_Parse :: "string \<Rightarrow> url option"
  pa_Hostname :: "url \<Rightarrow> string"
  pa_Document :: "string \<Rightarrow> 'd option"
  pa_Find :: "'d \<Rightarrow> string \<Rightarrow> nat"
  pa_Title :: "'d \<Rightarrow> string"
  pa_ScriptTypes :: "'d \<Rightarrow> string list"
  pa_BodyText :: "'d \<Rightarrow> string"

definition captcha_selector :: string where
  "captcha_selector = ''#captcha-form, form[action*=\"/sorry/\"], .g-recaptcha, #recaptcha, iframe[src*=\"recaptcha\"]''"

definition consent_selector :: string where
  "consent_selector = ''form[action*=\"consent\"], input[name=\"set_eom\"]''"

definition classifyPage :: "'d page_api \<Rightarrow> string \<Rightarrow> string \<Rightarrow> pageKind" where
  "classifyPage api pageURL html =
     (let u = pa_Parse api pageURL in
      if u \<noteq> None \<and> Contains (Path (the u)) ''/sorry/'' then pageCaptcha
      else if u \<noteq> None \<and> Contains (Path (the u)) ''/httpservice/retry/enablejs'' then pageInterstitial
      else case pa_Document api html of
          None \<Rightarrow> pageNormal
        | Some doc \<Rightarrow>
            if 0 < pa_Find api doc captcha_selector then pageCaptcha
            else if u \<noteq> None \<and> HasPrefix (pa_Hostname api (the u)) ''consent.'' \<or>
                    0 < pa_Find api doc consent_selector then pageConsent
            else pageNormal)"

definition challenge_selector :: string where
  "challenge_selector = ''#challenge-form, #challenge-running, #challenge-stage, #cf-challenge-running, form[action*=\"__cf_chl\"]''"

definition vendor_selector :: string where
  "vendor_selector = ''iframe[src*=\"captcha-delivery.com\"], #px-captcha''"

definition widget_selector :: string where
  "widget_selector = ''.g-recaptcha, iframe[src*=\"recaptcha\"], .h-captcha, iframe[src*=\"hcaptcha.com\"], .cf-turnstile, iframe[src*=\"challenges.cloudflare.com\"]''"

definition classifyGenericPage :: "'d page_api \<Rightarrow> string \<Rightarrow> int \<Rightarrow> string \<Rightarrow> pageKind" where
  "classifyGenericPage api pageURL status html =
     (if (case pa_Parse api pageURL of
            Some u \<Rightarrow> Contains (Path u) ''/cdn-cgi/challenge-platform/'' | None \<Rightarrow> False)
      then pageChallenge
      else case pa_Document api html of
          None \<Rightarrow> pageNormal
        | Some doc \<Rightarrow>
            if 0 < pa_Find api doc challenge_selector \<or>
               (status = 403 \<or> status = 503) \<and>
                 HasPrefix (TrimSpace (pa_Title api doc)) ''Just a moment'' \<or>
               0 < pa_Find api doc vendor_selector then pageChallenge
            else if 400 \<le> status \<and> 0 < pa_Find api doc widget_selector then pageCaptcha
            else pageNormal)"

definition minShellText :: nat where "minShellText = 200"

definition executable_type :: "string \<Rightarrow> bool" where
  "executable_type t \<longleftrightarrow> ToLower (TrimSpace t) \<in>
     {'''', ''module'', ''text/javascript'', ''application/javascript'', ''text/ecmascript'',
      ''application/ecmascript''}"

definition looksLikeJSShell :: "'d page_api \<Rightarrow> string \<Rightarrow> bool" where
  "looksLikeJSShell api rawHTML = (case pa_Document api rawHTML of
       None \<Rightarrow> False
     | Some doc \<Rightarrow>
         if length (filter executable_type (pa_ScriptTypes api doc)) = 0 then False
         else length (join (Fields (pa_BodyText api doc)) '' '') < minShellText)"

definition isHTML :: "string \<Rightarrow> bool" where
  "isHTML contentType = (let ct = ToLower contentType in ct = [] \<or> Contains ct ''html'')"

definition maxBlockedBody :: nat where "maxBlockedBody = 256 * 1024"

definition truncate :: "string \<Rightarrow> nat \<Rightarrow> string" where
  "truncate s n = (if length s \<le> n then s else take n s)"

definition block_reason :: "pageKind \<Rightarrow> string option" where
  "block_reason kind = (case kind of
       pageCaptcha \<Rightarrow> Some ''captcha''
     | pageConsent \<Rightarrow> Some ''consent''
     | pageInterstitial \<Rightarrow> Some ''interstitial''
     | pageChallenge \<Rightarrow> Some ''challenge''
     | pageNormal \<Rightarrow> None)"

definition blockedErrorFor :: "pageKind \<Rightarrow> string \<Rightarrow> int \<Rightarrow> string \<Rightarrow> blocked_error option" where
  "blockedErrorFor kind pageURL status body = (case block_reason kind of
       None \<Rightarrow> None
     | Some reason \<Rightarrow> Some \<lparr>Reason = reason, be_URL = pageURL, be_StatusCode = status,
         be_Body = truncate body maxBlockedBody\<rparr>)"

subsection \<open>The JavaScript check of a raw page\<close>

text \<open>
  The two regular expressions of \<open>requiresJS\<close>. A match of \<open>noscriptBlock\<close> starts at a
  \<open><noscript\<close>, skips to the next \<open>>\<close> and captures up to the nearest closing tag; the search goes
  on behind it.
\<close>

definition prefix_ci :: "string \<Rightarrow> string \<Rightarrow> bool" where
  "prefix_ci s p \<longleftrightarrow> HasPrefix (ToLower s) p"

fun until_ci :: "string \<Rightarrow> string \<Rightarrow> (string \<times> string) option" where
  "until_ci p [] = (if p = [] then Some ([], []) else None)"
| "until_ci p (c # s) =
     (if prefix_ci (c # s) p then Some ([], drop (length p) (c # s))
      else map_option (\<lambda>(a, b). (c # a, b)) (until_ci p s))"

definition noscript_at :: "string \<Rightarrow> (string \<times> string) option" where
  "noscript_at s =
     (if prefix_ci s ''<noscript'' then
        (case Cut (drop 9 s) CHR ''>'' of
           Some (_, rest) \<Rightarrow> until_ci ''</noscript>'' rest
         | None \<Rightarrow> None)
      else None)"

lemma until_ci_shorter: "until_ci p s = Some (a, b) \<Longrightarrow> length b \<le> length s"
  by (induction p s arbitrary: a b rule: until_ci.induct) (force split: if_splits)+

lemma noscript_at_shorter: "noscript_at s = Some (m, b) \<Longrightarrow> length b < length s"
proof -
  assume "noscript_at s = Some (m, b)"
  then obtain a r where c: "Cut (drop 9 s) CHR ''>'' = Some (a, r)" and u: "until_ci ''</noscript>'' r = Some (m, b)"
    by (auto simp: noscript_at_def split: if_splits option.splits)
  from c have "drop 9 s = a @ CHR ''>'' # r" by (simp add: Cut_Some)
  then have "length (drop 9 s) = length a + Suc (length r)" by simp
  with until_ci_shorter [OF u] show ?thesis by simp
qed

function noscript_blocks :: "string \<Rightarrow> string list" where
  "noscript_blocks s = (case noscript_at s of
       Some (m, rest) \<Rightarrow> m # noscript_blocks rest
     | None \<Rightarrow> (case s of [] \<Rightarrow> [] | _ # t \<Rightarrow> noscript_blocks t))"
  by pat_completeness auto
termination
  by (relation "measure length") (auto dest: noscript_at_shorter)

declare noscript_blocks.simps [simp del]

definition re_space :: "char \<Rightarrow> bool" where
  "re_space c \<longleftrightarrow> byte c \<in> {9, 10, 12, 13, 32}"

definition metaRefresh_at :: "string \<Rightarrow> bool" where
  "metaRefresh_at s \<longleftrightarrow> prefix_ci s ''http-equiv'' \<and>
     (let t = dropWhile re_space (drop 10 s) in
      t \<noteq> [] \<and> hd t = CHR ''='' \<and>
      (let r = dropWhile re_space (tl t) in
       prefix_ci r ''refresh'' \<or>
       r \<noteq> [] \<and> byte (hd r) \<in> {34, 39} \<and> prefix_ci (tl r) ''refresh''))"

fun metaRefresh :: "string \<Rightarrow> bool" where
  "metaRefresh [] = False"
| "metaRefresh (c # s) = (metaRefresh_at (c # s) \<or> metaRefresh s)"

definition requiresJS :: "string \<Rightarrow> bool" where
  "requiresJS rawHTML =
     list_ex (\<lambda>m. metaRefresh m \<and> Contains m ''/httpservice/retry/enablejs'') (noscript_blocks rawHTML)"


subsection \<open>Classification\<close>

lemma errors_As_Cons:
  "error_chain e = x # xs \<Longrightarrow>
   errors_As sel e = (case sel x of Some v \<Rightarrow> Some v
     | None \<Rightarrow> (case List.map_filter sel xs of [] \<Rightarrow> None | y # _ \<Rightarrow> Some y))"
  by (simp add: errors_As_def map_filter_simps split: option.splits)

lemma errors_As_wrap [simp]:
  "errors_As sel (Wrapped s e) = (case sel (Wrapped s e) of Some v \<Rightarrow> Some v | None \<Rightarrow> errors_As sel e)"
  "errors_As sel (TransportError e) =
     (case sel (TransportError e) of Some v \<Rightarrow> Some v | None \<Rightarrow> errors_As sel e)"
  "errors_As sel (UrlError e) = (case sel (UrlError e) of Some v \<Rightarrow> Some v | None \<Rightarrow> errors_As sel e)"
  by (simp_all add: errors_As_def map_filter_simps split: option.split)

lemma errors_As_leaf [simp]:
  "error_chain e = [e] \<Longrightarrow> errors_As sel e = sel e"
  by (simp add: errors_As_Cons map_filter_simps split: option.splits)

lemma errors_Is_wrap [simp]:
  "errors_Is (Wrapped s e) t \<longleftrightarrow> t = Wrapped s e \<or> errors_Is e t"
  "errors_Is (TransportError e) t \<longleftrightarrow> t = TransportError e \<or> errors_Is e t"
  "errors_Is (UrlError e) t \<longleftrightarrow> t = UrlError e \<or> errors_Is e t"
  by (auto simp: errors_Is_def)

lemma Classify_Blocked [simp]: "Classify_error (BlockedError b) = blocked_outcome b"
  by (simp add: Classify_error_def)

lemma Classify_RateLimit [simp]: "Classify_error (RateLimitError r) = OutcomeRateLimited"
  by (simp add: Classify_error_def)

lemma Classify_Status [simp]:
  "Classify_error (StatusError c) = (if 500 \<le> c then OutcomeServerError else OutcomeClientError)"
  by (simp add: Classify_error_def)

lemma Classify_never_success: "Classify_error e \<noteq> OutcomeSuccess"
  by (simp add: Classify_error_def blocked_outcome_def split: option.split)

lemma Classify_success_iff: "Classify err = OutcomeSuccess \<longleftrightarrow> err = None"
  by (simp add: Classify_def Classify_never_success split: option.split)

text \<open>
  Wrapping an error (\<open>fmt.Errorf\<close> with \<open>%w\<close>) never changes how it is classified, and marking
  it as a transport error changes only what nothing else recognises: a rate limit, block page,
  status, cancellation or timeout inside it keeps its class. Exactly the nil error is a success.
\<close>

theorem Classify_wrapping:
  "Classify (Some (Wrapped s e)) = Classify (Some e) \<and>
   Classify (Some (TransportError e)) =
     (if Classify (Some e) = OutcomeOther then OutcomeTransport else Classify (Some e)) \<and>
   (Classify err = OutcomeSuccess \<longleftrightarrow> err = None)"
  by (simp add: Classify_success_iff)
     (simp add: Classify_def Classify_error_def blocked_outcome_def split: option.split)

definition kind_outcome :: "pageKind \<Rightarrow> outcome" where
  "kind_outcome kind = (case kind of pageNormal \<Rightarrow> OutcomeSuccess | pageConsent \<Rightarrow> OutcomeConsent
     | pageCaptcha \<Rightarrow> OutcomeCaptcha | pageInterstitial \<Rightarrow> OutcomeInterstitial
     | pageChallenge \<Rightarrow> OutcomeChallenge)"

lemma length_truncate: "length (truncate s n) \<le> n"
  by (simp add: truncate_def)

lemma truncate_prefix: "HasPrefix s (truncate s n)"
  by (simp add: truncate_def HasPrefix_def min_def)

text \<open>
  The kind of a page survives the trip through the error value: the error built for a page
  kind, however it is wrapped, classifies as that kind's outcome; a normal page gives no error;
  and the page kept for diagnostics is a prefix of at most 256 KiB of the one served.
\<close>

theorem block_kind_roundtrip:
  "Classify (map_option (\<lambda>b. Wrapped s (BlockedError b)) (blockedErrorFor kind u st body)) = kind_outcome kind \<and>
   (blockedErrorFor kind u st body = None \<longleftrightarrow> kind = pageNormal) \<and>
   pred_option (\<lambda>b. HasPrefix body (be_Body b) \<and> length (be_Body b) \<le> maxBlockedBody \<and>
     be_StatusCode b = st \<and> be_URL b = u) (blockedErrorFor kind u st body)"
  by (cases kind)
     (simp_all add: blockedErrorFor_def block_reason_def kind_outcome_def Classify_def
       blocked_outcome_def length_truncate truncate_prefix Classify_error_def)

subsection \<open>Retry-After\<close>

text \<open>
  A \<open>Retry-After\<close> of \<open>n\<close> seconds is read as exactly that duration for every \<open>n\<close> up to
  9223372036 (292 years), whatever date parser is used; and a header that is neither an integer
  nor a date, a negative number or a date in the past gives no duration.
\<close>

theorem parseRetryAfter_seconds:
  assumes "n \<le> 9223372036"
  shows "parseRetryAfter ParseTime now (itoa n) = (int n * Second, True)"
proof -
  have "int n \<le> 9223372036" using assms by linarith
  then have "int64 (int n * Second)" "int n < 2 ^ 63"
    by (simp_all add: int64_def Second_def)
  then show ?thesis by (simp add: parseRetryAfter_def Atoi_itoa wrap64_id)
qed

theorem parseRetryAfter_seconds_witness:
  "parseRetryAfter (\<lambda>h. None) 0 (itoa 120) = (120000000000, True)"
  using parseRetryAfter_seconds [of 120 "\<lambda>h. None" 0] by (simp add: Second_def)

lemma parseRetryAfter_rejects:
  "Atoi h = Some secs \<Longrightarrow> secs < 0 \<Longrightarrow> parseRetryAfter PT now h = (0, False)"
  "Atoi h = None \<Longrightarrow> PT h = None \<Longrightarrow> parseRetryAfter PT now h = (0, False)"
  "Atoi h = None \<Longrightarrow> PT h = Some t \<Longrightarrow> t < now \<Longrightarrow> parseRetryAfter PT now h = (0, False)"
  by (auto simp: parseRetryAfter_def)

text \<open>
  One second more and the multiplication by \<open>time.Second\<close> wraps: the header
  \<open>9223372037\<close> is accepted as a negative duration.
\<close>

theorem parseRetryAfter_overflow:
  "parseRetryAfter ParseTime now ''9223372037'' = (- 9223372036709551616, True)"
proof -
  have "Atoi ''9223372037'' = Some 9223372037"
    by (simp add: Atoi_def digit_def byte_def int64_def)
  then show ?thesis by (simp add: parseRetryAfter_def wrap64_def Second_def)
qed

end
