(* ===== verification/Worker_Pool.thy ===== *)
theory Worker_Pool
  imports Proxy_Pool Rate_Limiter Harvest_Metrics Fetch_Outcome Serp_Model
begin

text \<open>
  The acquisition loop of \<open>internal/worker/pool.go\<close>: choosing a proxy, waiting for the rate
  limiter, fetching, classifying the result and feeding it back to the proxy pool, the limiter
  and the metrics, with retries.

  The model is one job's run. What it shares with the other goroutines is the record \<open>net\<close>: the
  proxy pool and the limiter, both as modelled in their own theories, and the rest of the
  world \<open>'w\<close>. Everything the code does not own is the record \<open>env\<close> of functions: the fetcher,
  timers racing with the context, the context's error, the clock, random numbers, the token
  bucket of \<open>x/time/rate\<close>, and \<open>e_Others\<close>, which is what the other goroutines did to the shared
  state and how far time moved between two calls of this one. Counters are only ever
  incremented, atomically and without being read, so the model threads the increments of this
  job alone.

  Waiting for a proxy may last for ever when others keep cooling them, so the loop that does it
  is a partial function with \<open>None\<close> for not returning.
\<close>

subsection \<open>State and environment\<close>

record ('b, 'w) net =
  n_pool :: pool
  n_lim :: "'b limiter"
  n_world :: 'w

record ('b, 'w) env =
  e_Fetch :: "request \<Rightarrow> 'w \<Rightarrow> (go_error + response) \<times> 'w"
  e_Timer :: "duration \<Rightarrow> 'w \<Rightarrow> bool \<times> 'w"
  e_CtxErr :: "'w \<Rightarrow> go_error option"
  e_Now :: "'w \<Rightarrow> nat \<Rightarrow> instant"
  e_Intn :: "'w \<Rightarrow> nat"
  e_Float64 :: "'w \<Rightarrow> rat"
  e_Bucket :: "('b, 'w, go_error) bucket_api"
  e_Others :: "('b, 'w) net \<Rightarrow> ('b, 'w) net"

record worker =
  Concurrency :: int
  MaxRetries :: int
  MaxProxyWait :: duration
  w_UserAgent :: string

record dropped_error =
  d_Attempts :: nat
  Canceled :: bool
  d_Err :: "go_error option"

datatype acquire_result = AcqNil | AcqDropped dropped_error | AcqPanic

record ('b, 'w, 'u) state =
  st_net :: "('b, 'w) net"
  st_met :: counters
  st_lat :: "latency_recorder option"
  st_use :: 'u

text \<open>The three closures \<open>Acquire\<close> is called with; \<open>'u\<close> holds the variables \<open>use\<close> assigns.\<close>

record ('w, 'u) job_ops =
  build :: "'w \<Rightarrow> proxy \<Rightarrow> request"
  rateKey :: "(proxy \<Rightarrow> request \<Rightarrow> string) option"
  use :: "'w \<Rightarrow> response \<Rightarrow> proxy \<Rightarrow> 'u \<Rightarrow> go_error option \<times> 'u"

subsection \<open>Small operations\<close>

definition userAgents :: "string list" where
  "userAgents =
     [''Mozilla/5.0 (Windows NT 10.0; Win64; x64) web-harvester/0.1'',
      ''Mozilla/5.0 (Macintosh; Intel Mac OS X 10_15_7) web-harvester/0.1'',
      ''Mozilla/5.0 (X11; Linux x86_64) web-harvester/0.1'']"

definition userAgent :: "worker \<Rightarrow> nat \<Rightarrow> string" where
  "userAgent p r = (if w_UserAgent p \<noteq> [] then w_UserAgent p
     else userAgents ! (r mod length userAgents))"

fun proxyOutcome :: "outcome \<Rightarrow> proxy_outcome" where
  "proxyOutcome OutcomeSuccess = Success"
| "proxyOutcome OutcomeRateLimited = RateLimited"
| "proxyOutcome OutcomeCaptcha = Blocked"
| "proxyOutcome OutcomeInterstitial = Blocked"
| "proxyOutcome OutcomeChallenge = Blocked"
| "proxyOutcome OutcomeConsent = Neutral"
| "proxyOutcome OutcomeClientError = Neutral"
| "proxyOutcome OutcomeCanceled = Neutral"
| "proxyOutcome _ = Failure"

definition cooldownReason :: "outcome \<Rightarrow> string" where
  "cooldownReason out =
     (if out = OutcomeRateLimited then ''rate_limited''
      else if outcome_Blocked out then ''blocked''
      else ''failures'')"

definition localeCountry :: "string \<Rightarrow> string" where
  "localeCountry locale = (case Cut locale CHR ''-'' of None \<Rightarrow> '''' | Some (country, _) \<Rightarrow> country)"

definition localeLanguage :: "string \<Rightarrow> string" where
  "localeLanguage locale = (case Cut locale CHR ''-'' of None \<Rightarrow> '''' | Some (_, lang) \<Rightarrow> lang)"

text \<open>\<open>None\<close> is the panic of \<open>rand.Int63n\<close> on an argument that is not positive.\<close>

definition backoffDuration :: "nat \<Rightarrow> nat \<Rightarrow> duration option" where
  "backoffDuration attempt r =
     (let base = wrap64 (wrap64 (wrap64 (2 ^ attempt) * 50) * Millisecond);
          base = (if 2 * Second < base then 2 * Second else base);
          half = (if 0 \<le> base then base div 2 else - (- base div 2))
      in if half \<le> 0 then None else Some (base + int r mod half))"

definition sleepCtx :: "('b, 'w) env \<Rightarrow> duration \<Rightarrow> ('b, 'w) net \<Rightarrow> bool \<times> ('b, 'w) net" where
  "sleepCtx env d n =
     (if d \<le> 0 then (e_CtxErr env (n_world n) = None, e_Others env n)
      else let (fired, w) = e_Timer env d (n_world n)
           in (fired, e_Others env (n\<lparr>n_world := w\<rparr>)))"

subsection \<open>Waiting for a proxy\<close>

definition errAllBanned :: go_error where
  "errAllBanned = ErrorString ''proxy: all proxies are in cooldown''"

definition pool_next :: "('b, 'w) env \<Rightarrow> ('b, 'w) net \<Rightarrow> (proxy_error + nat) \<times> ('b, 'w) net" where
  "pool_next env n =
     (let w = n_world n;
          (pl, r) = Next (e_Now env w) (e_Intn env w) (e_Float64 env w) (n_pool n)
      in (r, e_Others env (n\<lparr>n_pool := pl\<rparr>)))"

partial_function (option) nextProxy_loop ::
    "('b, 'w) env \<Rightarrow> instant \<Rightarrow> ('b, 'w) net \<Rightarrow> ((nat option \<times> go_error option) \<times> ('b, 'w) net) option"
  where
  "nextProxy_loop env deadline n =
     (case pool_next env n of
        (Inr px, n) \<Rightarrow> Some ((Some px, None), n)
      | (Inl e, n) \<Rightarrow>
          (let till = NextAvailableAt (e_Now env (n_world n) 0) (n_pool n) in
           if IsZero till then nextProxy_loop env deadline n
           else if deadline < till then Some ((None, Some errAllBanned), n)
           else (case sleepCtx env (till - e_Now env (n_world n) 1) n of
                   (ok, n) \<Rightarrow>
                     if \<not> ok then Some ((None, e_CtxErr env (n_world n)), n)
                     else nextProxy_loop env deadline n)))"

definition nextProxy :: "('b, 'w) env \<Rightarrow> worker \<Rightarrow> ('b, 'w) net \<Rightarrow>
    ((nat option \<times> go_error option) \<times> ('b, 'w) net) option" where
  "nextProxy env p n =
     (let maxWait = (if MaxProxyWait p \<le> 0 then 2 * Minute else MaxProxyWait p);
          deadline = e_Now env (n_world n) 0 + maxWait
      in nextProxy_loop env deadline n)"

subsection \<open>Feedback\<close>

definition recordOutcome :: "('b, 'w) env \<Rightarrow> nat \<Rightarrow> string \<Rightarrow> outcome \<Rightarrow> go_error option \<Rightarrow>
    ('b, 'w, 'u) state \<Rightarrow> ('b, 'w, 'u) state" where
  "recordOutcome env px key out err st =
     (let n = st_net st;
          retryAfter = (case err of None \<Rightarrow> 0
             | Some e \<Rightarrow> (case errors_As as_RateLimit e of Some rl \<Rightarrow> RetryAfter rl | None \<Rightarrow> 0));
          (pl, cooled) = ReportOutcome (e_Now env (n_world n) 0) px (proxyOutcome out) retryAfter (n_pool n);
          met = (if cooled then IncProxyCooldown (cooldownReason out) (IncProxyBanned (st_met st))
                 else st_met st);
          n = n\<lparr>n_pool := pl\<rparr>
      in if out = OutcomeSuccess then
           st\<lparr>st_met := met,
              st_net := n\<lparr>n_lim := Reward (e_Bucket env) (e_Now env (n_world n) 1) key (n_lim n)\<rparr>\<rparr>
         else if out = OutcomeRateLimited \<or> outcome_Blocked out then
           (let (dec, lim) = Penalize (e_Bucket env) (e_Now env (n_world n) 1) key (n_lim n)
            in st\<lparr>st_met := (if dec then IncRateDecrease met else met), st_net := n\<lparr>n_lim := lim\<rparr>\<rparr>)
         else st\<lparr>st_met := met, st_net := n\<rparr>)"

subsection \<open>One attempt\<close>

text \<open>How an iteration of the loop ends: a return, a break or a continue.\<close>

datatype verdict = Return acquire_result | Break "go_error option" | Continue "go_error option" bool

definition canceled :: "nat \<Rightarrow> go_error option \<Rightarrow> verdict" where
  "canceled attempts err = Return (AcqDropped \<lparr>d_Attempts = attempts, Canceled = True, d_Err = err\<rparr>)"

definition do_fetch :: "('b, 'w) env \<Rightarrow> request \<Rightarrow> ('b, 'w, 'u) state \<Rightarrow>
    (go_error + response) \<times> ('b, 'w, 'u) state" where
  "do_fetch env req st =
     (let n = st_net st; (res, w) = e_Fetch env req (n_world n)
      in (res, st\<lparr>st_net := e_Others env (n\<lparr>n_world := w\<rparr>)\<rparr>))"

definition lim_wait :: "('b, 'w) env \<Rightarrow> string \<Rightarrow> ('b, 'w, 'u) state \<Rightarrow>
    go_error option \<times> ('b, 'w, 'u) state" where
  "lim_wait env key st =
     (let n = st_net st; (err, lim) = Wait (e_Bucket env) (n_world n) key (n_lim n)
      in (err, st\<lparr>st_net := e_Others env (n\<lparr>n_lim := lim\<rparr>)\<rparr>))"

text \<open>From the fetch to the end of the iteration, for the proxy \<open>px\<close> and limiter key \<open>key\<close>.\<close>

definition fetch_phase :: "('b, 'w) env \<Rightarrow> ('w, 'u) job_ops \<Rightarrow> nat \<Rightarrow> string \<Rightarrow> request \<Rightarrow> nat \<Rightarrow>
    ('b, 'w, 'u) state \<Rightarrow> verdict \<times> nat \<times> ('b, 'w, 'u) state" where
  "fetch_phase env job px key req attempts st =
     (let attempts = attempts + 1;
          (res, st) = do_fetch env req st;
          err = (case res of Inl e \<Rightarrow> Some e | Inr _ \<Rightarrow> None);
          out = Classify err;
          out = (if err \<noteq> None \<and> e_CtxErr env (n_world (st_net st)) \<noteq> None then OutcomeCanceled else out);
          st = st\<lparr>st_met := IncOutcome (outcome_String out) (st_met st)\<rparr>;
          st = recordOutcome env px key out err st
      in case res of
           Inl e \<Rightarrow>
             if out = OutcomeCanceled then (canceled attempts (Some e), attempts, st)
             else (let st = st\<lparr>st_met := IncFailure (st_met st)\<rparr> in
                   if \<not> Retryable out then (Break (Some e), attempts, st)
                   else (Continue (Some e) (out = OutcomeRateLimited \<or> outcome_Blocked out), attempts, st))
         | Inr resp \<Rightarrow>
             (let st = st\<lparr>st_lat := map_option (Record (Latency resp)) (st_lat st)\<rparr>;
                  n = st_net st;
                  (uerr, u) = use job (n_world n) resp (obj (n_pool n) px) (st_use st);
                  st = st\<lparr>st_use := u\<rparr>
              in case uerr of
                   Some e \<Rightarrow> (Continue (Some e) False, attempts, st\<lparr>st_met := IncFailure (st_met st)\<rparr>)
                 | None \<Rightarrow> (Return AcqNil, attempts, st)))"

definition attempt_body :: "('b, 'w) env \<Rightarrow> worker \<Rightarrow> ('w, 'u) job_ops \<Rightarrow> nat \<Rightarrow>
    ('b, 'w, 'u) state \<Rightarrow> (verdict \<times> nat \<times> ('b, 'w, 'u) state) option" where
  "attempt_body env p job attempts st =
     (case nextProxy env p (st_net st) of
        None \<Rightarrow> None
      | Some ((pxo, Some e), n) \<Rightarrow>
          (let st = st\<lparr>st_net := n\<rparr> in
           case e_CtxErr env (n_world n) of
             Some ce \<Rightarrow> Some (canceled attempts (Some ce), attempts, st)
           | None \<Rightarrow> Some (Continue (Some e) False, attempts, st))
      | Some ((None, None), n) \<Rightarrow> Some (Return AcqPanic, attempts, st\<lparr>st_net := n\<rparr>)
      | Some ((Some px, None), n) \<Rightarrow>
          (let st = st\<lparr>st_net := n\<rparr>;
               pr = obj (n_pool n) px;
               req = build job (n_world n) pr;
               key = (case rateKey job of None \<Rightarrow> Key pr | Some f \<Rightarrow> f pr req);
               (werr, st) = lim_wait env key st
           in case werr of
                Some e \<Rightarrow> Some (canceled attempts (Some e), attempts, st)
              | None \<Rightarrow> Some (fetch_phase env job px key req attempts st)))"

text \<open>The start of a retry: count it and, unless the last attempt failed over, back off.\<close>

definition retry_pause :: "('b, 'w) env \<Rightarrow> nat \<Rightarrow> bool \<Rightarrow> nat \<Rightarrow> ('b, 'w, 'u) state \<Rightarrow>
    acquire_result option \<times> ('b, 'w, 'u) state" where
  "retry_pause env attempt failover attempts st =
     (if attempt = 0 then (None, st)
      else let st = st\<lparr>st_met := IncRetried (st_met st)\<rparr> in
        if failover then (None, st)
        else case backoffDuration attempt (e_Intn env (n_world (st_net st))) of
            None \<Rightarrow> (Some AcqPanic, st)
          | Some d \<Rightarrow>
              (let (ok, n) = sleepCtx env d (st_net st); st = st\<lparr>st_net := n\<rparr> in
               if ok then (None, st)
               else (Some (AcqDropped \<lparr>d_Attempts = attempts, Canceled = True,
                       d_Err = e_CtxErr env (n_world n)\<rparr>), st)))"

subsection \<open>The loop\<close>

text \<open>\<open>k\<close> is the number of iterations left, \<open>MaxRetries + 1 - attempt\<close>.\<close>

fun Acquire_loop :: "('b, 'w) env \<Rightarrow> worker \<Rightarrow> ('w, 'u) job_ops \<Rightarrow> nat \<Rightarrow> nat \<Rightarrow> bool \<Rightarrow> nat \<Rightarrow>
    go_error option \<Rightarrow> ('b, 'w, 'u) state \<Rightarrow> (acquire_result \<times> ('b, 'w, 'u) state) option" where
  "Acquire_loop env p job 0 attempt failover attempts lastErr st =
     Some (AcqDropped \<lparr>d_Attempts = attempts, Canceled = False, d_Err = lastErr\<rparr>, st)"
| "Acquire_loop env p job (Suc k) attempt failover attempts lastErr st =
     (case retry_pause env attempt failover attempts st of
        (Some r, st) \<Rightarrow> Some (r, st)
      | (None, st) \<Rightarrow>
          (case attempt_body env p job attempts st of
             None \<Rightarrow> None
           | Some (Return r, attempts, st) \<Rightarrow> Some (r, st)
           | Some (Break e, attempts, st) \<Rightarrow>
               Some (AcqDropped \<lparr>d_Attempts = attempts, Canceled = False, d_Err = e\<rparr>, st)
           | Some (Continue e fo, attempts, st) \<Rightarrow>
               Acquire_loop env p job k (attempt + 1) fo attempts e st))"

definition Acquire :: "('b, 'w) env \<Rightarrow> worker \<Rightarrow> ('w, 'u) job_ops \<Rightarrow> ('b, 'w, 'u) state \<Rightarrow>
    (acquire_result \<times> ('b, 'w, 'u) state) option" where
  "Acquire env p job st = Acquire_loop env p job (nat (MaxRetries p + 1)) 0 False 0 None st"


subsection \<open>A job of the search harvester\<close>

definition serp_build :: "('b, 'w) env \<Rightarrow> worker \<Rightarrow> job \<Rightarrow> 'w \<Rightarrow> proxy \<Rightarrow> request" where
  "serp_build env p jb w px =
     \<lparr>Query = job_Query jb, req_URL = '''', UserAgent = userAgent p (e_Intn env w),
      ProxyURL = px_URL px, Country = localeCountry (job_Locale jb),
      Language = localeLanguage (job_Locale jb), Device = job_Device jb, WaitSelector = ''''\<rparr>"

definition serp_use :: "('b, 'w) env \<Rightarrow> (string \<Rightarrow> string \<Rightarrow> go_error + serp_result) \<Rightarrow> job \<Rightarrow>
    'w \<Rightarrow> response \<Rightarrow> proxy \<Rightarrow> serp_result option \<Rightarrow> go_error option \<times> serp_result option" where
  "serp_use env parse jb w resp px res = (case parse (job_Query jb) (Body resp) of
       Inl e \<Rightarrow> (Some e, res)
     | Inr r \<Rightarrow>
         (let r = r\<lparr>sr_LatencyMS := Milliseconds (Latency resp), sr_ProxyUsed := Key px,
                    sr_FetchedAt := e_Now env w 0, sr_RunID := job_RunID jb,
                    sr_Locale := job_Locale jb, sr_Device := job_Device jb\<rparr>;
              r = (if Calibration r \<noteq> None then r\<lparr>sr_RawBody := Body resp\<rparr> else r)
          in (None, Some r)))"

definition serp_ops :: "('b, 'w) env \<Rightarrow> worker \<Rightarrow> (string \<Rightarrow> string \<Rightarrow> go_error + serp_result) \<Rightarrow> job \<Rightarrow>
    ('w, serp_result option) job_ops" where
  "serp_ops env p parse jb =
     \<lparr>build = serp_build env p jb, rateKey = None, use = serp_use env parse jb\<rparr>"

text \<open>
  \<open>process\<close>: the sink's \<open>Write\<close> is the parameter \<open>write\<close> on a sink state \<open>'s\<close>; its error is only
  logged. The result says how \<open>Acquire\<close> ended.
\<close>

definition process :: "('b, 'w) env \<Rightarrow> worker \<Rightarrow> (string \<Rightarrow> string \<Rightarrow> go_error + serp_result) \<Rightarrow>
    (serp_result \<Rightarrow> 's \<Rightarrow> go_error option \<times> 's) \<Rightarrow> job \<Rightarrow> ('b, 'w, serp_result option) state \<Rightarrow> 's \<Rightarrow>
    (acquire_result \<times> ('b, 'w, serp_result option) state \<times> 's) option" where
  "process env p parse write jb st sink =
     (case Acquire env p (serp_ops env p parse jb) (st\<lparr>st_use := None\<rparr>) of
        None \<Rightarrow> None
      | Some (AcqPanic, st) \<Rightarrow> Some (AcqPanic, st, sink)
      | Some (AcqDropped d, st) \<Rightarrow> Some (AcqDropped d, st\<lparr>st_met := IncDropped (st_met st)\<rparr>, sink)
      | Some (AcqNil, st) \<Rightarrow>
          (case st_use st of
             None \<Rightarrow> Some (AcqPanic, st, sink)
           | Some r \<Rightarrow>
               (let (werr, sink) = write r sink;
                    met = IncSuccess (st_met st);
                    met = (if AIOverview r \<noteq> None then IncAIOverviewPresent met else met);
                    met = (if Calibration r \<noteq> None then IncCalibrationFlagged met else met)
                in Some (AcqNil, st\<lparr>st_met := met\<rparr>, sink))))"

subsection \<open>The ledger of one call\<close>

definition tally :: "labeledCounter \<Rightarrow> 64 word" where
  "tally m = sum_list (map snd m)"

lemma tally_update:
  "tally (AList.update k v m) = (case map_of m k of Some c \<Rightarrow> tally m - c + v | None \<Rightarrow> tally m + v)"
  by (induction m) (auto simp: tally_def split: option.splits)

lemma tally_inc [simp]: "tally (inc l m) = tally m + 1"
  by (auto simp: inc_def slot_def Let_def tally_update update_conv' split: option.splits)

text \<open>
  \<open>booked m m' a f k\<close>: between \<open>m\<close> and \<open>m'\<close>, \<open>a\<close> fetches were counted by outcome, \<open>f\<close> as failures
  and \<open>k\<close> retries, and no job was counted as finished.
\<close>

definition booked :: "counters \<Rightarrow> counters \<Rightarrow> nat \<Rightarrow> nat \<Rightarrow> nat \<Rightarrow> bool" where
  "booked m m' a f k \<longleftrightarrow>
     tally (outcomes m') = tally (outcomes m) + of_nat a \<and> c_Failure m' = c_Failure m + of_nat f \<and>
     c_Retried m' = c_Retried m + of_nat k \<and> c_Success m' = c_Success m \<and> c_Dropped m' = c_Dropped m"

lemma booked_refl [simp]: "booked m m 0 0 0"
  by (simp add: booked_def)

lemma booked_trans:
  "booked m m' a f k \<Longrightarrow> booked m' m'' a' f' k' \<Longrightarrow> booked m m'' (a + a') (f + f') (k + k')"
  by (simp add: booked_def)

lemma booked_steps [simp]:
  "booked m (IncOutcome l m) 1 0 0" "booked m (IncFailure m) 0 1 0" "booked m (IncRetried m) 0 0 1"
  "booked m (IncProxyBanned m) 0 0 0" "booked m (IncProxyCooldown l m) 0 0 0"
  "booked m (IncRateDecrease m) 0 0 0"
  by (simp_all add: booked_def metric_defs)

lemma booked_cooled [simp]: "booked m (IncProxyCooldown l (IncProxyBanned m)) 0 0 0"
  by (simp add: booked_def metric_defs)

lemma recordOutcome_booked: "booked (st_met st) (st_met (recordOutcome env px key out err st)) 0 0 0"
  by (auto simp: recordOutcome_def Let_def case_prod_unfold booked_def metric_defs)

lemma recordOutcome_frame [simp]:
  "st_use (recordOutcome env px key out err st) = st_use st"
  "st_lat (recordOutcome env px key out err st) = st_lat st"
  "n_world (st_net (recordOutcome env px key out err st)) = n_world (st_net st)"
  by (simp_all add: recordOutcome_def Let_def case_prod_unfold)

lemma do_fetch_met [simp]:
  "st_met (snd (do_fetch env req st)) = st_met st" "st_use (snd (do_fetch env req st)) = st_use st"
  by (simp_all add: do_fetch_def Let_def case_prod_unfold)

lemma lim_wait_met [simp]:
  "st_met (snd (lim_wait env key st)) = st_met st" "st_use (snd (lim_wait env key st)) = st_use st"
  by (simp_all add: lim_wait_def Let_def case_prod_unfold)

text \<open>The failures an iteration books, by how it ends.\<close>

fun verdict_ok :: "verdict \<Rightarrow> nat \<Rightarrow> nat \<Rightarrow> nat \<Rightarrow> bool" where
  "verdict_ok (Return AcqNil) total_att a f = (a = 1 \<and> f = 0)"
| "verdict_ok (Return (AcqDropped d)) total_att a f = (Canceled d \<and> d_Attempts d = total_att \<and> f = 0)"
| "verdict_ok (Return AcqPanic) total_att a f = (a = 0 \<and> f = 0)"
| "verdict_ok (Break e) total_att a f = (a = f)"
| "verdict_ok (Continue e fo) total_att a f = (a = f)"

lemma fetch_phase_booked:
  assumes "fetch_phase env job px key req attempts st = (v, attempts', st')"
  shows "attempts' = attempts + 1 \<and>
    (\<exists>f. booked (st_met st) (st_met st') 1 f 0 \<and> verdict_ok v attempts' 1 f)"
proof -
  obtain res st1 where d: "do_fetch env req st = (res, st1)" by force
  then have m1: "st_met st1 = st_met st" using do_fetch_met(1) [of env req st] by simp
  define err where "err = (case res of Inl e \<Rightarrow> Some e | Inr _ \<Rightarrow> None)"
  define out where "out = (if err \<noteq> None \<and> e_CtxErr env (n_world (st_net st1)) \<noteq> None
    then OutcomeCanceled else Classify err)"
  define st2 where "st2 = recordOutcome env px key out err
    (st1\<lparr>st_met := IncOutcome (outcome_String out) (st_met st1)\<rparr>)"
  have "booked (st_met st) (IncOutcome (outcome_String out) (st_met st1)) 1 0 0"
    unfolding m1 by (rule booked_steps(1))
  moreover have "booked (IncOutcome (outcome_String out) (st_met st1)) (st_met st2) 0 0 0"
    using recordOutcome_booked [of "st1\<lparr>st_met := IncOutcome (outcome_String out) (st_met st1)\<rparr>"]
    by (simp add: st2_def)
  ultimately have b2: "booked (st_met st) (st_met st2) 1 0 0" using booked_trans by fastforce
  have b3: "booked (st_met st) (IncFailure (st_met st2)) 1 1 0"
    using booked_trans [OF b2 booked_steps(2)] by simp
  show ?thesis
    using assms b2 b3
    unfolding fetch_phase_def Let_def d prod.case err_def [symmetric] out_def [symmetric] st2_def [symmetric]
    by (auto simp: canceled_def case_prod_unfold split: sum.splits if_splits option.splits)
qed


lemma attempt_body_booked:
  assumes "attempt_body env p job attempts st = Some (v, attempts', st')"
  shows "\<exists>a f. attempts' = attempts + a \<and> a \<le> 1 \<and> booked (st_met st) (st_met st') a f 0 \<and>
    verdict_ok v attempts' a f"
proof -
  obtain pxo err n where nx: "nextProxy env p (st_net st) = Some ((pxo, err), n)"
    using assms by (cases "nextProxy env p (st_net st)") (auto simp: attempt_body_def)
  consider e where "err = Some e" | "err = None" "pxo = None" | px where "err = None" "pxo = Some px"
    by (cases err; cases pxo) auto
  then show ?thesis
  proof cases
    case 3
    define pr where "pr = obj (n_pool n) px"
    define req where "req = build job (n_world n) pr"
    define key where "key = (case rateKey job of None \<Rightarrow> Key pr | Some f \<Rightarrow> f pr req)"
    obtain werr st1 where w: "lim_wait env key (st\<lparr>st_net := n\<rparr>) = (werr, st1)" by force
    then have m: "st_met st1 = st_met st" using lim_wait_met(1) [of env key "st\<lparr>st_net := n\<rparr>"] by simp
    have body: "attempt_body env p job attempts st = (case werr of
        Some e \<Rightarrow> Some (canceled attempts (Some e), attempts, st1)
      | None \<Rightarrow> Some (fetch_phase env job px key req attempts st1))"
      unfolding attempt_body_def nx [unfolded 3] Let_def option.case prod.case
        pr_def [symmetric] req_def [symmetric] key_def [symmetric] w ..
    show ?thesis
    proof (cases werr)
      case None
      then have "fetch_phase env job px key req attempts st1 = (v, attempts', st')"
        using assms body by simp
      from fetch_phase_booked [OF this] m obtain f where "attempts' = attempts + 1"
        "booked (st_met st) (st_met st') 1 f 0" "verdict_ok v attempts' 1 f" by auto
      then show ?thesis by (intro exI [of _ 1] exI [of _ f]) simp
    next
      case (Some e)
      then show ?thesis using assms body m by (intro exI [of _ 0]) (auto simp: canceled_def)
    qed
  qed (use assms nx in \<open>auto simp: attempt_body_def canceled_def Let_def split: option.splits\<close>)
qed

lemma retry_pause_booked:
  assumes "retry_pause env attempt failover attempts st = (r, st')"
  shows "booked (st_met st) (st_met st') 0 0 (if attempt = 0 then 0 else 1) \<and> st_use st' = st_use st \<and>
    (case r of None \<Rightarrow> True | Some AcqNil \<Rightarrow> False
     | Some (AcqDropped d) \<Rightarrow> Canceled d \<and> d_Attempts d = attempts | Some AcqPanic \<Rightarrow> True)"
  using assms booked_steps(3) [of "st_met st"]
  by (auto simp: retry_pause_def Let_def case_prod_unfold split: if_splits option.splits)

definition ledger_ok :: "acquire_result \<Rightarrow> nat \<Rightarrow> nat \<Rightarrow> bool" where
  "ledger_ok r a f = (case r of
       AcqNil \<Rightarrow> a = f + 1
     | AcqDropped d \<Rightarrow> d_Attempts d = a \<and> (if Canceled d then f = a \<or> f + 1 = a else f = a)
     | AcqPanic \<Rightarrow> f = a)"

lemma Acquire_loop_booked:
  assumes "Acquire_loop env p job k attempt failover attempts lastErr st = Some (r, st')"
  shows "\<exists>a f i. booked (st_met st) (st_met st') a f i \<and> a \<le> k \<and>
    i \<le> (if attempt = 0 then k - 1 else k) \<and>
    (ledger_ok r (attempts + a) (attempts + f))"
  using assms
proof (induction k arbitrary: attempt failover attempts lastErr st)
  case 0
  then show ?case by (intro exI [of _ 0]) (auto simp: ledger_ok_def)
next
  case (Suc k)
  obtain r1 st1 where rp: "retry_pause env attempt failover attempts st = (r1, st1)" by force
  note B1 = retry_pause_booked [OF rp]
  let ?i = "if attempt = 0 then 0 else 1 :: nat"
  have b1: "booked (st_met st) (st_met st1) 0 0 ?i" using B1 by simp
  show ?case
  proof (cases r1)
    case (Some r')
    then have "r = r'" "st' = st1" using Suc.prems rp by simp_all
    with Some B1 b1 show ?thesis
      by (intro exI [of _ 0] exI [of _ ?i])
         (auto simp: ledger_ok_def split: acquire_result.splits)
  next
    case None
    then obtain v attempts' st2 where ab: "attempt_body env p job attempts st1 = Some (v, attempts', st2)"
      using Suc.prems rp by (auto split: option.splits)
    from attempt_body_booked [OF ab] obtain a f where
      B2: "attempts' = attempts + a" "a \<le> 1" "booked (st_met st1) (st_met st2) a f 0"
        "verdict_ok v attempts' a f" by blast
    have b2: "booked (st_met st) (st_met st2) a f ?i"
      using booked_trans [OF b1 B2(3)] by simp
    show ?thesis
    proof (cases v)
      case (Return r')
      then have "r = r'" "st' = st2" using Suc.prems rp None ab by simp_all
      with b2 B2 Return show ?thesis
        by (intro exI [of _ a] exI [of _ f] exI [of _ ?i], cases r')
           (auto simp: ledger_ok_def le_Suc_eq)
    next
      case (Break e)
      then have "r = AcqDropped \<lparr>d_Attempts = attempts', Canceled = False, d_Err = e\<rparr>" "st' = st2"
        using Suc.prems rp None ab by simp_all
      with b2 B2 Break show ?thesis
        by (intro exI [of _ a] exI [of _ f] exI [of _ ?i]) (auto simp: ledger_ok_def)
    next
      case (Continue e fo)
      then have "Acquire_loop env p job k (attempt + 1) fo attempts' e st2 = Some (r, st')"
        using Suc.prems rp None ab by simp
      from Suc.IH [OF this] obtain a' f' i' where
        IH: "booked (st_met st2) (st_met st') a' f' i'" "a' \<le> k" "i' \<le> k"
          "ledger_ok r (attempts' + a') (attempts' + f')" by auto
      have "booked (st_met st) (st_met st') (a + a') (f + f') (?i + i')"
        by (rule booked_trans [OF b2 IH(1)])
      with IH B2 Continue show ?thesis
        by (intro exI [of _ "a + a'"] exI [of _ "f + f'"] exI [of _ "?i + i'"])
           (auto simp: add.assoc)
    qed
  qed
qed


subsection \<open>A concrete environment\<close>

text \<open>
  For the witnesses: the world is the list of answers the fetcher will give, nobody else runs,
  the context does not end and every timer fires at once.
\<close>

definition scripted :: "(rat \<times> int, (go_error + response) list) env" where
  "scripted = \<lparr>e_Fetch = (\<lambda>req w. case w of [] \<Rightarrow> (Inl (ErrorString ''eof''), []) | x # xs \<Rightarrow> (x, xs)),
     e_Timer = (\<lambda>d w. (True, w)), e_CtxErr = (\<lambda>w. None), e_Now = (\<lambda>w i. 1), e_Intn = (\<lambda>w. 0),
     e_Float64 = (\<lambda>w. 0),
     e_Bucket = \<lparr>api_NewLimiter = (\<lambda>r n. (r, n)), api_Limit = fst,
       api_SetLimit = (\<lambda>r t b. (r, snd b)), api_Wait = (\<lambda>c b. (None, b))\<rparr>,
     e_Others = (\<lambda>n. n)\<rparr>"

definition answer :: response where
  "answer = \<lparr>StatusCode = 200, Body = ''<html>'', Latency = 5 * Millisecond, ContentType = ''text/html'',
     FinalURL = ''''\<rparr>"

definition scripted_state :: "(go_error + response) list \<Rightarrow> 'u \<Rightarrow>
    (rat \<times> int, (go_error + response) list, 'u) state" where
  "scripted_state w u = \<lparr>st_net = \<lparr>n_pool = NewPool [''p'', ''q''] 3 Second, n_lim = NewAdaptive 8 1 1, n_world = w\<rparr>,
     st_met = zero_counters, st_lat = None, st_use = u\<rparr>"

definition plain_ops :: "((go_error + response) list, nat) job_ops" where
  "plain_ops = \<lparr>build = (\<lambda>w px. \<lparr>Query = ''q'', req_URL = '''', UserAgent = '''', ProxyURL = px_URL px,
       Country = '''', Language = '''', Device = '''', WaitSelector = ''''\<rparr>),
     rateKey = None, use = (\<lambda>w resp px u. (None, u + 1))\<rparr>"

definition three_tries :: worker where
  "three_tries = \<lparr>Concurrency = 1, MaxRetries = 2, MaxProxyWait = 0, w_UserAgent = ''''\<rparr>"

declare nextProxy_loop.simps [code]

lemma scripted_run:
  "map_option (\<lambda>(r, st). (r, st_use st, c_Failure (st_met st), c_Retried (st_met st)))
     (Acquire scripted three_tries plain_ops
        (scripted_state [Inl (StatusError 503), Inr answer] 0)) = Some (AcqNil, 1, 1, 1)"
  by code_simp


subsection \<open>Accounting\<close>



subsection \<open>Backoff\<close>

lemma backoff_base:
  assumes "attempt \<le> 37"
  shows "wrap64 (wrap64 (wrap64 (2 ^ attempt) * 50) * Millisecond) = 2 ^ attempt * 50 * Millisecond"
proof -
  have "(2::int) ^ attempt \<le> 2 ^ 37" using assms by (intro power_increasing) simp_all
  moreover define x where "x = (2::int) ^ attempt"
  ultimately have b: "0 \<le> x" "x \<le> 137438953472" by simp_all
  then have "int64 x" "int64 (x * 50)" "int64 (x * 50 * Millisecond)"
    by (simp_all add: int64_def Millisecond_def)
  then show ?thesis unfolding x_def [symmetric] by (simp only: wrap64_id)
qed

lemma backoff_value:
  assumes "1 \<le> attempt" "attempt \<le> 37"
  shows "\<exists>d. backoffDuration attempt r = Some d \<and>
    min (2 * Second) (2 ^ attempt * 50 * Millisecond) \<le> d \<and>
    2 * d < 3 * min (2 * Second) (2 ^ attempt * 50 * Millisecond)"
proof -
  define base where "base = min (2 * Second) (2 ^ attempt * 50 * Millisecond)"
  have "(2::int) ^ 1 \<le> 2 ^ attempt" using assms by (intro power_increasing) simp_all
  then have pos: "100 * Millisecond \<le> base" by (simp add: base_def Second_def Millisecond_def)
  have half: "0 < base div 2" using pos by (simp add: Millisecond_def)
  have "backoffDuration attempt r = Some (base + int r mod (base div 2))"
    using half pos unfolding backoffDuration_def backoff_base [OF assms(2)]
    by (simp add: Let_def base_def min_def Millisecond_def split: if_splits)
  moreover have "0 \<le> int r mod (base div 2)" "int r mod (base div 2) < base div 2"
    using half by simp_all
  ultimately show ?thesis unfolding base_def [symmetric]
    by (intro exI [of _ "base + int r mod (base div 2)"]) auto
qed

text \<open>
  The backoff before retry \<open>attempt\<close>, up to the 37th, is at least \<open>min 2s (2 ^ attempt * 50ms)\<close>
  and less than one and a half times that, for every random draw: exponential, jittered and
  capped, with no overflow.
\<close>

theorem backoffDuration_bounds:
  assumes "1 \<le> attempt" "attempt \<le> 37"
  shows "\<exists>d. backoffDuration attempt r = Some d \<and>
    min (2 * Second) (2 ^ attempt * 50 * Millisecond) \<le> d \<and>
    2 * d < 3 * min (2 * Second) (2 ^ attempt * 50 * Millisecond)"
  using assms by (rule backoff_value)

theorem backoffDuration_bounds_witness:
  "\<exists>d. backoffDuration 3 12345678 = Some d \<and> 400000000 \<le> d \<and> d < 600000000"
  using backoffDuration_bounds [of 3 12345678] by (simp add: Second_def Millisecond_def min_def)

text \<open>
  The 38th retry panics whatever the random draw: \<open>2 ^ 38 * 50ms\<close> wraps to a negative
  duration, which escapes the cap, and \<open>rand.Int63n\<close> rejects its half.
\<close>

theorem backoffDuration_panics: "backoffDuration 38 r = None"
  by (simp add: backoffDuration_def Let_def wrap64_def Second_def Millisecond_def)

subsection \<open>Waiting for a proxy\<close>

text \<open>
  What the code relies on of contexts and of the other goroutines: a timer loses only to a
  context that has ended, an ended context stays ended, and the others keep the pool's
  invariant and its objects (they use its operations only).
\<close>

definition env_laws :: "('b, 'w) env \<Rightarrow> bool" where
  "env_laws env \<longleftrightarrow>
     (\<forall>d w w'. e_Timer env d w = (False, w') \<longrightarrow> e_CtxErr env w' \<noteq> None) \<and>
     (\<forall>n. e_CtxErr env (n_world n) \<noteq> None \<longrightarrow> e_CtxErr env (n_world (e_Others env n)) \<noteq> None) \<and>
     (\<forall>n. pool_wf (n_pool n) \<longrightarrow> pool_wf (n_pool (e_Others env n))) \<and>
     (\<forall>n. length (objs (n_pool n)) \<le> length (objs (n_pool (e_Others env n))))"

definition chosen :: "('b, 'w) env \<Rightarrow> nat \<Rightarrow> ('b, 'w) net \<Rightarrow> bool" where
  "chosen env px n \<longleftrightarrow> pool_wf (n_pool n) \<and> px \<in> set (proxies (n_pool n)) \<and>
     (\<exists>i. \<not> isBanned (e_Now env (n_world n) i) (obj (n_pool n) px))"

definition next_ok :: "('b, 'w) env \<Rightarrow> instant \<Rightarrow> ((nat option \<times> go_error option) \<times> ('b, 'w) net) \<Rightarrow> bool" where
  "next_ok env deadline res \<longleftrightarrow> pool_wf (n_pool (snd res)) \<and>
     (case fst res of
        (Some px, err) \<Rightarrow> err = None \<and> px < length (objs (n_pool (snd res))) \<and> (\<exists>m. chosen env px m)
      | (None, None) \<Rightarrow> False
      | (None, Some e) \<Rightarrow> e_CtxErr env (n_world (snd res)) \<noteq> None \<or>
          e = errAllBanned \<and> deadline < NextAvailableAt (e_Now env (n_world (snd res)) 0) (n_pool (snd res)))"

lemma sleepCtx_laws:
  assumes "env_laws env" "sleepCtx env d n = (ok, n')"
  shows "pool_wf (n_pool n) \<Longrightarrow> pool_wf (n_pool n')"
    and "\<not> ok \<Longrightarrow> e_CtxErr env (n_world n') \<noteq> None"
proof -
  obtain fired w where t: "e_Timer env d (n_world n) = (fired, w)" by force
  have r: "(ok, n') = (if d \<le> 0 then (e_CtxErr env (n_world n) = None, e_Others env n)
      else (fired, e_Others env (n\<lparr>n_world := w\<rparr>)))"
    using assms(2) unfolding sleepCtx_def t Let_def prod.case by (rule sym)
  show "pool_wf (n_pool n) \<Longrightarrow> pool_wf (n_pool n')"
    using r assms(1) by (simp add: env_laws_def split: if_splits)
  have "\<not> fired \<Longrightarrow> e_CtxErr env w \<noteq> None" using assms(1) t by (simp add: env_laws_def)
  then have "\<not> fired \<Longrightarrow> e_CtxErr env (n_world (e_Others env (n\<lparr>n_world := w\<rparr>))) \<noteq> None"
    using assms(1) by (simp add: env_laws_def)
  then show "\<not> ok \<Longrightarrow> e_CtxErr env (n_world n') \<noteq> None"
    using r assms(1) by (simp add: env_laws_def split: if_splits)
qed

lemma others_objs:
  "env_laws env \<Longrightarrow> length (objs (n_pool n)) \<le> length (objs (n_pool (e_Others env n)))"
  by (simp add: env_laws_def)

lemma pool_next_ok:
  assumes "env_laws env" "pool_wf (n_pool n)" "pool_next env n = (res, n')"
  shows "pool_wf (n_pool n')" "\<And>px. res = Inr px \<Longrightarrow> chosen env px n"
    "\<And>px. res = Inr px \<Longrightarrow> px < length (objs (n_pool n'))"
proof -
  define r where "r = Next (e_Now env (n_world n)) (e_Intn env (n_world n)) (e_Float64 env (n_world n)) (n_pool n)"
  have wf: "pool_wf (fst r)" unfolding r_def by (rule Next_wf [OF assms(2)])
  have post: "next_post (e_Now env (n_world n)) (n_pool n) r" unfolding r_def by (rule Next_post [OF assms(2)])
  have n': "n' = e_Others env (n\<lparr>n_pool := fst r\<rparr>)" and res: "res = snd r"
    using assms(3) by (simp_all add: pool_next_def r_def Let_def case_prod_unfold)
  show "pool_wf (n_pool n')" using assms(1) wf by (simp add: n' env_laws_def)
  show "chosen env px n" if "res = Inr px" for px
    using post that assms(2) by (auto simp: res next_post_def chosen_def)
  show "px < length (objs (n_pool n'))" if "res = Inr px" for px
  proof -
    have "px \<in> set (proxies (n_pool n)) \<and> length (objs (fst r)) = length (objs (n_pool n))"
      using post that by (auto simp: res next_post_def markUsed_def)
    then have "px < length (objs (fst r))" using pool_wf_mem [OF assms(2)] by simp
    also have "\<dots> \<le> length (objs (n_pool n'))"
      using others_objs [OF assms(1), of "n\<lparr>n_pool := fst r\<rparr>"] by (simp add: n')
    finally show ?thesis .
  qed
qed

lemma nextProxy_loop_ok:
  fixes env :: "('b, 'w) env"
  assumes "nextProxy_loop env deadline n = Some res"
  shows "env_laws env \<longrightarrow> pool_wf (n_pool n) \<longrightarrow> next_ok env deadline res"
proof (rule nextProxy_loop.raw_induct
    [where P = "\<lambda>env deadline n res. env_laws env \<longrightarrow> pool_wf (n_pool n) \<longrightarrow> next_ok env deadline res",
     OF _ assms], intro impI)
  fix loop :: "('b, 'w) env \<Rightarrow> instant \<Rightarrow> ('b, 'w) net \<Rightarrow> ((nat option \<times> go_error option) \<times> ('b, 'w) net) option"
    and env :: "('b, 'w) env" and deadline n res
  assume IH: "\<And>env deadline n res. loop env deadline n = Some res \<Longrightarrow>
      env_laws env \<longrightarrow> pool_wf (n_pool n) \<longrightarrow> next_ok env deadline res"
    and eq: "(case pool_next env n of
        (Inl e, n) \<Rightarrow>
          (let till = NextAvailableAt (e_Now env (n_world n) 0) (n_pool n) in
           if IsZero till then loop env deadline n
           else if deadline < till then Some ((None, Some errAllBanned), n)
           else (case sleepCtx env (till - e_Now env (n_world n) 1) n of
                   (ok, n) \<Rightarrow>
                     if \<not> ok then Some ((None, e_CtxErr env (n_world n)), n)
                     else loop env deadline n))
      | (Inr px, n) \<Rightarrow> Some ((Some px, None), n)) = Some res"
    and laws: "env_laws env" and wf: "pool_wf (n_pool n)"
  obtain r n1 where p: "pool_next env n = (r, n1)" by force
  note P = pool_next_ok [OF laws wf p]
  show "next_ok env deadline res"
  proof (cases r)
    case (Inr px)
    have "\<exists>m. chosen env px m" by (rule exI) (rule P(2) [OF Inr])
    moreover have "res = ((Some px, None), n1)" using eq p Inr by simp
    ultimately show ?thesis using P(1) P(3) [OF Inr] by (simp add: next_ok_def)
  next
    case (Inl e)
    define till where "till = NextAvailableAt (e_Now env (n_world n1) 0) (n_pool n1)"
    obtain ok n2 where sl: "sleepCtx env (till - e_Now env (n_world n1) 1) n1 = (ok, n2)" by force
    note S = sleepCtx_laws [OF laws sl]
    have body: "(if IsZero till then loop env deadline n1
        else if deadline < till then Some ((None, Some errAllBanned), n1)
        else if \<not> ok then Some ((None, e_CtxErr env (n_world n2)), n2) else loop env deadline n2) = Some res"
      using eq unfolding p Inl prod.case sum.case Let_def till_def [symmetric] sl .
    show ?thesis
    proof (cases "IsZero till")
      case True
      then have "loop env deadline n1 = Some res" using body by simp
      then show ?thesis using IH laws P(1) by blast
    next
      case nz: False
      show ?thesis
      proof (cases "deadline < till")
        case True
        then have "res = ((None, Some errAllBanned), n1)" using body nz by simp
        then show ?thesis using P(1) True by (simp add: next_ok_def till_def)
      next
        case late: False
        show ?thesis
        proof (cases ok)
          case True
          then have "loop env deadline n2 = Some res" using body nz late by simp
          then show ?thesis using IH laws S(1) [OF P(1)] by blast
        next
          case False
          then have "res = ((None, e_CtxErr env (n_world n2)), n2)" using body nz late by simp
          then show ?thesis using S(1) [OF P(1)] S(2) [OF False]
            by (simp add: next_ok_def split: option.split)
        qed
      qed
    qed
  qed
qed



lemma scripted_laws: "env_laws scripted"
  by (simp add: env_laws_def scripted_def)

lemma scripted_pool_wf: "pool_wf (n_pool (st_net (scripted_state w u)))"
  using NewPool_wf [where urls = "[''p'', ''q'']" and thr = 3 and cd = Second and st = RoundRobin and mx = 0]
  by (simp add: scripted_state_def NewPool_def setProxies_def)


subsubsection \<open>Waiting ends\<close>

text \<open>
  The clock: readings do not go back, also not over what the others do, and a timer that fires
  does so no earlier than it was set for. The pool is left alone when no other worker cools a
  proxy meanwhile.
\<close>

definition clock_laws :: "('b, 'w) env \<Rightarrow> bool" where
  "clock_laws env \<longleftrightarrow>
     (\<forall>w i. 0 < e_Now env w i) \<and> (\<forall>w i j. i \<le> j \<longrightarrow> e_Now env w i \<le> e_Now env w j) \<and>
     (\<forall>n i j. e_Now env (n_world n) i \<le> e_Now env (n_world (e_Others env n)) j) \<and>
     (\<forall>d w w' j. e_Timer env d w = (True, w') \<longrightarrow> e_Now env w 1 + d \<le> e_Now env w' j)"

definition pool_quiet :: "('b, 'w) env \<Rightarrow> bool" where
  "pool_quiet env \<longleftrightarrow> (\<forall>n. n_pool (e_Others env n) = n_pool n)"

lemma loop_returns_now:
  assumes "\<not> isl (fst (pool_next env n))"
  shows "\<exists>px n'. nextProxy_loop env deadline n = Some ((Some px, None), n')"
proof -
  obtain r n1 where p: "pool_next env n = (r, n1)" by force
  with assms obtain px where "r = Inr px" by (cases r) auto
  then show ?thesis by (subst nextProxy_loop.simps) (simp add: p)
qed

lemma pool_next_quiet:
  assumes "pool_quiet env" "pool_next env n = (r, n1)"
  shows "r = snd (Next (e_Now env (n_world n)) (e_Intn env (n_world n)) (e_Float64 env (n_world n)) (n_pool n))"
    and "n_pool n1 = fst (Next (e_Now env (n_world n)) (e_Intn env (n_world n)) (e_Float64 env (n_world n)) (n_pool n))"
  using assms by (auto simp: pool_next_def pool_quiet_def Let_def case_prod_unfold)

lemma clock_timer:
  "clock_laws env \<Longrightarrow> e_Timer env d w = (True, w') \<Longrightarrow> e_Now env w 1 + d \<le> e_Now env w' j"
  by (simp add: clock_laws_def)

lemma sleep_reaches:
  assumes "clock_laws env" "pool_quiet env" "sleepCtx env (t - e_Now env (n_world n) 1) n = (True, n')"
  shows "n_pool n' = n_pool n" "t \<le> e_Now env (n_world n') j" "e_Now env (n_world n) 0 \<le> e_Now env (n_world n') j"
proof -
  let ?d = "t - e_Now env (n_world n) 1"
  obtain fired w where tm: "e_Timer env ?d (n_world n) = (fired, w)" by force
  have r: "(True, n') = (if ?d \<le> 0 then (e_CtxErr env (n_world n) = None, e_Others env n)
      else (fired, e_Others env (n\<lparr>n_world := w\<rparr>)))"
    using assms(3) unfolding sleepCtx_def tm Let_def prod.case by (rule sym)
  show "n_pool n' = n_pool n" using r assms(2) by (auto simp: pool_quiet_def split: if_splits)
  have mono: "e_Now env (n_world n) 0 \<le> e_Now env (n_world n) 1"
    "e_Now env (n_world m) i \<le> e_Now env (n_world (e_Others env m)) j" for m i
    using assms(1) by (simp_all add: clock_laws_def)
  have "t \<le> e_Now env (n_world n') j \<and> e_Now env (n_world n) 0 \<le> e_Now env (n_world n') j"
  proof (cases "?d \<le> 0")
    case True
    then show ?thesis using r mono(1) mono(2) [of n 1] by auto
  next
    case False
    then have "n' = e_Others env (n\<lparr>n_world := w\<rparr>)" "fired" using r by auto
    moreover have "e_Now env (n_world n) 1 + ?d \<le> e_Now env w 0"
      using clock_timer [OF assms(1)] tm \<open>fired\<close> by (simp only: simp_thms)
    ultimately show ?thesis using mono(1) mono(2) [of "n\<lparr>n_world := w\<rparr>" 0] False by auto
  qed
  then show "t \<le> e_Now env (n_world n') j" "e_Now env (n_world n) 0 \<le> e_Now env (n_world n') j" by simp_all
qed

text \<open>
  Waiting ends: while no other worker cools a proxy, \<open>nextProxy\<close> returns after at most one
  sleep, for every strategy and every state of the pool.
\<close>

theorem nextProxy_returns:
  assumes "clock_laws env" "pool_quiet env" "pool_wf (n_pool n)"
  shows "\<exists>res. nextProxy env p n = Some res"
proof -
  have "\<exists>res. nextProxy_loop env deadline n = Some res" for deadline
  proof (cases "isl (fst (pool_next env n))")
    case False
    then show ?thesis using loop_returns_now by blast
  next
    case True
    obtain r n1 where p: "pool_next env n = (r, n1)" by force
    with True obtain e where r: "r = Inl e" by (cases r) auto
    have wf1: "pool_wf (n_pool n1)"
      using pool_next_quiet(2) [OF assms(2) p] pool_egress.draw_wf [OF assms(3)] by simp
    define now where "now = e_Now env (n_world n1) 0"
    define till where "till = NextAvailableAt now (n_pool n1)"
    have now: "0 < now" "\<And>i. now \<le> e_Now env (n_world n1) i"
      using assms(1) by (simp_all add: now_def clock_laws_def)
    have again: "\<exists>res. nextProxy_loop env deadline m = Some res"
      if "n_pool m = n_pool n1" "\<And>i. now \<le> e_Now env (n_world m) i" "\<And>i. till \<le> e_Now env (n_world m) i" for m
    proof -
      have "\<not> isl (snd (Next (e_Now env (n_world m)) (e_Intn env (n_world m)) (e_Float64 env (n_world m)) (n_pool m)))"
        using pool_egress.draw_after_wake [OF wf1 now(1), of "e_Now env (n_world m)"] that
        by (simp add: till_def)
      then have "\<not> isl (fst (pool_next env m))" by (simp add: pool_next_def Let_def case_prod_unfold)
      then show ?thesis using loop_returns_now by blast
    qed
    obtain ok n2 where sl: "sleepCtx env (till - e_Now env (n_world n1) 1) n1 = (ok, n2)" by force
    have eq: "nextProxy_loop env deadline n = (if IsZero till then nextProxy_loop env deadline n1
        else if deadline < till then Some ((None, Some errAllBanned), n1)
        else if \<not> ok then Some ((None, e_CtxErr env (n_world n2)), n2) else nextProxy_loop env deadline n2)"
      by (subst nextProxy_loop.simps)
         (unfold p r prod.case sum.case Let_def now_def [symmetric] till_def [symmetric] sl, rule refl)
    have "till \<le> e_Now env (n_world n1) i" if "IsZero till" for i
      using that now(2) [of i] now(1) by (simp add: IsZero_def)
    then have "IsZero till \<Longrightarrow> \<exists>res. nextProxy_loop env deadline n1 = Some res"
      by (intro again) (auto simp: now(2))
    moreover have "ok \<Longrightarrow> \<exists>res. nextProxy_loop env deadline n2 = Some res"
      by (intro again) (use sl sleep_reaches [OF assms(1,2), of till n1 n2] in \<open>simp_all add: now_def\<close>)
    ultimately show ?thesis unfolding eq by (cases ok) auto
  qed
  then show ?thesis by (simp add: nextProxy_def Let_def)
qed


text \<open>A clock that moves only when somebody sleeps, and a pool whose proxies are all cooling.\<close>

definition ticking :: "(rat \<times> int, nat) env" where
  "ticking = \<lparr>e_Fetch = (\<lambda>req w. (Inl (ErrorString ''down''), w)),
     e_Timer = (\<lambda>d w. (True, w + nat d)), e_CtxErr = (\<lambda>w. None), e_Now = (\<lambda>w i. 1 + int w),
     e_Intn = (\<lambda>w. 0), e_Float64 = (\<lambda>w. 0),
     e_Bucket = \<lparr>api_NewLimiter = (\<lambda>r n. (r, n)), api_Limit = fst,
       api_SetLimit = (\<lambda>r t b. (r, snd b)), api_Wait = (\<lambda>c b. (None, b))\<rparr>,
     e_Others = (\<lambda>n. n)\<rparr>"

definition all_cooling :: "(rat \<times> int, nat) net" where
  "all_cooling = \<lparr>n_pool = fst (ReportOutcome 5 1 Blocked 0 two_proxies), n_lim = NewAdaptive 8 1 1, n_world = 6\<rparr>"

lemma all_cooling_wf: "pool_wf (n_pool all_cooling)"
proof -
  have "1 < length (objs two_proxies)"
    by (simp add: two_proxies_def NewPool_def setProxies_def ReportOutcome_upd pool_upd_def)
  then show ?thesis by (simp add: all_cooling_def ReportOutcome_wf two_proxies_wf)
qed

theorem nextProxy_returns_witness:
  "clock_laws ticking \<and> pool_quiet ticking \<and> pool_wf (n_pool all_cooling) \<and>
   (\<exists>res. nextProxy ticking three_tries all_cooling = Some res)"
proof -
  have l: "clock_laws ticking" "pool_quiet ticking" by (simp_all add: clock_laws_def pool_quiet_def ticking_def)
  from nextProxy_returns [OF l all_cooling_wf] l all_cooling_wf show ?thesis by blast
qed

subsection \<open>No panic\<close>

lemma recordOutcome_wf:
  assumes "pool_wf (n_pool (st_net st))" "px < length (objs (n_pool (st_net st)))"
  shows "pool_wf (n_pool (st_net (recordOutcome env px key out err st)))"
  using assms by (simp add: recordOutcome_def Let_def case_prod_unfold ReportOutcome_wf)

lemma do_fetch_wf:
  assumes "env_laws env" "pool_wf (n_pool (st_net st))" "px < length (objs (n_pool (st_net st)))"
  shows "pool_wf (n_pool (st_net (snd (do_fetch env req st))))"
    "px < length (objs (n_pool (st_net (snd (do_fetch env req st)))))"
proof -
  let ?n = "(st_net st)\<lparr>n_world := snd (e_Fetch env req (n_world (st_net st)))\<rparr>"
  have n: "st_net (snd (do_fetch env req st)) = e_Others env ?n"
    by (simp add: do_fetch_def Let_def case_prod_unfold)
  show "pool_wf (n_pool (st_net (snd (do_fetch env req st))))"
    using assms(1,2) by (simp add: n env_laws_def)
  show "px < length (objs (n_pool (st_net (snd (do_fetch env req st)))))"
    using others_objs [OF assms(1), of ?n] assms(3) by (simp add: n)
qed

lemma lim_wait_wf:
  assumes "env_laws env" "pool_wf (n_pool (st_net st))" "px < length (objs (n_pool (st_net st)))"
  shows "pool_wf (n_pool (st_net (snd (lim_wait env key st))))"
    "px < length (objs (n_pool (st_net (snd (lim_wait env key st)))))"
proof -
  let ?n = "(st_net st)\<lparr>n_lim := snd (Wait (e_Bucket env) (n_world (st_net st)) key (n_lim (st_net st)))\<rparr>"
  have n: "st_net (snd (lim_wait env key st)) = e_Others env ?n"
    by (simp add: lim_wait_def Let_def case_prod_unfold)
  show "pool_wf (n_pool (st_net (snd (lim_wait env key st))))"
    using assms(1,2) by (simp add: n env_laws_def)
  show "px < length (objs (n_pool (st_net (snd (lim_wait env key st)))))"
    using others_objs [OF assms(1), of ?n] assms(3) by (simp add: n)
qed

lemma fetch_phase_wf:
  assumes "env_laws env" "pool_wf (n_pool (st_net st))" "px < length (objs (n_pool (st_net st)))"
    and "fetch_phase env job px key req attempts st = (v, attempts', st')"
  shows "pool_wf (n_pool (st_net st')) \<and> v \<noteq> Return AcqPanic"
proof -
  obtain res st1 where d: "do_fetch env req st = (res, st1)" by force
  have w1: "pool_wf (n_pool (st_net st1))" "px < length (objs (n_pool (st_net st1)))"
    using do_fetch_wf [OF assms(1-3), of req] d by simp_all
  have w2: "pool_wf (n_pool (st_net (recordOutcome env px key out err (st1\<lparr>st_met := m\<rparr>))))" for out err m
    using w1 by (intro recordOutcome_wf) simp_all
  show ?thesis
    using assms(4) w2 unfolding fetch_phase_def Let_def d prod.case
    by (auto simp: canceled_def case_prod_unfold split: sum.splits if_splits option.splits)
qed

lemma attempt_body_wf:
  assumes "env_laws env" "pool_wf (n_pool (st_net st))"
    and "attempt_body env p job attempts st = Some (v, attempts', st')"
  shows "pool_wf (n_pool (st_net st')) \<and> v \<noteq> Return AcqPanic"
proof -
  obtain pxo err n where nx: "nextProxy env p (st_net st) = Some ((pxo, err), n)"
    using assms(3) by (cases "nextProxy env p (st_net st)") (auto simp: attempt_body_def)
  note ok = nextProxy_loop_ok [OF nx [unfolded nextProxy_def Let_def], rule_format, OF assms(1,2)]
  consider e where "err = Some e" | px where "err = None" "pxo = Some px" "px < length (objs (n_pool n))"
    using ok by (cases err; cases pxo) (auto simp: next_ok_def)
  then show ?thesis
  proof cases
    case 1
    with assms(3) nx ok show ?thesis
      by (auto simp: attempt_body_def canceled_def next_ok_def Let_def split: option.splits)
  next
    case 2
    define pr where "pr = obj (n_pool n) px"
    define req where "req = build job (n_world n) pr"
    define key where "key = (case rateKey job of None \<Rightarrow> Key pr | Some f \<Rightarrow> f pr req)"
    obtain werr st1 where w: "lim_wait env key (st\<lparr>st_net := n\<rparr>) = (werr, st1)" by force
    have "pool_wf (n_pool n)" using ok by (simp add: next_ok_def)
    then have w1: "pool_wf (n_pool (st_net st1))" "px < length (objs (n_pool (st_net st1)))"
      using lim_wait_wf [OF assms(1), of "st\<lparr>st_net := n\<rparr>" px key] 2 w by simp_all
    have body: "attempt_body env p job attempts st = (case werr of
        Some e \<Rightarrow> Some (canceled attempts (Some e), attempts, st1)
      | None \<Rightarrow> Some (fetch_phase env job px key req attempts st1))"
      unfolding attempt_body_def nx [unfolded 2] Let_def option.case prod.case
        pr_def [symmetric] req_def [symmetric] key_def [symmetric] w ..
    show ?thesis
    proof (cases werr)
      case None
      then have "fetch_phase env job px key req attempts st1 = (v, attempts', st')"
        using assms(3) body by simp
      from fetch_phase_wf [OF assms(1) w1 this] show ?thesis .
    next
      case (Some e)
      then show ?thesis using assms(3) body w1 by (auto simp: canceled_def)
    qed
  qed
qed

lemma retry_pause_wf:
  assumes "env_laws env" "pool_wf (n_pool (st_net st))" "attempt \<le> 37"
    and "retry_pause env attempt failover attempts st = (r, st')"
  shows "pool_wf (n_pool (st_net st')) \<and> r \<noteq> Some AcqPanic"
proof (cases "attempt = 0 \<or> failover")
  case True
  then show ?thesis using assms by (auto simp: retry_pause_def Let_def split: if_splits)
next
  case False
  define n where "n = st_net st"
  obtain d where d: "backoffDuration attempt (e_Intn env (n_world n)) = Some d"
    using backoff_value [of attempt "e_Intn env (n_world n)"] False assms(3) by auto
  obtain ok n' where s: "sleepCtx env d n = (ok, n')" by force
  have "pool_wf (n_pool n')" using sleepCtx_laws(1) [OF assms(1) s] assms(2) by (simp add: n_def)
  then show ?thesis
    using assms(4) False d s by (auto simp: retry_pause_def Let_def n_def split: if_splits)
qed

lemma Acquire_loop_wf:
  assumes "env_laws env" "pool_wf (n_pool (st_net st))" "attempt + k \<le> 38"
    and "Acquire_loop env p job k attempt failover attempts lastErr st = Some (r, st')"
  shows "pool_wf (n_pool (st_net st')) \<and> r \<noteq> AcqPanic"
  using assms(2-)
proof (induction k arbitrary: attempt failover attempts lastErr st)
  case (Suc k)
  obtain r1 st1 where rp: "retry_pause env attempt failover attempts st = (r1, st1)" by force
  have w1: "pool_wf (n_pool (st_net st1))" "r1 \<noteq> Some AcqPanic"
    using retry_pause_wf [OF assms(1) Suc.prems(1) _ rp] Suc.prems(2) by simp_all
  show ?case
  proof (cases r1)
    case (Some r')
    then show ?thesis using Suc.prems(3) rp w1 by simp
  next
    case None
    then obtain v attempts' st2 where ab: "attempt_body env p job attempts st1 = Some (v, attempts', st2)"
      using Suc.prems(3) rp by (auto split: option.splits)
    note w2 = attempt_body_wf [OF assms(1) w1(1) ab]
    show ?thesis
    proof (cases v)
      case (Continue e fo)
      then have "Acquire_loop env p job k (attempt + 1) fo attempts' e st2 = Some (r, st')"
        using Suc.prems(3) rp None ab by simp
      from Suc.IH [OF _ _ this] w2 Suc.prems(2) show ?thesis by simp
    qed (use Suc.prems(3) rp None ab w2 in auto)
  qed
qed auto

text \<open>
  C26. \<open>Acquire\<close> keeps the pool's invariant and never panics, whatever the fetcher answers and
  the other workers do, as long as \<open>max_retries\<close> is at most 37.
\<close>

theorem Acquire_no_panic:
  assumes "env_laws env" "pool_wf (n_pool (st_net st))" "MaxRetries p \<le> 37"
    and "Acquire env p job st = Some (r, st')"
  shows "pool_wf (n_pool (st_net st')) \<and> r \<noteq> AcqPanic"
  using assms(3) by (intro Acquire_loop_wf [OF assms(1,2) _ assms(4) [unfolded Acquire_def]]) simp

theorem Acquire_no_panic_witness:
  "\<exists>r st'. Acquire scripted three_tries plain_ops (scripted_state [Inl (StatusError 503), Inr answer] 0) = Some (r, st') \<and>
     pool_wf (n_pool (st_net st')) \<and> r \<noteq> AcqPanic"
proof -
  obtain r st' where r: "Acquire scripted three_tries plain_ops
      (scripted_state [Inl (StatusError 503), Inr answer] 0) = Some (r, st')"
    using scripted_run by force
  have "MaxRetries three_tries \<le> 37" by (simp add: three_tries_def)
  from Acquire_no_panic [OF scripted_laws scripted_pool_wf this r] r show ?thesis by blast
qed


subsection \<open>Feedback by outcome\<close>

lemma ReportOutcome_Neutral:
  "fst (ReportOutcome now p Neutral ra pl) = pl" "\<not> snd (ReportOutcome now p Neutral ra pl)"
  by (simp_all add: ReportOutcome_def report_proxy_def obj_def)



subsection \<open>Every job is counted once\<close>

lemma serp_use_None: "fst (serp_use env parse jb w resp px u) \<noteq> None \<Longrightarrow> snd (serp_use env parse jb w resp px u) = u"
  by (auto simp: serp_use_def Let_def split: sum.splits)

definition stamped :: "job \<Rightarrow> serp_result \<Rightarrow> bool" where
  "stamped jb r \<longleftrightarrow> sr_RunID r = job_RunID jb \<and> sr_Locale r = job_Locale jb \<and> sr_Device r = job_Device jb"

text \<open>The result of a job: what the parser made of some response, stamped, with the response kept when the parser flags it.\<close>

definition result_of :: "(string \<Rightarrow> string \<Rightarrow> go_error + serp_result) \<Rightarrow> job \<Rightarrow> serp_result \<Rightarrow> bool" where
  "result_of parse jb r \<longleftrightarrow> stamped jb r \<and>
     (\<exists>body r0. parse (job_Query jb) body = Inr r0 \<and> sr_Query r = sr_Query r0 \<and> AIOverview r = AIOverview r0 \<and>
        FeaturedSnippet r = FeaturedSnippet r0 \<and> PeopleAlsoAsk r = PeopleAlsoAsk r0 \<and> Organic r = Organic r0 \<and>
        Calibration r = Calibration r0 \<and> sr_RawBody r = (if Calibration r \<noteq> None then body else sr_RawBody r0))"

lemma serp_use_Some:
  "fst (serp_use env parse jb w resp px u) = None \<Longrightarrow>
   \<exists>r. snd (serp_use env parse jb w resp px u) = Some r \<and> result_of parse jb r"
  by (cases "parse (job_Query jb) (Body resp)")
     (auto simp: serp_use_def Let_def stamped_def result_of_def intro!: exI [of _ "Body resp"])

text \<open>What \<open>use\<close> leaves behind when the attempt is not a success, and when it is.\<close>

lemma fetch_phase_use:
  assumes "fetch_phase env job px key req attempts st = (v, attempts', st')"
  shows "if v = Return AcqNil then \<exists>w resp pr. use job w resp pr (st_use st) = (None, st_use st')
    else st_use st' = st_use st \<or> (\<exists>w resp pr e. use job w resp pr (st_use st) = (Some e, st_use st'))"
proof -
  obtain res st1 where d: "do_fetch env req st = (res, st1)" by force
  have u1: "st_use st1 = st_use st" using do_fetch_met(2) [of env req st] d by simp
  show ?thesis
    using assms u1 unfolding fetch_phase_def Let_def d prod.case
    by (auto simp: canceled_def case_prod_unfold split: sum.splits if_splits option.splits)
       (metis prod.collapse)+
qed


text \<open>
  A property of the variables \<open>use\<close> assigns that failing calls keep holds after every
  unsuccessful iteration; after a successful one they are what the successful call left.
\<close>

lemma attempt_body_use:
  assumes "attempt_body env p job attempts st = Some (v, attempts', st')"
    and keep: "\<And>w resp pr u e u'. I u \<Longrightarrow> use job w resp pr u = (Some e, u') \<Longrightarrow> I u'"
    and fin: "\<And>w resp pr u u'. I u \<Longrightarrow> use job w resp pr u = (None, u') \<Longrightarrow> Q u'"
    and "I (st_use st)"
  shows "if v = Return AcqNil then Q (st_use st') else I (st_use st')"
proof -
  obtain pxo err n where nx: "nextProxy env p (st_net st) = Some ((pxo, err), n)"
    using assms(1) by (cases "nextProxy env p (st_net st)") (auto simp: attempt_body_def)
  consider e where "err = Some e" | "err = None" "pxo = None" | px where "err = None" "pxo = Some px"
    by (cases err; cases pxo) auto
  then show ?thesis
  proof cases
    case 3
    define pr where "pr = obj (n_pool n) px"
    define req where "req = build job (n_world n) pr"
    define key where "key = (case rateKey job of None \<Rightarrow> Key pr | Some f \<Rightarrow> f pr req)"
    obtain werr st1 where w: "lim_wait env key (st\<lparr>st_net := n\<rparr>) = (werr, st1)" by force
    then have u: "st_use st1 = st_use st" using lim_wait_met(2) [of env key "st\<lparr>st_net := n\<rparr>"] by simp
    have body: "attempt_body env p job attempts st = (case werr of
        Some e \<Rightarrow> Some (canceled attempts (Some e), attempts, st1)
      | None \<Rightarrow> Some (fetch_phase env job px key req attempts st1))"
      unfolding attempt_body_def nx [unfolded 3] Let_def option.case prod.case
        pr_def [symmetric] req_def [symmetric] key_def [symmetric] w ..
    show ?thesis
    proof (cases werr)
      case None
      then have "fetch_phase env job px key req attempts st1 = (v, attempts', st')"
        using assms(1) body by simp
      from fetch_phase_use [OF this] u keep fin assms(4) show ?thesis by (auto split: if_splits)
    next
      case (Some e)
      then show ?thesis using assms(1,4) body u by (auto simp: canceled_def)
    qed
  qed (use assms(1,4) nx in \<open>auto simp: attempt_body_def canceled_def Let_def split: option.splits\<close>)
qed

lemma Acquire_loop_use:
  assumes "Acquire_loop env p job k attempt failover attempts lastErr st = Some (r, st')"
    and keep: "\<And>w resp pr u e u'. I u \<Longrightarrow> use job w resp pr u = (Some e, u') \<Longrightarrow> I u'"
    and fin: "\<And>w resp pr u u'. I u \<Longrightarrow> use job w resp pr u = (None, u') \<Longrightarrow> Q u'"
    and "I (st_use st)"
  shows "if r = AcqNil then Q (st_use st') else I (st_use st')"
  using assms(1,4)
proof (induction k arbitrary: attempt failover attempts lastErr st)
  case (Suc k)
  obtain r1 st1 where rp: "retry_pause env attempt failover attempts st = (r1, st1)" by force
  have u1: "I (st_use st1)" "r1 \<noteq> Some AcqNil"
    using retry_pause_booked [OF rp] Suc.prems(2) by (auto split: option.splits)
  show ?case
  proof (cases r1)
    case (Some r')
    then show ?thesis using Suc.prems(1) rp u1 by simp
  next
    case None
    then obtain v attempts' st2 where ab: "attempt_body env p job attempts st1 = Some (v, attempts', st2)"
      using Suc.prems(1) rp by (auto split: option.splits)
    note u2 = attempt_body_use [where I = I and Q = Q, OF ab keep fin u1(1)]
    show ?thesis
    proof (cases v)
      case (Continue e fo)
      then have "Acquire_loop env p job k (attempt + 1) fo attempts' e st2 = Some (r, st')"
        using Suc.prems(1) rp None ab by simp
      from Suc.IH [OF this] u2 Continue show ?thesis by simp
    qed (use Suc.prems(1) rp None ab u2 in auto)
  qed
qed auto

lemma process_ends:
  assumes "env_laws env" "pool_wf (n_pool (st_net st))" "MaxRetries p \<le> 37"
    and "process env p parse write jb st sink = Some (r, st', sink')"
  shows "(c_Success (st_met st') = c_Success (st_met st) + 1 \<and> c_Dropped (st_met st') = c_Dropped (st_met st) \<and>
      (\<exists>res. result_of parse jb res \<and> sink' = snd (write res sink))) \<or>
    (c_Success (st_met st') = c_Success (st_met st) \<and> c_Dropped (st_met st') = c_Dropped (st_met st) + 1 \<and>
      sink' = sink)"
proof -
  let ?job = "serp_ops env p parse jb" and ?st = "st\<lparr>st_use := None\<rparr>"
  obtain r1 st1 where A: "Acquire env p ?job ?st = Some (r1, st1)"
    using assms(4) by (auto simp: process_def split: option.splits)
  note L = A [unfolded Acquire_def]
  from Acquire_loop_booked [OF L] obtain a f i where "booked (st_met st) (st_met st1) a f i" by auto
  then have met: "c_Success (st_met st1) = c_Success (st_met st)" "c_Dropped (st_met st1) = c_Dropped (st_met st)"
    by (simp_all add: booked_def)
  have np: "r1 \<noteq> AcqPanic"
    using Acquire_loop_wf [OF assms(1) _ _ L] assms(2,3) by simp
  have keep: "u' = None" if "u = None" "use ?job w resp pr u = (Some e, u')" for w resp pr u e u'
    using that serp_use_None [of env parse jb w resp pr u] by (simp add: serp_ops_def)
  have fin: "\<exists>x. u' = Some x \<and> result_of parse jb x" if "u = None" "use ?job w resp pr u = (None, u')" for w resp pr u u'
    using that serp_use_Some [of env parse jb w resp pr u] by (auto simp: serp_ops_def)
  have init: "st_use ?st = None" by simp
  have res: "if r1 = AcqNil then \<exists>x. st_use st1 = Some x \<and> result_of parse jb x else st_use st1 = None"
    by (rule Acquire_loop_use [where I = "\<lambda>u. u = None" and Q = "\<lambda>u. \<exists>x. u = Some x \<and> result_of parse jb x",
          OF L keep fin init])
  show ?thesis
  proof (cases r1)
    case AcqNil
    with res obtain x where "st_use st1 = Some x" "result_of parse jb x" by auto
    with AcqNil A assms(4) met show ?thesis
      by (intro disjI1) (auto simp: process_def Let_def case_prod_unfold metric_defs split: if_splits)
  next
    case (AcqDropped d)
    with A assms(4) met show ?thesis by (auto simp: process_def metric_defs)
  next
    case AcqPanic
    with np show ?thesis by simp
  qed
qed

text \<open>
  C5. Every job that ends is counted exactly once, whatever happened on the way: either as a
  success, and then exactly one result, what the parser made of a response to the job's query,
  carrying the job's run, locale and device, has been written to the sink; or as dropped, and then
  nothing was written.
\<close>

theorem process_exactly_once:
  assumes "env_laws env" "pool_wf (n_pool (st_net st))" "MaxRetries p \<le> 37"
    and "process env p parse write jb st sink = Some (r, st', sink')"
  shows "(c_Success (st_met st') = c_Success (st_met st) + 1 \<and> c_Dropped (st_met st') = c_Dropped (st_met st) \<and>
      (\<exists>res. result_of parse jb res \<and> sink' = snd (write res sink))) \<or>
    (c_Success (st_met st') = c_Success (st_met st) \<and> c_Dropped (st_met st') = c_Dropped (st_met st) + 1 \<and>
      sink' = sink)"
  by (rule process_ends [OF assms])

definition empty_result :: "string \<Rightarrow> serp_result" where
  "empty_result q = \<lparr>sr_Query = q, sr_RunID = '''', sr_Locale = '''', sr_Device = '''', sr_FetchedAt = 0,
     sr_LatencyMS = 0, sr_ProxyUsed = '''', AIOverview = None, FeaturedSnippet = None,
     PeopleAlsoAsk = [], Organic = [], Calibration = None, sr_RawBody = ''''\<rparr>"

definition one_job :: job where
  "one_job = \<lparr>job_Query = ''go'', job_RunID = ''r1'', job_Locale = ''US-en'', job_Device = ''mobile''\<rparr>"

theorem process_exactly_once_witness:
  "\<exists>st'. process scripted three_tries (\<lambda>q b. Inr (empty_result q)) (\<lambda>r s. (None, s @ [sr_RunID r])) one_job
       (scripted_state [Inl (StatusError 503), Inr answer] None) [] = Some (AcqNil, st', [''r1'']) \<and>
     c_Success (st_met st') = 1 \<and> c_Dropped (st_met st') = 0"
proof -
  let ?run = "process scripted three_tries (\<lambda>q b. Inr (empty_result q)) (\<lambda>r s. (None, s @ [sr_RunID r])) one_job
       (scripted_state [Inl (StatusError 503), Inr answer] None) []"
  have "map_option (\<lambda>(r, st, s). (r, s)) ?run = Some (AcqNil, [''r1''])" by code_simp
  then obtain st' where r: "?run = Some (AcqNil, st', [''r1''])" by auto
  have "MaxRetries three_tries \<le> 37" by (simp add: three_tries_def)
  from process_exactly_once [OF scripted_laws scripted_pool_wf this r] r show ?thesis
    by (auto simp: scripted_state_def zero_counters_def)
qed

subsection \<open>Every job ends\<close>

lemma attempt_body_returns:
  assumes "nextProxy env p (st_net st) \<noteq> None"
  shows "attempt_body env p job attempts st \<noteq> None"
  using assms by (auto simp: attempt_body_def Let_def simp del: not_None_eq split: option.splits prod.splits)

lemma Acquire_loop_returns:
  assumes "env_laws env" "\<And>n. pool_wf (n_pool n) \<Longrightarrow> nextProxy env p n \<noteq> None"
    and "pool_wf (n_pool (st_net st))" "attempt + k \<le> 38"
  shows "Acquire_loop env p job k attempt failover attempts lastErr st \<noteq> None"
  using assms(3-)
proof (induction k arbitrary: attempt failover attempts lastErr st)
  case (Suc k)
  obtain r1 st1 where rp: "retry_pause env attempt failover attempts st = (r1, st1)" by force
  have w1: "pool_wf (n_pool (st_net st1))"
    using retry_pause_wf [OF assms(1) Suc.prems(1) _ rp] Suc.prems(2) by simp
  obtain v attempts' st2 where ab: "attempt_body env p job attempts st1 = Some (v, attempts', st2)"
    using attempt_body_returns [OF assms(2) [OF w1]] by (metis not_None_eq prod_cases3)
  have w2: "pool_wf (n_pool (st_net st2))" using attempt_body_wf [OF assms(1) w1 ab] by simp
  show ?case
    using rp ab Suc.IH [OF w2, of "attempt + 1"] Suc.prems(2) by (auto split: option.splits verdict.splits)
qed simp

lemma process_panic:
  assumes "process env p parse write jb st sink = Some (AcqPanic, st', sink')"
  shows "c_Success (st_met st') = c_Success (st_met st) \<and> c_Dropped (st_met st') = c_Dropped (st_met st)"
proof -
  obtain r1 where A: "Acquire env p (serp_ops env p parse jb) (st\<lparr>st_use := None\<rparr>) = Some (r1, st')"
    using assms by (auto simp: process_def Let_def case_prod_unfold split: option.splits acquire_result.splits)
  from Acquire_loop_booked [OF A [unfolded Acquire_def]] show ?thesis by (auto simp: booked_def)
qed

lemma process_ended:
  assumes "env_laws env" "clock_laws env" "pool_quiet env" "pool_wf (n_pool (st_net st))" "MaxRetries p \<le> 37"
  shows "\<exists>r st' sink'. process env p parse write jb st sink = Some (r, st', sink') \<and> r \<noteq> AcqPanic"
proof -
  let ?job = "serp_ops env p parse jb" and ?st = "st\<lparr>st_use := None\<rparr>"
  have "nextProxy env p n \<noteq> None" if "pool_wf (n_pool n)" for n
    using nextProxy_returns [OF assms(2,3) that] by (metis option.distinct(1))
  moreover have "nat (MaxRetries p + 1) \<le> 38" using assms(5) by simp
  ultimately obtain r1 st1 where A: "Acquire env p ?job ?st = Some (r1, st1)"
    using Acquire_loop_returns [OF assms(1), of p ?st 0 "nat (MaxRetries p + 1)" ?job False 0 None] assms(4,5)
    by (auto simp: Acquire_def)
  have "\<exists>r st' sink'. process env p parse write jb st sink = Some (r, st', sink')"
    using A by (auto simp: process_def Let_def case_prod_unfold split: acquire_result.splits option.splits)
  then obtain r st' sink' where P: "process env p parse write jb st sink = Some (r, st', sink')" by auto
  moreover have "r \<noteq> AcqPanic"
    using process_ends [OF assms(1,4,5) P] P process_panic [of env p parse "write" jb st sink st' sink'] by auto
  ultimately show ?thesis by blast
qed



subsection \<open>The workers\<close>

text \<open>
  \<open>Run\<close> and \<open>runWorker\<close>: \<open>Concurrency\<close> goroutines receive from one channel until it is closed and
  drained or the context ends. The state is what is still in the channel, what each worker is
  doing, the jobs handled so far and whether the context has ended; \<open>select\<close> may choose either
  branch when both are ready.
\<close>

datatype 'j worker_status = Idle | Busy 'j | Stopped

record 'j run_state =
  rs_queue :: "'j list"
  rs_workers :: "'j worker_status list"
  rs_done :: "'j list"
  rs_ctxDone :: bool

inductive run_step :: "'j run_state \<Rightarrow> 'j run_state \<Rightarrow> bool" where
  receive: "i < length (rs_workers s) \<Longrightarrow> rs_workers s ! i = Idle \<Longrightarrow> rs_queue s = j # q \<Longrightarrow>
    run_step s (s\<lparr>rs_queue := q, rs_workers := (rs_workers s)[i := Busy j]\<rparr>)"
| processed: "i < length (rs_workers s) \<Longrightarrow> rs_workers s ! i = Busy j \<Longrightarrow>
    run_step s (s\<lparr>rs_workers := (rs_workers s)[i := Idle], rs_done := rs_done s @ [j]\<rparr>)"
| closed: "i < length (rs_workers s) \<Longrightarrow> rs_workers s ! i = Idle \<Longrightarrow> rs_queue s = [] \<Longrightarrow>
    run_step s (s\<lparr>rs_workers := (rs_workers s)[i := Stopped]\<rparr>)"
| ctx_done: "i < length (rs_workers s) \<Longrightarrow> rs_workers s ! i = Idle \<Longrightarrow> rs_ctxDone s \<Longrightarrow>
    run_step s (s\<lparr>rs_workers := (rs_workers s)[i := Stopped]\<rparr>)"
| cancel: "\<not> rs_ctxDone s \<Longrightarrow> run_step s (s\<lparr>rs_ctxDone := True\<rparr>)"

inductive_cases run_stepE: "run_step s t"

definition run_init :: "nat \<Rightarrow> 'j list \<Rightarrow> 'j run_state" where
  "run_init c js = \<lparr>rs_queue = js, rs_workers = replicate c Idle, rs_done = [], rs_ctxDone = False\<rparr>"

definition Run_returned :: "'j run_state \<Rightarrow> bool" where
  "Run_returned s \<longleftrightarrow> list_all (\<lambda>w. w = Stopped) (rs_workers s)"

fun in_hand :: "'j worker_status \<Rightarrow> 'j multiset" where
  "in_hand (Busy j) = {#j#}"
| "in_hand _ = {#}"

definition held :: "'j run_state \<Rightarrow> 'j multiset" where
  "held s = sum_list (map in_hand (rs_workers s))"

definition run_inv :: "nat \<Rightarrow> 'j list \<Rightarrow> 'j run_state \<Rightarrow> bool" where
  "run_inv c js s \<longleftrightarrow> length (rs_workers s) = c \<and>
     mset js = mset (rs_queue s) + held s + mset (rs_done s) \<and>
     (\<not> rs_ctxDone s \<longrightarrow> Stopped \<in> set (rs_workers s) \<longrightarrow> rs_queue s = [])"

lemma run_inv_step: "run_inv c js s \<Longrightarrow> run_step s t \<Longrightarrow> run_inv c js t"
proof (erule run_stepE)
  fix i j q assume "run_inv c js s" "t = s\<lparr>rs_queue := q, rs_workers := (rs_workers s)[i := Busy j]\<rparr>"
    "i < length (rs_workers s)" "rs_workers s ! i = Idle" "rs_queue s = j # q"
  then show "run_inv c js t"
    using sum_list_map_update [of i "rs_workers s" in_hand "Busy j"]
    by (auto simp: run_inv_def held_def dest!: set_update_subset_insert [THEN subsetD])
next
  fix i j assume "run_inv c js s" "t = s\<lparr>rs_workers := (rs_workers s)[i := Idle], rs_done := rs_done s @ [j]\<rparr>"
    "i < length (rs_workers s)" "rs_workers s ! i = Busy j"
  then show "run_inv c js t"
    using sum_list_map_update [of i "rs_workers s" in_hand Idle]
    by (auto simp: run_inv_def held_def dest!: set_update_subset_insert [THEN subsetD])
next
  fix i assume "run_inv c js s" "t = s\<lparr>rs_workers := (rs_workers s)[i := Stopped]\<rparr>"
    "i < length (rs_workers s)" "rs_workers s ! i = Idle" "rs_queue s = []"
  then show "run_inv c js t"
    using sum_list_map_update [of i "rs_workers s" in_hand Stopped] by (auto simp: run_inv_def held_def)
next
  fix i assume "run_inv c js s" "t = s\<lparr>rs_workers := (rs_workers s)[i := Stopped]\<rparr>"
    "i < length (rs_workers s)" "rs_workers s ! i = Idle" "rs_ctxDone s"
  then show "run_inv c js t"
    using sum_list_map_update [of i "rs_workers s" in_hand Stopped] by (auto simp: run_inv_def held_def)
next
  assume "run_inv c js s" "t = s\<lparr>rs_ctxDone := True\<rparr>"
  then show "run_inv c js t" by (simp add: run_inv_def held_def)
qed

lemma run_inv_init: "run_inv c js (run_init c js)"
proof -
  have "sum_list (map in_hand (replicate c Idle)) = {#}" by (induction c) simp_all
  then show ?thesis by (cases c) (simp_all add: run_inv_def run_init_def held_def)
qed

interpretation workers: invariant_system "\<lambda>s. s = run_init c js" run_step "run_inv c js" for c js
  by unfold_locales (auto simp: run_inv_init intro: run_inv_step)

text \<open>
  \<open>Run\<close> hands every job to exactly one worker: when it returns, what was handled together with
  what is left in the channel is exactly the jobs that were sent, and with at least one worker
  something is left only if the context ended.
\<close>

theorem Run_each_job_once:
  assumes "run_step\<^sup>*\<^sup>* (run_init c js) s" "Run_returned s" "0 < c"
  shows "mset js = mset (rs_queue s) + mset (rs_done s) \<and> (\<not> rs_ctxDone s \<longrightarrow> mset (rs_done s) = mset js)"
proof -
  have inv: "run_inv c js s" by (rule workers.inv_reach [OF refl assms(1)])
  have "\<forall>w\<in>set (rs_workers s). w = Stopped" using assms(2) by (simp add: Run_returned_def list_all_iff)
  moreover have "sum_list (map in_hand ws) = {#}" if "\<forall>w\<in>set ws. w = Stopped"
    for ws :: "'a worker_status list"
    using that by (induction ws) auto
  ultimately have "held s = {#}" by (simp add: held_def)
  moreover have "Stopped \<in> set (rs_workers s)"
    using inv assms(3) \<open>\<forall>w\<in>set (rs_workers s). w = Stopped\<close>
    by (cases "rs_workers s") (auto simp: run_inv_def)
  ultimately show ?thesis using inv by (simp add: run_inv_def)
qed

lemma run_example:
  "run_step\<^sup>*\<^sup>* (run_init 1 [7::nat]) \<lparr>rs_queue = [], rs_workers = [Stopped], rs_done = [7], rs_ctxDone = False\<rparr>"
proof -
  let ?s = "\<lambda>q w d. \<lparr>rs_queue = q, rs_workers = [w], rs_done = d, rs_ctxDone = False\<rparr>"
  have "run_init 1 [7] = ?s [7] Idle []" by (simp add: run_init_def)
  moreover have "run_step (?s [7] Idle []) (?s [] (Busy 7) [])" using receive [of 0 "?s [7] Idle []"] by simp
  moreover have "run_step (?s [] (Busy 7) []) (?s [] Idle [7])" using processed [of 0 "?s [] (Busy 7) []"] by simp
  moreover have "run_step (?s [] Idle [7]) (?s [] Stopped [7])" using closed [of 0 "?s [] Idle [7]"] by simp
  ultimately show ?thesis by (metis (no_types, lifting) converse_rtranclp_into_rtranclp rtranclp.rtrancl_refl)
qed

theorem Run_each_job_once_witness:
  "\<exists>s. run_step\<^sup>*\<^sup>* (run_init 1 [7::nat]) s \<and> Run_returned s \<and> mset (rs_done s) = {#7#}"
  by (rule exI, rule conjI [OF run_example])
     (use Run_each_job_once [OF run_example] in \<open>simp add: Run_returned_def\<close>)

end
