(* ===== verification/Robots_Txt.thy ===== *)
theory Robots_Txt
  imports Harvest_Prelude "HOL-Library.AList"
begin

text \<open>
  The Robots Exclusion Protocol of \<open>internal/robots/robots.go\<close>: parsing a file into the rules for
  one agent, matching a path, and the per-origin cache.

  The regular expressions the code builds have one shape only, literals joined by \<open>.*\<close>, anchored
  at the start and possibly at the end; \<open>MatchString\<close> is modelled on that shape directly, byte by
  byte, with \<open>.\<close> matching anything but a newline. \<open>regexp.MustCompile\<close> panics on a pattern that is
  not valid UTF-8; a panic is \<open>None\<close>. The scanner gives up at a line of \<open>2 ^ 20\<close> bytes or more
  without reporting it. The number after \<open>Crawl-delay\<close> goes through \<open>strconv.ParseFloat\<close> and a
  conversion; the parameter \<open>crawlDelay\<close> is the positive duration that gives, if any.
\<close>

subsection \<open>Patterns\<close>

definition unescape :: "string \<Rightarrow> string" where
  "unescape s = (case PathUnescape s of Some u \<Rightarrow> u | None \<Rightarrow> s)"

datatype robots_re = Re (re_parts: "string list") (re_anchored: bool)

definition compile :: "string \<Rightarrow> robots_re option" where
  "compile pattern =
     (let anchored = HasSuffix pattern ''$'';
          pattern = TrimSuffix pattern ''$'';
          u = unescape pattern
      in if valid_utf8 u then Some (Re (Split u CHR ''*'') anchored) else None)"

definition newline :: char where "newline = CHR 0x0A"

text \<open>Matching what follows a \<open>.*\<close>: the remaining literals, each behind another \<open>.*\<close>.\<close>

function (sequential) star_match :: "string list \<Rightarrow> bool \<Rightarrow> string \<Rightarrow> bool" where
  "star_match [] anchored s = (anchored \<longrightarrow> s = [])"
| "star_match (q # ps) anchored [] = (q = [] \<and> star_match ps anchored [])"
| "star_match (q # ps) anchored (c # t) =
     (HasPrefix (c # t) q \<and> star_match ps anchored (drop (length q) (c # t)) \<or>
      c \<noteq> newline \<and> star_match (q # ps) anchored t)"
  by pat_completeness auto
termination
  by (relation "measures [\<lambda>(ps, a, s). length ps, \<lambda>(ps, a, s). length s]") auto

definition MatchString :: "robots_re \<Rightarrow> string \<Rightarrow> bool" where
  "MatchString re path = (case re_parts re of
       [] \<Rightarrow> True
     | p # ps \<Rightarrow> HasPrefix path p \<and> star_match ps (re_anchored re) (drop (length p) path))"

subsection \<open>Rules\<close>

record rule =
  allow :: bool
  pattern :: string
  re :: robots_re

record rules =
  r_rules :: "rule list"
  CrawlDelay :: duration
  Sitemaps :: "string list"

definition newRule :: "bool \<Rightarrow> string \<Rightarrow> rule option" where
  "newRule al pat = map_option (\<lambda>r. \<lparr>allow = al, pattern = pat, re = r\<rparr>) (compile pat)"

definition AllowAll :: rules where
  "AllowAll = \<lparr>r_rules = [], CrawlDelay = 0, Sitemaps = []\<rparr>"

definition DisallowAll :: rules where
  "DisallowAll = \<lparr>r_rules = [\<lparr>allow = False, pattern = ''/'', re = Re [''/''] False\<rparr>], CrawlDelay = 0, Sitemaps = []\<rparr>"

fun Allowed_loop :: "string \<Rightarrow> rule list \<Rightarrow> int \<Rightarrow> bool \<Rightarrow> bool" where
  "Allowed_loop path [] best al = al"
| "Allowed_loop path (ru # rs) best al =
     (if \<not> MatchString (re ru) path then Allowed_loop path rs best al
      else (let n = int (length (pattern ru)) in
            if n > best \<or> n = best \<and> allow ru then Allowed_loop path rs n (allow ru)
            else Allowed_loop path rs best al))"

definition Allowed :: "rules \<Rightarrow> string \<Rightarrow> bool" where
  "Allowed r path =
     (let path = (if path = [] then ''/'' else path) in
      if path = ''/robots.txt'' then True
      else Allowed_loop (unescape path) (r_rules r) (- 1) True)"

subsection \<open>Parsing\<close>

record group =
  g_agents :: "string list"
  g_rules :: "rule list"
  g_delay :: duration

record parse_state =
  groups :: "group list"
  lastWasAgent :: bool
  sitemaps :: "string list"

definition maxLine :: nat where "maxLine = 2 ^ 20"

definition drop_cr :: "string \<Rightarrow> string" where
  "drop_cr s = TrimSuffix s [CHR 0x0D]"

definition scan_lines :: "string \<Rightarrow> string list" where
  "scan_lines content =
     (let ls = Split content newline;
          ls = (if last ls = [] then butlast ls else ls)
      in map drop_cr (takeWhile (\<lambda>l. length l < maxLine) ls))"

text \<open>\<open>cur\<close> is always the group appended last, and nil before the first one.\<close>

definition upd_cur :: "(group \<Rightarrow> group) \<Rightarrow> parse_state \<Rightarrow> parse_state" where
  "upd_cur f ps = ps\<lparr>groups := butlast (groups ps) @ [f (last (groups ps))]\<rparr>"

definition strip_comment :: "string \<Rightarrow> string" where
  "strip_comment line = takeWhile (\<lambda>c. c \<noteq> CHR ''#'') line"

definition parse_line :: "(string \<Rightarrow> duration option) \<Rightarrow> string \<Rightarrow> parse_state \<Rightarrow> parse_state option" where
  "parse_line crawlDelay line ps =
     (case Cut (strip_comment line) CHR '':'' of
        None \<Rightarrow> Some ps
      | Some (k, v) \<Rightarrow>
          (let key = ToLower (TrimSpace k); val = TrimSpace v in
           if key = ''user-agent'' then
             (let ps = (if \<not> lastWasAgent ps \<or> groups ps = []
                        then ps\<lparr>groups := groups ps @ [\<lparr>g_agents = [], g_rules = [], g_delay = 0\<rparr>]\<rparr>
                        else ps)
              in Some ((upd_cur (\<lambda>g. g\<lparr>g_agents := g_agents g @ [ToLower val]\<rparr>) ps)\<lparr>lastWasAgent := True\<rparr>))
           else if key = ''allow'' \<or> key = ''disallow'' then
             (if groups ps \<noteq> [] \<and> val \<noteq> [] then
                (case newRule (key = ''allow'') val of
                   None \<Rightarrow> None
                 | Some r \<Rightarrow> Some ((upd_cur (\<lambda>g. g\<lparr>g_rules := g_rules g @ [r]\<rparr>) ps)\<lparr>lastWasAgent := False\<rparr>))
              else Some (ps\<lparr>lastWasAgent := False\<rparr>))
           else if key = ''crawl-delay'' then
             (case (groups ps, crawlDelay val) of
                (g # gs, Some d) \<Rightarrow> Some ((upd_cur (\<lambda>g. g\<lparr>g_delay := d\<rparr>) ps)\<lparr>lastWasAgent := False\<rparr>)
              | _ \<Rightarrow> Some (ps\<lparr>lastWasAgent := False\<rparr>))
           else if key = ''sitemap'' then
             Some (ps\<lparr>sitemaps := sitemaps ps @ [val], lastWasAgent := False\<rparr>)
           else Some (ps\<lparr>lastWasAgent := False\<rparr>)))"

fun parse_lines :: "(string \<Rightarrow> duration option) \<Rightarrow> string list \<Rightarrow> parse_state \<Rightarrow> parse_state option" where
  "parse_lines crawlDelay [] ps = Some ps"
| "parse_lines crawlDelay (l # ls) ps =
     (case parse_line crawlDelay l ps of None \<Rightarrow> None | Some ps \<Rightarrow> parse_lines crawlDelay ls ps)"

text \<open>The two selection passes: the groups that satisfy \<open>P\<close>, merged in file order.\<close>

fun merge_groups :: "(group \<Rightarrow> bool) \<Rightarrow> group list \<Rightarrow> rules \<Rightarrow> rules" where
  "merge_groups P [] out = out"
| "merge_groups P (g # gs) out =
     merge_groups P gs (if P g
       then out\<lparr>r_rules := r_rules out @ g_rules g, CrawlDelay := max (CrawlDelay out) (g_delay g)\<rparr>
       else out)"

definition names_agent :: "string \<Rightarrow> group \<Rightarrow> bool" where
  "names_agent agent g = list_ex (\<lambda>a. a \<noteq> ''*'' \<and> a \<noteq> '''' \<and> Contains agent a) (g_agents g)"

definition names_star :: "group \<Rightarrow> bool" where
  "names_star g = list_ex (\<lambda>a. a = ''*'') (g_agents g)"

definition select_groups :: "string \<Rightarrow> group list \<Rightarrow> string list \<Rightarrow> rules" where
  "select_groups agent gs sms =
     (let out = \<lparr>r_rules = [], CrawlDelay = 0, Sitemaps = sms\<rparr>;
          matched = list_ex (names_agent agent) gs;
          out = merge_groups (names_agent agent) gs out
      in if \<not> matched then merge_groups names_star gs out else out)"

definition Parse :: "(string \<Rightarrow> duration option) \<Rightarrow> string \<Rightarrow> string \<Rightarrow> rules option" where
  "Parse crawlDelay content agent =
     map_option (\<lambda>ps. select_groups (ToLower agent) (groups ps) (sitemaps ps))
       (parse_lines crawlDelay (scan_lines content) \<lparr>groups = [], lastWasAgent = False, sitemaps = []\<rparr>)"

subsection \<open>The cache\<close>

text \<open>
  The getter's answer: the status and body, or \<open>None\<close> for a network error; \<open>'w\<close> is what a fetch
  changes. The \<open>sync.Once\<close> of an entry makes the first caller fetch and the others wait, so the
  entry of an origin goes once from absent to the rules.
\<close>

record cache =
  Agent :: string
  entries :: "(string \<times> rules) list"

definition robots_policy :: "(string \<Rightarrow> duration option) \<Rightarrow> string \<Rightarrow> (int \<times> string) option \<Rightarrow> rules option" where
  "robots_policy crawlDelay agent res = (case res of
       None \<Rightarrow> Some DisallowAll
     | Some (status, body) \<Rightarrow>
         if 200 \<le> status \<and> status < 300 then Parse crawlDelay body agent
         else if 400 \<le> status \<and> status < 500 \<and> status \<noteq> 429 then Some AllowAll
         else Some DisallowAll)"

definition For :: "(string \<Rightarrow> duration option) \<Rightarrow> (string \<Rightarrow> 'w \<Rightarrow> (int \<times> string) option \<times> 'w) \<Rightarrow>
    string \<Rightarrow> string \<Rightarrow> cache \<times> 'w \<Rightarrow> (rules \<times> cache \<times> 'w) option" where
  "For crawlDelay Get scheme host cw =
     (let (c, w) = cw; origin = scheme @ ''://'' @ host in
      case map_of (entries c) origin of
        Some r \<Rightarrow> Some (r, c, w)
      | None \<Rightarrow>
          (let (res, w) = Get (origin @ ''/robots.txt'') w in
           case robots_policy crawlDelay (Agent c) res of
             None \<Rightarrow> None
           | Some r \<Rightarrow> Some (r, c\<lparr>entries := AList.update origin r (entries c)\<rparr>, w)))"


subsection \<open>What a pattern matches\<close>

fun fill :: "string list \<Rightarrow> string list \<Rightarrow> string" where
  "fill (q # ps) (w # ws) = w @ q @ fill ps ws"
| "fill _ _ = []"

definition fills :: "string list \<Rightarrow> bool \<Rightarrow> string \<Rightarrow> bool" where
  "fills ps anchored s \<longleftrightarrow> (\<exists>ws t. length ws = length ps \<and> (\<forall>w\<in>set ws. newline \<notin> set w) \<and>
     s = fill ps ws @ t \<and> (anchored \<longrightarrow> t = []))"

lemma fills_Nil [simp]: "fills [] anchored s \<longleftrightarrow> (anchored \<longrightarrow> s = [])"
  by (auto simp: fills_def)

lemma fills_Cons:
  "fills (q # ps) anchored s \<longleftrightarrow>
     (\<exists>w r. newline \<notin> set w \<and> s = w @ q @ r \<and> fills ps anchored r)"
proof
  assume "fills (q # ps) anchored s"
  then obtain ws t where ws: "length ws = Suc (length ps)" "\<forall>w\<in>set ws. newline \<notin> set w"
    "s = fill (q # ps) ws @ t" "anchored \<longrightarrow> t = []" by (auto simp: fills_def)
  then obtain w ws' where "ws = w # ws'" by (cases ws) auto
  with ws show "\<exists>w r. newline \<notin> set w \<and> s = w @ q @ r \<and> fills ps anchored r"
    by (intro exI [of _ w] exI [of _ "fill ps ws' @ t"]) (auto simp: fills_def)
next
  assume "\<exists>w r. newline \<notin> set w \<and> s = w @ q @ r \<and> fills ps anchored r"
  then obtain w ws t where "newline \<notin> set w" "length ws = length ps" "\<forall>w\<in>set ws. newline \<notin> set w"
    "s = w @ q @ fill ps ws @ t" "anchored \<longrightarrow> t = []" by (auto simp: fills_def)
  then show "fills (q # ps) anchored s"
    unfolding fills_def by (intro exI [of _ "w # ws"] exI [of _ t]) auto
qed

lemma fills_step:
  "fills (q # ps) anchored (c # t) \<longleftrightarrow>
     HasPrefix (c # t) q \<and> fills ps anchored (drop (length q) (c # t)) \<or>
     c \<noteq> newline \<and> fills (q # ps) anchored t"
proof -
  have "(\<exists>w r. newline \<notin> set w \<and> c # t = w @ q @ r \<and> fills ps anchored r) \<longleftrightarrow>
      (\<exists>r. c # t = q @ r \<and> fills ps anchored r) \<or>
      (c \<noteq> newline \<and> (\<exists>w r. newline \<notin> set w \<and> t = w @ q @ r \<and> fills ps anchored r))"
    (is "?l \<longleftrightarrow> ?a \<or> ?b")
  proof
    assume ?l
    then obtain w r where w: "newline \<notin> set w" "c # t = w @ q @ r" "fills ps anchored r" by blast
    then show "?a \<or> ?b" by (cases w) auto
  next
    assume "?a \<or> ?b"
    then show ?l
    proof
      assume ?a then show ?l by (metis append_Nil empty_iff list.set(1))
    next
      assume ?b
      then obtain w r where "c \<noteq> newline" "newline \<notin> set w" "t = w @ q @ r" "fills ps anchored r" by blast
      then show ?l by (intro exI [of _ "c # w"] exI [of _ r]) auto
    qed
  qed
  moreover have "(\<exists>r. c # t = q @ r \<and> fills ps anchored r) \<longleftrightarrow>
      HasPrefix (c # t) q \<and> fills ps anchored (drop (length q) (c # t))"
    by (auto simp: HasPrefix_iff)
  ultimately show ?thesis by (simp only: fills_Cons)
qed

lemma star_match_fills: "star_match ps anchored s \<longleftrightarrow> fills ps anchored s"
proof (induction ps anchored s rule: star_match.induct)
  case (2 q ps anchored)
  then show ?case by (auto simp: fills_Cons)
next
  case (3 q ps anchored c t)
  then show ?case by (simp only: star_match.simps fills_step)
qed simp

text \<open>
  A compiled pattern matches exactly the paths that begin with its literals in order, with
  any newline-free text in the place of each \<open>*\<close>, and end there if the pattern ends in \<open>$\<close>. The
  matcher is compared with this reading of the pattern for every pattern and path.
\<close>

theorem MatchString_iff:
  "compile pat = Some r \<Longrightarrow>
   MatchString r path \<longleftrightarrow>
     (\<exists>p ps ws t. Split (unescape (TrimSuffix pat ''$'')) CHR ''*'' = p # ps \<and> length ws = length ps \<and>
        (\<forall>w\<in>set ws. newline \<notin> set w) \<and> path = p @ fill ps ws @ t \<and> (HasSuffix pat ''$'' \<longrightarrow> t = []))"
proof -
  assume "compile pat = Some r"
  then have r: "r = Re (Split (unescape (TrimSuffix pat ''$'')) CHR ''*'') (HasSuffix pat ''$'')"
    by (auto simp: compile_def Let_def split: if_splits)
  obtain p ps where P: "Split (unescape (TrimSuffix pat ''$'')) CHR ''*'' = p # ps"
    by (cases "Split (unescape (TrimSuffix pat ''$'')) CHR ''*''") auto
  show ?thesis
    unfolding r MatchString_def robots_re.sel P list.case star_match_fills fills_def HasPrefix_iff
    by auto
qed

theorem MatchString_iff_witness:
  "compile ''/a*.php$'' = Some (Re [''/a'', ''.php''] True) \<and>
   MatchString (Re [''/a'', ''.php''] True) ''/a/b.php'' \<and> \<not> MatchString (Re [''/a'', ''.php''] True) ''/a.php5''"
proof -
  have c: "compile ''/a*.php$'' = Some (Re [''/a'', ''.php''] True)" by code_simp
  have s: "Split (unescape (TrimSuffix ''/a*.php$'' ''$'')) CHR ''*'' = [''/a'', ''.php'']" by code_simp
  have "MatchString (Re [''/a'', ''.php''] True) ''/a/b.php''"
    unfolding MatchString_iff [OF c] s
    by (intro exI [of _ "''/a''"] exI [of _ "[''.php'']"] exI [of _ "[''/b'']"] exI [of _ "[]"])
       (simp add: newline_def)
  moreover have "\<not> MatchString (Re [''/a'', ''.php''] True) ''/a.php5''" by code_simp
  ultimately show ?thesis using c by simp
qed

subsection \<open>The longest match decides\<close>

definition matching :: "string \<Rightarrow> rule list \<Rightarrow> rule list" where
  "matching path rs = filter (\<lambda>ru. MatchString (re ru) path) rs"

lemma Max_insert_smaller:
  fixes b :: int
  assumes "finite A" "b \<le> n"
  shows "Max (insert b (insert n A)) = Max (insert n A)"
proof -
  have "n \<le> Max (insert n A)" by (rule Max_ge) (simp_all add: assms)
  with assms have "b \<le> Max (insert n A)" by linarith
  then show ?thesis using assms Max_insert [of "insert n A" b] by (simp add: max_def)
qed

lemma Allowed_loop_spec:
  "Allowed_loop path rs best al \<longleftrightarrow>
     (let M = matching path rs; n = Max (insert best ((\<lambda>ru. int (length (pattern ru))) ` set M)) in
      (\<exists>ru\<in>set M. int (length (pattern ru)) = n \<and> allow ru) \<or> n = best \<and> al)"
proof (induction path rs best al rule: Allowed_loop.induct)
  case (1 path best al)
  then show ?case by (simp add: matching_def)
next
  case (2 path ru rs best al)
  let ?f = "\<lambda>ru. int (length (pattern ru))"
  let ?M = "matching path rs"
  show ?case
  proof (cases "MatchString (re ru) path")
    case False
    with 2 show ?thesis by (simp add: matching_def)
  next
    case True
    then have M: "matching path (ru # rs) = ru # ?M" by (simp add: matching_def)
    define n where "n = ?f ru"
    define m where "m = Max (insert best (insert n (?f ` set ?M)))"
    have ge: "best \<le> m" "n \<le> m" unfolding m_def by (rule Max_ge; simp)+
    show ?thesis
    proof (cases "n > best \<or> n = best \<and> allow ru")
      case pick: True
      have eq: "Max (insert n (?f ` set ?M)) = m"
        unfolding m_def using pick by (intro Max_insert_smaller [symmetric]) auto
      have "Allowed_loop path (ru # rs) best al = Allowed_loop path rs n (allow ru)"
        using True pick by (simp add: Let_def n_def)
      also have "\<dots> \<longleftrightarrow> (\<exists>x\<in>set ?M. ?f x = m \<and> allow x) \<or> m = n \<and> allow ru"
        using "2.IH"(2) [OF _ refl] True pick eq by (simp add: n_def Let_def)
      also have "\<dots> \<longleftrightarrow> (\<exists>x\<in>set (ru # ?M). ?f x = m \<and> allow x) \<or> m = best \<and> al"
        using pick ge by (auto simp: n_def)
      finally show ?thesis by (simp add: M Let_def m_def n_def insert_commute)
    next
      case skip: False
      have eq: "Max (insert best (?f ` set ?M)) = m"
        unfolding m_def insert_commute [of best n] using skip
        by (intro Max_insert_smaller [symmetric]) auto
      have "Allowed_loop path (ru # rs) best al = Allowed_loop path rs best al"
        using True skip by (auto simp: Let_def n_def)
      also have "\<dots> \<longleftrightarrow> (\<exists>x\<in>set ?M. ?f x = m \<and> allow x) \<or> m = best \<and> al"
        using "2.IH"(3) [OF _ refl] True skip eq by (simp add: n_def Let_def)
      also have "\<dots> \<longleftrightarrow> (\<exists>x\<in>set (ru # ?M). ?f x = m \<and> allow x) \<or> m = best \<and> al"
        using skip ge by (auto simp: n_def)
      finally show ?thesis by (simp add: M Let_def m_def n_def insert_commute)
    qed
  qed
qed


text \<open>
  C31. A path is allowed exactly if it is \<open>/robots.txt\<close>, or no rule matches it, or some matching
  \<open>Allow\<close> rule is at least as long as every matching rule: the longest match wins and \<open>Allow\<close>
  wins a tie, whatever the order of the rules. The empty path stands for \<open>/\<close>.
\<close>

theorem Allowed_longest_match:
  "Allowed r path \<longleftrightarrow>
     (let path = (if path = [] then ''/'' else path); M = set (matching (unescape path) (r_rules r)) in
      path = ''/robots.txt'' \<or> M = {} \<or>
      (\<exists>ru\<in>M. allow ru \<and> (\<forall>x\<in>M. length (pattern x) \<le> length (pattern ru))))"
proof -
  define q where "q = (if path = [] then ''/'' else path)"
  define M where "M = set (matching (unescape q) (r_rules r))"
  let ?f = "\<lambda>ru. int (length (pattern ru))"
  define n where "n = Max (insert (- 1) (?f ` M))"
  have fin: "finite M" by (simp add: M_def)
  have eq: "?f ru = n \<longleftrightarrow> (\<forall>x\<in>M. length (pattern x) \<le> length (pattern ru))" if "ru \<in> M" for ru
  proof -
    have "?f ru = n \<longleftrightarrow> (\<forall>y\<in>insert (- 1) (?f ` M). y \<le> ?f ru)"
      unfolding n_def using fin that Max_eq_iff [of "insert (- 1) (?f ` M)" "?f ru"] by (auto simp: eq_commute)
    then show ?thesis by auto
  qed
  have neg: "n = - 1 \<longleftrightarrow> M = {}"
  proof (cases "M = {}")
    case False
    then obtain x where "x \<in> M" by blast
    then have "?f x \<le> n" unfolding n_def using fin by (intro Max_ge) auto
    with False show ?thesis by auto
  qed (simp add: n_def)
  have "Allowed_loop (unescape q) (r_rules r) (- 1) True \<longleftrightarrow> (\<exists>ru\<in>M. ?f ru = n \<and> allow ru) \<or> n = - 1"
    unfolding Allowed_loop_spec Let_def M_def [symmetric] n_def [symmetric] by simp
  then have "Allowed r path \<longleftrightarrow> q = ''/robots.txt'' \<or> M = {} \<or>
      (\<exists>ru\<in>M. allow ru \<and> (\<forall>x\<in>M. length (pattern x) \<le> length (pattern ru)))"
    using eq neg by (auto simp: Allowed_def q_def Let_def)
  then show ?thesis by (simp only: Let_def q_def M_def)
qed

theorem Allowed_longest_match_witness:
  "\<forall>path. Allowed AllowAll path"
  using Allowed_longest_match [of AllowAll] by (simp add: AllowAll_def matching_def Let_def)

lemma unescape_slash: "HasPrefix (unescape (CHR ''/'' # s)) ''/''"
  by (simp add: unescape_def HasPrefix_def split: option.split)

text \<open>
  What a site's answer means: a 2xx file is parsed; any 4xx except 429 allows everything;
  a network error, 429, a redirect status or a 5xx disallows every path but \<open>/robots.txt\<close>.
\<close>

theorem robots_policy_meaning:
  "(\<forall>s. 400 \<le> s \<and> s < 500 \<and> s \<noteq> 429 \<longrightarrow>
      pred_option (\<lambda>r. Allowed r path) (robots_policy cd ag (Some (s, body))) \<and>
      robots_policy cd ag (Some (s, body)) \<noteq> None) \<and>
   (\<forall>res. (res = None \<or> (\<exists>s b. res = Some (s, b) \<and> \<not> (200 \<le> s \<and> s < 300) \<and> (s < 400 \<or> 500 \<le> s \<or> s = 429))) \<longrightarrow>
      pred_option (\<lambda>r. Allowed r (CHR ''/'' # path) \<longleftrightarrow> path = ''robots.txt'') (robots_policy cd ag res) \<and>
      robots_policy cd ag res \<noteq> None)"
proof -
  have all: "Allowed AllowAll path" by (simp add: Allowed_def AllowAll_def Let_def)
  have none: "Allowed DisallowAll (CHR ''/'' # path) \<longleftrightarrow> path = ''robots.txt''"
    using unescape_slash [of path] by (simp add: Allowed_def DisallowAll_def Let_def MatchString_def)
  show ?thesis by (auto simp: robots_policy_def all none)
qed

theorem robots_policy_meaning_witness:
  "pred_option (\<lambda>r. Allowed r ''/private'') (robots_policy (\<lambda>v. None) ''bot'' (Some (404, ''x''))) \<and>
   \<not> pred_option (\<lambda>r. Allowed r ''/private'') (robots_policy (\<lambda>v. None) ''bot'' (Some (503, ''x'')))"
proof -
  have a: "pred_option (\<lambda>r. Allowed r ''/private'') (robots_policy (\<lambda>v. None) ''bot'' (Some (404, ''x'')))"
    using robots_policy_meaning [of "''/private''" "\<lambda>v. None" "''bot''" "''x''"] by simp
  have "pred_option (\<lambda>r. Allowed r ''/private'' \<longleftrightarrow> ''private'' = ''robots.txt'') (robots_policy (\<lambda>v. None) ''bot'' (Some (503, ''x'')))"
    "robots_policy (\<lambda>v. None) ''bot'' (Some (503, ''x'')) \<noteq> None"
    using robots_policy_meaning [of "''private''" "\<lambda>v. None" "''bot''" "''x''"] by auto
  then show ?thesis using a by auto
qed

subsection \<open>Parsing what was printed\<close>

text \<open>
  A robots file as its author means it: groups of agent names and rules. Printing it gives the
  text of the file; the conditions say that a name or pattern can be written on a line at all.
\<close>

type_synonym group_spec = "string list \<times> (bool \<times> string) list"

definition agent_line :: "string \<Rightarrow> string" where
  "agent_line a = ''User-agent: '' @ a"

definition rule_line :: "bool \<times> string \<Rightarrow> string" where
  "rule_line r = (if fst r then ''Allow: '' else ''Disallow: '') @ snd r"

definition group_lines :: "group_spec \<Rightarrow> string list" where
  "group_lines g = map agent_line (fst g) @ map rule_line (snd g)"

definition print_file :: "group_spec list \<Rightarrow> string" where
  "print_file gs = concat (map (\<lambda>l. l @ [newline]) (concat (map group_lines gs)))"

definition writable :: "string \<Rightarrow> bool" where
  "writable v \<longleftrightarrow> v \<noteq> [] \<and> TrimSpace v = v \<and> newline \<notin> set v \<and> CHR ''#'' \<notin> set v \<and> length v < maxLine - 12"

definition group_ok :: "group_spec \<Rightarrow> bool" where
  "group_ok g \<longleftrightarrow> fst g \<noteq> [] \<and> snd g \<noteq> [] \<and> list_all writable (fst g) \<and>
     list_all (\<lambda>r. writable (snd r) \<and> compile (snd r) \<noteq> None) (snd g)"

definition rule_of :: "bool \<times> string \<Rightarrow> rule" where
  "rule_of r = \<lparr>allow = fst r, pattern = snd r, re = the (compile (snd r))\<rparr>"

definition group_of :: "group_spec \<Rightarrow> group" where
  "group_of g = \<lparr>g_agents = map ToLower (fst g), g_rules = map rule_of (snd g), g_delay = 0\<rparr>"

lemma Split_lines:
  "list_all (\<lambda>l. c \<notin> set l) ls \<Longrightarrow> Split (concat (map (\<lambda>l. l @ [c]) ls)) c = ls @ [[]]"
proof (induction ls)
  case (Cons l ls)
  have "c \<notin> set l \<Longrightarrow> Split (l @ c # s) c = l # Split s c" for s
    by (induction l) auto
  with Cons show ?case by simp
qed simp

lemma TrimSpace_last:
  assumes "TrimSpace v = v" "v \<noteq> []"
  shows "\<not> is_space (last v)"
proof -
  have "rev (TrimSpace v) = dropWhile is_space (rev (dropWhile is_space v))" by (simp add: TrimSpace_def)
  then have r: "rev v = dropWhile is_space (rev (dropWhile is_space v))" using assms(1) by simp
  then have "\<not> is_space (hd (rev v))" using assms(2) by (metis hd_dropWhile rev_is_Nil_conv)
  then show ?thesis by (simp add: hd_rev)
qed

lemma drop_cr_id: "s \<noteq> [] \<Longrightarrow> last s \<noteq> CHR 0x0D \<Longrightarrow> drop_cr s = s"
  by (auto simp: drop_cr_def TrimSuffix_def HasSuffix_iff)

lemma scan_lines_print:
  assumes "list_all (\<lambda>l. newline \<notin> set l \<and> length l < maxLine \<and> l \<noteq> [] \<and> last l \<noteq> CHR 0x0D) ls"
  shows "scan_lines (concat (map (\<lambda>l. l @ [newline]) ls)) = ls"
proof -
  have "list_all (\<lambda>l. newline \<notin> set l) ls" using assms by (auto simp: list_all_iff)
  from Split_lines [OF this] have "scan_lines (concat (map (\<lambda>l. l @ [newline]) ls)) =
      map drop_cr (takeWhile (\<lambda>l. length l < maxLine) ls)"
    by (simp add: scan_lines_def Let_def)
  also have "takeWhile (\<lambda>l. length l < maxLine) ls = ls"
    using assms by (simp add: takeWhile_eq_all_conv list_all_iff)
  also have "map drop_cr ls = ls" using assms by (intro map_idI) (simp add: list_all_iff drop_cr_id)
  finally show ?thesis .
qed


lemma TrimSpace_space: "TrimSpace (CHR '' '' # v) = TrimSpace v"
  by (simp add: TrimSpace_def is_space_def byte_def)

lemma strip_comment_id: "CHR ''#'' \<notin> set l \<Longrightarrow> strip_comment l = l"
  by (simp add: strip_comment_def takeWhile_eq_all_conv) blast

lemma Cut_field: "CHR '':'' \<notin> set k \<Longrightarrow> Cut (k @ CHR '':'' # v) CHR '':'' = Some (k, v)"
  by (simp add: Cut_Some)

lemma parse_agent_line:
  assumes "writable a"
  shows "parse_line cd (agent_line a) ps =
    Some ((upd_cur (\<lambda>g. g\<lparr>g_agents := g_agents g @ [ToLower a]\<rparr>)
      (if \<not> lastWasAgent ps \<or> groups ps = []
       then ps\<lparr>groups := groups ps @ [\<lparr>g_agents = [], g_rules = [], g_delay = 0\<rparr>]\<rparr> else ps))\<lparr>lastWasAgent := True\<rparr>)"
proof -
  have c: "Cut (strip_comment (agent_line a)) CHR '':'' = Some (''User-agent'', CHR '' '' # a)"
    using assms by (simp add: agent_line_def strip_comment_id writable_def)
  have k: "ToLower (TrimSpace ''User-agent'') = ''user-agent''" by code_simp
  have v: "TrimSpace (CHR '' '' # a) = a" using assms by (simp add: TrimSpace_space writable_def)
  show ?thesis unfolding parse_line_def c option.case prod.case Let_def k v by simp
qed

lemma parse_rule_line:
  assumes "writable (snd r)" "compile (snd r) \<noteq> None" "groups ps \<noteq> []"
  shows "parse_line cd (rule_line r) ps =
    Some ((upd_cur (\<lambda>g. g\<lparr>g_rules := g_rules g @ [rule_of r]\<rparr>) ps)\<lparr>lastWasAgent := False\<rparr>)"
proof -
  obtain al p where r: "r = (al, p)" by force
  define key where "key = (if al then ''Allow'' else ''Disallow'')"
  have c: "Cut (strip_comment (rule_line r)) CHR '':'' = Some (key, CHR '' '' # p)"
    using assms(1) by (simp add: r rule_line_def key_def strip_comment_id writable_def)
  have k: "ToLower (TrimSpace key) = (if al then ''allow'' else ''disallow'')"
    unfolding key_def by (cases al; simp; code_simp)
  have v: "TrimSpace (CHR '' '' # p) = p" using assms(1) by (simp add: r TrimSpace_space writable_def)
  have n: "newRule al p = Some (rule_of r)" using assms(2) by (auto simp: newRule_def rule_of_def r)
  have "p \<noteq> []" using assms(1) by (simp add: r writable_def)
  with assms(3) n show ?thesis unfolding parse_line_def c option.case prod.case Let_def k v by (cases al) simp_all
qed

lemma upd_cur_snoc [simp]:
  "upd_cur f (ps\<lparr>groups := gs @ [g]\<rparr>) = ps\<lparr>groups := gs @ [f g]\<rparr>"
  by (simp add: upd_cur_def)

abbreviation at_group :: "group list \<Rightarrow> group \<Rightarrow> bool \<Rightarrow> string list \<Rightarrow> parse_state" where
  "at_group gs g la sms \<equiv> \<lparr>groups = gs @ [g], lastWasAgent = la, sitemaps = sms\<rparr>"

lemma upd_cur_at [simp]: "upd_cur f (at_group gs g la sms) = at_group gs (f g) la sms"
  by (simp add: upd_cur_def)

lemma parse_lines_append:
  "parse_lines cd (xs @ ys) ps = (case parse_lines cd xs ps of None \<Rightarrow> None | Some ps \<Rightarrow> parse_lines cd ys ps)"
  by (induction cd xs ps rule: parse_lines.induct) (simp_all split: option.split)

lemma parse_more_agents:
  assumes "list_all writable as"
  shows "parse_lines cd (map agent_line as) (at_group gs g True sms) =
    Some (at_group gs (g\<lparr>g_agents := g_agents g @ map ToLower as\<rparr>) True sms)"
  using assms by (induction as arbitrary: g) (simp_all add: parse_agent_line)

lemma parse_rules:
  assumes "list_all (\<lambda>r. writable (snd r) \<and> compile (snd r) \<noteq> None) rs" "rs \<noteq> []"
  shows "parse_lines cd (map rule_line rs) (at_group gs g la sms) =
    Some (at_group gs (g\<lparr>g_rules := g_rules g @ map rule_of rs\<rparr>) False sms)"
  using assms
proof (induction rs arbitrary: g la)
  case (Cons r rs)
  have "parse_line cd (rule_line r) (at_group gs g la sms) =
      Some (at_group gs (g\<lparr>g_rules := g_rules g @ [rule_of r]\<rparr>) False sms)"
    using Cons.prems parse_rule_line [of r "at_group gs g la sms" cd] by simp
  with Cons show ?case by (cases "rs = []") simp_all
qed simp

lemma parse_group:
  assumes "group_ok g"
  shows "parse_lines cd (group_lines g) \<lparr>groups = gs, lastWasAgent = False, sitemaps = sms\<rparr> =
    Some \<lparr>groups = gs @ [group_of g], lastWasAgent = False, sitemaps = sms\<rparr>"
proof -
  obtain a as rs where g: "g = (a # as, rs)" using assms by (cases g; cases "fst g") (auto simp: group_ok_def)
  have "writable a" using assms by (simp add: g group_ok_def)
  from parse_agent_line [OF this, of cd "\<lparr>groups = gs, lastWasAgent = False, sitemaps = sms\<rparr>"]
  have first: "parse_line cd (agent_line a) \<lparr>groups = gs, lastWasAgent = False, sitemaps = sms\<rparr> =
      Some (at_group gs \<lparr>g_agents = [ToLower a], g_rules = [], g_delay = 0\<rparr> True sms)"
    by (simp add: upd_cur_def)
  show ?thesis
    using assms
    by (simp add: g group_lines_def first parse_lines_append parse_more_agents parse_rules group_ok_def
        group_of_def)
qed

lemma parse_groups:
  assumes "list_all group_ok gs"
  shows "parse_lines cd (concat (map group_lines gs)) \<lparr>groups = hs, lastWasAgent = False, sitemaps = sms\<rparr> =
    Some \<lparr>groups = hs @ map group_of gs, lastWasAgent = False, sitemaps = sms\<rparr>"
  using assms by (induction gs arbitrary: hs) (simp_all add: parse_lines_append parse_group)

lemma group_lines_ok:
  assumes "group_ok g" "l \<in> set (group_lines g)"
  shows "newline \<notin> set l \<and> length l < maxLine \<and> l \<noteq> [] \<and> last l \<noteq> CHR 0x0D"
proof -
  have lst: "last v \<noteq> CHR 0x0D" if "writable v" for v
    using TrimSpace_last [of v] that by (auto simp: writable_def is_space_def byte_def)
  consider a where "a \<in> set (fst g)" "l = agent_line a" | r where "r \<in> set (snd g)" "l = rule_line r"
    using assms(2) by (auto simp: group_lines_def)
  then show ?thesis
  proof cases
    case 1
    then have "writable a" using assms(1) by (auto simp: group_ok_def list_all_iff)
    with 1 lst [OF this] show ?thesis
      by (simp add: agent_line_def writable_def newline_def maxLine_def)
  next
    case 2
    then have "writable (snd r)" using assms(1) by (auto simp: group_ok_def list_all_iff)
    with 2 lst [OF this] show ?thesis
      by (simp add: rule_line_def writable_def newline_def maxLine_def)
  qed
qed


definition sample_file :: "group_spec list" where
  "sample_file = [([''*''], [(False, ''/'')]), ([''Harvester''], [(False, ''/private''), (True, ''/private/faq'')])]"


text \<open>
  A robots.txt whose pattern decodes to bytes that are not UTF-8 crashes the crawler:
  \<open>MustCompile\<close> panics while the file is parsed.
\<close>

theorem Parse_panics_on_invalid_utf8:
  "Parse cd (''User-agent: *'' @ [newline] @ ''Disallow: /%FF'') agent = None"
proof -
  have s: "scan_lines (''User-agent: *'' @ [newline] @ ''Disallow: /%FF'') = [''User-agent: *'', ''Disallow: /%FF'']"
    by (simp add: scan_lines_def newline_def maxLine_def drop_cr_def TrimSuffix_def HasSuffix_def HasPrefix_def Let_def)
  have n: "newRule False ''/%FF'' = None" by code_simp
  have w: "writable ''*''"
    by (simp add: writable_def maxLine_def newline_def TrimSpace_def is_space_def byte_def)
  have a: "parse_line cd ''User-agent: *'' \<lparr>groups = [], lastWasAgent = False, sitemaps = []\<rparr> =
      Some \<lparr>groups = [\<lparr>g_agents = [''*''], g_rules = [], g_delay = 0\<rparr>], lastWasAgent = True, sitemaps = []\<rparr>"
    using parse_agent_line [OF w, of cd "\<lparr>groups = [], lastWasAgent = False, sitemaps = []\<rparr>"]
    by (simp add: agent_line_def upd_cur_def ToLower_def lower_char_def byte_def)
  have k: "Cut (strip_comment ''Disallow: /%FF'') CHR '':'' = Some (''Disallow'', '' /%FF'')"
    "ToLower (TrimSpace ''Disallow'') = ''disallow''" "TrimSpace '' /%FF'' = ''/%FF''" by code_simp+
  have "parse_line cd ''Disallow: /%FF''
      \<lparr>groups = [\<lparr>g_agents = [''*''], g_rules = [], g_delay = 0\<rparr>], lastWasAgent = True, sitemaps = []\<rparr> = None"
    unfolding parse_line_def k option.case prod.case Let_def by (simp add: n)
  then show ?thesis unfolding Parse_def s by (simp add: a)
qed

subsection \<open>One fetch per origin\<close>

text \<open>
  The cache asks a site once: after the rules of an origin were returned, every later call
  for that origin returns the same rules without a request, and the entries of all other
  origins are untouched.
\<close>

theorem For_fetches_once:
  assumes "For cd Get scheme host (c, w) = Some (r, c', w')"
  shows "For cd Get scheme host (c', v) = Some (r, c', v) \<and>
    (\<forall>sc h. sc @ ''://'' @ h \<noteq> scheme @ ''://'' @ host \<longrightarrow>
       map_of (entries c') (sc @ ''://'' @ h) = map_of (entries c) (sc @ ''://'' @ h))"
  using assms by (auto simp: For_def Let_def case_prod_unfold update_conv split: option.splits)

theorem For_fetches_once_witness:
  "\<exists>r c'. For (\<lambda>v. None) (\<lambda>u w. (Some (404, ''''), Suc w)) ''http'' ''a'' (\<lparr>Agent = ''bot'', entries = []\<rparr>, 0) = Some (r, c', 1) \<and>
     For (\<lambda>v. None) (\<lambda>u w. (Some (404, ''''), Suc w)) ''http'' ''a'' (c', 5) = Some (r, c', 5)"
proof -
  have "For (\<lambda>v. None) (\<lambda>u w. (Some (404, ''''), Suc w)) ''http'' ''a'' (\<lparr>Agent = ''bot'', entries = []\<rparr>, 0) =
      Some (AllowAll, \<lparr>Agent = ''bot'', entries = [(''http://a'', AllowAll)]\<rparr>, 1)"
    by (simp add: For_def robots_policy_def)
  from For_fetches_once [OF this, of 5] this show ?thesis by blast
qed

end
