(* ===== verification/Extract.thy ===== *)
theory Extract
  imports Fetch_Outcome Serp_Model "HOL-Library.List_Lexorder" "HOL-Library.Char_ord"
begin

text \<open>
  Extraction of a page's data, \<open>internal/extract/extract.go\<close>. The HTML parser and selector engine
  (goquery, cascadia) and \<open>net/url\<close>'s parser are the parameter \<open>api\<close>: a document is its root
  element, a selection is the list of elements a selector finds below an element, in page order.
  Maps of field rules are association lists; Go visits them in no particular order, which the
  results do not depend on.
\<close>

subsection \<open>Parameters and rules\<close>

record 'n dom_api =
  d_Document :: "string \<Rightarrow> 'n option"
  d_Find :: "'n \<Rightarrow> string \<Rightarrow> 'n list"
  d_Text :: "'n \<Rightarrow> string"
  d_Html :: "'n \<Rightarrow> string option"
  d_Attr :: "'n \<Rightarrow> string \<Rightarrow> string option"
  d_Level :: "'n \<Rightarrow> int"
  d_BodyText :: "'n \<Rightarrow> string"
  d_ValidSelector :: "string \<Rightarrow> bool"
  d_ValidJSON :: "string \<Rightarrow> bool"
  d_ParseURL :: "string \<Rightarrow> url option"
  d_ParseRef :: "url \<Rightarrow> string \<Rightarrow> url option"
  d_String :: "url \<Rightarrow> string"

record field_rule =
  f_Selector :: string
  Attr :: string
  All :: bool
  f_Required :: bool

record items_spec =
  i_Selector :: string
  i_Fields :: "(string \<times> field_rule) list"
  i_Required :: bool

record extract_spec =
  s_Fields :: "(string \<times> field_rule) list"
  s_Items :: "items_spec option"
  TextLimit :: int
  SkipLinks :: bool

datatype field_value = VString string | VList "string list"

definition DefaultTextLimit :: int where "DefaultTextLimit = 65536"

subsection \<open>Validation\<close>

definition check_selector :: "'n dom_api \<Rightarrow> string \<Rightarrow> string \<Rightarrow> go_error option" where
  "check_selector api loc sel =
     (if TrimSpace sel = [] then Some (ErrorString (''extract: '' @ loc @ '': empty selector''))
      else if \<not> d_ValidSelector api sel
      then Some (ErrorString (''extract: '' @ loc @ '': invalid selector''))
      else None)"

fun first_error :: "go_error option list \<Rightarrow> go_error option" where
  "first_error [] = None"
| "first_error (Some e # es) = Some e"
| "first_error (None # es) = first_error es"

definition Validate :: "'n dom_api \<Rightarrow> extract_spec \<Rightarrow> go_error option" where
  "Validate api s = first_error
     (map (\<lambda>(name, r). check_selector api (''field '' @ name) (f_Selector r)) (s_Fields s) @
      (case s_Items s of
         None \<Rightarrow> []
       | Some it \<Rightarrow> check_selector api ''items'' (i_Selector it) #
           map (\<lambda>(name, r). check_selector api (''items field '' @ name) (f_Selector r)) (i_Fields it)))"

subsection \<open>Text\<close>

definition clean :: "string \<Rightarrow> string" where
  "clean s = join (Fields s) '' ''"

text \<open>\<open>s[n] & 0xC0 == 0x80\<close> says that byte \<open>n\<close> continues a character.\<close>

fun cut_back :: "string \<Rightarrow> nat \<Rightarrow> nat" where
  "cut_back s 0 = 0"
| "cut_back s (Suc k) = (if Suc k < length s \<and> cont (s ! Suc k) then cut_back s k else Suc k)"

definition truncateUTF8 :: "string \<Rightarrow> nat \<Rightarrow> string" where
  "truncateUTF8 s n = (if length s \<le> n then s else take (cut_back s n) s)"

definition visibleText :: "'n dom_api \<Rightarrow> 'n \<Rightarrow> string" where
  "visibleText api doc = clean (d_BodyText api doc)"

subsection \<open>Reading fields\<close>

definition first_attr :: "'n dom_api \<Rightarrow> 'n list \<Rightarrow> string \<Rightarrow> string option" where
  "first_attr api ns a = (case ns of [] \<Rightarrow> None | n # _ \<Rightarrow> d_Attr api n a)"

definition first_text :: "'n dom_api \<Rightarrow> 'n list \<Rightarrow> string" where
  "first_text api ns = (case ns of [] \<Rightarrow> '''' | n # _ \<Rightarrow> d_Text api n)"

definition AttrOr :: "string option \<Rightarrow> string \<Rightarrow> string" where
  "AttrOr a d = (case a of None \<Rightarrow> d | Some v \<Rightarrow> v)"

definition metaContent :: "'n dom_api \<Rightarrow> 'n \<Rightarrow> string \<Rightarrow> string" where
  "metaContent api doc sel = TrimSpace (AttrOr (first_attr api (d_Find api doc sel) ''content'') '''')"

definition resolve :: "'n dom_api \<Rightarrow> url \<Rightarrow> string \<Rightarrow> string" where
  "resolve api base ref = (case d_ParseRef api base (TrimSpace ref) of
       None \<Rightarrow> ref | Some u \<Rightarrow> d_String api u)"

definition read_attr :: "'n dom_api \<Rightarrow> url \<Rightarrow> 'n \<Rightarrow> string \<Rightarrow> string option" where
  "read_attr api base m a =
     (let la = ToLower a in
      if la = '''' \<or> la = ''text'' then
        (let v = clean (d_Text api m) in if v \<noteq> [] then Some v else None)
      else if la = ''html'' then
        (case d_Html api m of
           None \<Rightarrow> None
         | Some v \<Rightarrow> if TrimSpace v \<noteq> [] then Some (TrimSpace v) else None)
      else case d_Attr api m a of
          None \<Rightarrow> None
        | Some v \<Rightarrow>
            (let v = TrimSpace v;
                 v = (if la \<in> {''href'', ''src'', ''action''} then resolve api base v else v)
             in if v \<noteq> [] then Some v else None))"

text \<open>Without \<open>All\<close> only the first match is looked at, also when it has no value.\<close>

definition apply_rule :: "'n dom_api \<Rightarrow> url \<Rightarrow> 'n \<Rightarrow> field_rule \<Rightarrow> field_value option" where
  "apply_rule api base s rule =
     (let matches = d_Find api s (f_Selector rule);
          visited = (if All rule then matches else take 1 matches);
          values = List.map_filter (\<lambda>m. read_attr api base m (Attr rule)) visited
      in case values of
           [] \<Rightarrow> None
         | v # _ \<Rightarrow> if All rule then Some (VList values) else Some (VString v))"

subsection \<open>Links\<close>

definition link_of :: "'n dom_api \<Rightarrow> url \<Rightarrow> 'n \<Rightarrow> string option" where
  "link_of api base s =
     (if Contains (ToLower (AttrOr (d_Attr api s ''rel'') '''')) ''nofollow'' then None
      else case d_Attr api s ''href'' of
          None \<Rightarrow> None
        | Some href \<Rightarrow>
            (case d_ParseRef api base (TrimSpace href) of
               None \<Rightarrow> None
             | Some u \<Rightarrow>
                 if Scheme u \<noteq> ''http'' \<and> Scheme u \<noteq> ''https'' then None
                 else Some (d_String api (u\<lparr>Fragment := '''', RawFragment := ''''\<rparr>))))"

fun Links_loop :: "'n dom_api \<Rightarrow> url \<Rightarrow> 'n list \<Rightarrow> string list \<Rightarrow> string list" where
  "Links_loop api base [] out = out"
| "Links_loop api base (s # ss) out =
     Links_loop api base ss
       (case link_of api base s of
          None \<Rightarrow> out
        | Some a \<Rightarrow> if a \<in> set out then out else out @ [a])"

definition Links :: "'n dom_api \<Rightarrow> url \<Rightarrow> 'n \<Rightarrow> string \<Rightarrow> string list" where
  "Links api base doc selector = Links_loop api base (d_Find api doc selector) []"

subsection \<open>The page\<close>

definition page_base :: "'n dom_api \<Rightarrow> url \<Rightarrow> 'n \<Rightarrow> url" where
  "page_base api base doc = (case first_attr api (d_Find api doc ''base[href]'') ''href'' of
       None \<Rightarrow> base
     | Some href \<Rightarrow> (case d_ParseRef api base (TrimSpace href) of None \<Rightarrow> base | Some b \<Rightarrow> b))"

definition page_headings :: "'n dom_api \<Rightarrow> 'n \<Rightarrow> heading list" where
  "page_headings api doc = List.map_filter
     (\<lambda>s. let text = clean (d_Text api s)
          in if text \<noteq> [] then Some \<lparr>Level = d_Level api s, h_Text = text\<rparr> else None)
     (d_Find api doc ''h1, h2, h3'')"

fun open_graph :: "'n dom_api \<Rightarrow> 'n list \<Rightarrow> (string \<times> string) list \<Rightarrow> (string \<times> string) list" where
  "open_graph api [] og = og"
| "open_graph api (s # ss) og =
     (let prop = AttrOr (d_Attr api s ''property'') '''' in
      open_graph api ss
        (case d_Attr api s ''content'' of
           None \<Rightarrow> og
         | Some content \<Rightarrow> if map_of og prop = None then og @ [(prop, TrimSpace content)] else og))"

definition json_ld :: "'n dom_api \<Rightarrow> 'n \<Rightarrow> string list" where
  "json_ld api doc = filter (d_ValidJSON api)
     (map (\<lambda>s. TrimSpace (d_Text api s)) (d_Find api doc ''script[type=\"application/ld+json\" i]''))"

definition page_fields :: "'n dom_api \<Rightarrow> url \<Rightarrow> 'n \<Rightarrow> (string \<times> field_rule) list \<Rightarrow> (string \<times> field_value) list" where
  "page_fields api base s rules =
     List.map_filter (\<lambda>(name, rule). map_option (Pair name) (apply_rule api base s rule)) rules"

definition missing_fields :: "'n dom_api \<Rightarrow> url \<Rightarrow> 'n \<Rightarrow> (string \<times> field_rule) list \<Rightarrow> string list" where
  "missing_fields api base s rules =
     map fst (filter (\<lambda>(name, rule). apply_rule api base s rule = None \<and> f_Required rule) rules)"

definition page_items :: "'n dom_api \<Rightarrow> url \<Rightarrow> 'n \<Rightarrow> items_spec \<Rightarrow> (string \<times> field_value) list list" where
  "page_items api base doc it =
     filter (\<lambda>item. item \<noteq> []) (map (\<lambda>s. page_fields api base s (i_Fields it)) (d_Find api doc (i_Selector it)))"

definition missing_names :: "'n dom_api \<Rightarrow> url \<Rightarrow> 'n \<Rightarrow> extract_spec \<Rightarrow> string list" where
  "missing_names api base doc spec = sort (missing_fields api base doc (s_Fields spec) @
     (case s_Items spec of
        None \<Rightarrow> []
      | Some it \<Rightarrow> if i_Required it \<and> page_items api base doc it = [] then [''items''] else []))"

definition Page :: "'n dom_api \<Rightarrow> string \<Rightarrow> string \<Rightarrow> extract_spec \<Rightarrow> go_error + field_value page" where
  "Page api pageURL html spec =
     (case d_ParseURL api pageURL of
        None \<Rightarrow> Inl (ErrorString ''extract: page url'')
      | Some base \<Rightarrow>
          (case d_Document api html of
             None \<Rightarrow> Inl (ErrorString ''extract: parse html'')
           | Some doc \<Rightarrow>
               (let base = page_base api base doc;
                    missing = missing_names api base doc spec
                in Inr \<lparr>pg_Target = '''', pg_RunID = '''', pg_URL = '''', pg_FinalURL = '''', pg_Depth = 0,
                     pg_StatusCode = 0, pg_ContentType = '''', pg_FetchedAt = 0, pg_LatencyMS = 0,
                     pg_ProxyUsed = '''',
                     pg_Title = clean (first_text api (d_Find api doc ''title'')),
                     Description = metaContent api doc ''meta[name=\"description\" i]'',
                     Canonical = (case first_attr api (d_Find api doc ''link[rel=\"canonical\" i]'') ''href'' of
                        None \<Rightarrow> '''' | Some href \<Rightarrow> resolve api base href),
                     pg_Language = TrimSpace (AttrOr (first_attr api (d_Find api doc ''html'') ''lang'') ''''),
                     Headings = page_headings api doc,
                     OpenGraph = open_graph api (d_Find api doc ''meta[property^=\"og:\"]'') [],
                     JSONLD = json_ld api doc,
                     pg_Text = (if 0 \<le> TextLimit spec
                        then truncateUTF8 (visibleText api doc)
                               (nat (if TextLimit spec = 0 then DefaultTextLimit else TextLimit spec))
                        else ''''),
                     pg_Links = (if SkipLinks spec then None
                        else (let ls = Links api base doc ''a[href]'' in if ls = [] then None else Some ls)),
                     pg_Fields = page_fields api base doc (s_Fields spec),
                     Items = (case s_Items spec of None \<Rightarrow> [] | Some it \<Rightarrow> page_items api base doc it),
                     Extraction = (if missing \<noteq> [] then Some \<lparr>Missing = missing\<rparr> else None),
                     pg_RawBody = ''''\<rparr>)))"


subsection \<open>Truncation keeps whole characters\<close>

definition uchar :: "string \<Rightarrow> bool" where
  "uchar c \<longleftrightarrow> c \<noteq> [] \<and> \<not> cont (hd c) \<and> (\<forall>x\<in>set (tl c). cont x) \<and> length c \<le> 4 \<and>
     (\<forall>s. valid_utf8 (c @ s) = valid_utf8 s)"

lemma valid_utf8_split:
  assumes "valid_utf8 s" "s \<noteq> []"
  shows "\<exists>c t. s = c @ t \<and> uchar c \<and> valid_utf8 t"
proof -
  obtain a s' where s: "s = a # s'" using assms(2) by (cases s) auto
  have nc: "\<not> cont a" using assms(1) by (auto simp: s cont_def Let_def split: if_splits)
  consider "byte a < 128" | "194 \<le> byte a" "byte a \<le> 223" | "224 \<le> byte a" "byte a \<le> 239"
    | "240 \<le> byte a" "byte a \<le> 244"
    using assms(1) by (simp add: s Let_def split: if_splits)
  then show ?thesis
  proof cases
    case 1
    then show ?thesis using assms(1) nc
      by (intro exI [of _ "[a]"] exI [of _ s']) (simp add: s uchar_def)
  next
    case 2
    then obtain b t where "s' = b # t" "cont b" "valid_utf8 t"
      using assms(1) by (auto simp: s Let_def split: list.splits)
    then show ?thesis using 2 nc
      by (intro exI [of _ "[a, b]"] exI [of _ t]) (simp add: s uchar_def)
  next
    case 3
    then obtain b c t where "s' = b # c # t" "cont b" "cont c" "valid_utf8 t"
      "byte a = 224 \<longrightarrow> 160 \<le> byte b" "byte a = 237 \<longrightarrow> byte b \<le> 159"
      using assms(1) by (auto simp: s Let_def split: list.splits)
    then show ?thesis using 3 nc
      by (intro exI [of _ "[a, b, c]"] exI [of _ t]) (simp add: s uchar_def)
  next
    case 4
    then obtain b c d t where "s' = b # c # d # t" "cont b" "cont c" "cont d" "valid_utf8 t"
      "byte a = 240 \<longrightarrow> 144 \<le> byte b" "byte a = 244 \<longrightarrow> byte b \<le> 143"
      using assms(1) by (auto simp: s Let_def split: list.splits)
    then show ?thesis using 4 nc
      by (intro exI [of _ "[a, b, c, d]"] exI [of _ t]) (simp add: s uchar_def)
  qed
qed

lemma cut_back_le: "cut_back s n \<le> n"
  by (induction s n rule: cut_back.induct) auto

lemma cut_back_inside:
  assumes "uchar c" "n < length c"
  shows "cut_back (c @ t) n = 0"
  using assms(2)
proof (induction n)
  case (Suc k)
  have "(c @ t) ! Suc k = tl c ! k" using Suc.prems assms(1) by (cases c) (auto simp: nth_append)
  moreover have "tl c ! k \<in> set (tl c)" using Suc.prems by (intro nth_mem) simp
  ultimately show ?case using Suc assms(1) by (simp add: uchar_def)
qed simp

lemma cut_back_after:
  assumes "t \<noteq> []" "\<not> cont (hd t)" "c \<noteq> []"
  shows "cut_back (c @ t) (length c + m) = length c + cut_back t m"
proof (induction m)
  case 0
  obtain k where k: "length c = Suc k" using assms(3) by (cases c) auto
  have "(c @ t) ! length c = hd t" using assms(1) by (simp add: nth_append hd_conv_nth)
  then show ?case using assms(2) k by simp
next
  case (Suc m)
  have "(c @ t) ! Suc (length c + m) = t ! Suc m" by (simp add: nth_append)
  then show ?case using Suc by simp
qed

lemma hd_not_cont: "valid_utf8 t \<Longrightarrow> t \<noteq> [] \<Longrightarrow> \<not> cont (hd t)"
  using valid_utf8_split [of t] by (auto simp: uchar_def)

lemma cut_back_valid:
  assumes "valid_utf8 s" "n < length s"
  shows "valid_utf8 (take (cut_back s n) s) \<and> n \<le> cut_back s n + 3"
  using assms
proof (induction s arbitrary: n rule: length_induct)
  case (1 s)
  then have "s \<noteq> []" by auto
  with valid_utf8_split "1.prems"(1) obtain c t where s: "s = c @ t" "uchar c" "valid_utf8 t" by blast
  have c: "c \<noteq> []" "length c \<le> 4" using s(2) by (simp_all add: uchar_def)
  show ?case
  proof (cases "n < length c")
    case True
    then show ?thesis using cut_back_inside [OF s(2) True, of t] c by (simp add: s(1))
  next
    case False
    define m where "m = n - length c"
    have m: "n = length c + m" "m < length t" using False "1.prems"(2) by (simp_all add: m_def s(1))
    then have t: "t \<noteq> []" "length t < length s" using c by (auto simp: s(1))
    have cb: "cut_back s n = length c + cut_back t m"
      unfolding s(1) m(1) by (rule cut_back_after [OF t(1) hd_not_cont [OF s(3) t(1)] c(1)])
    have "valid_utf8 (take (cut_back t m) t) \<and> m \<le> cut_back t m + 3"
      using "1.IH" t(2) s(3) m(2) by blast
    moreover have "take (cut_back s n) s = c @ take (cut_back t m) t" unfolding cb by (simp add: s(1))
    ultimately show ?thesis using s(2) by (simp add: cb) (simp add: m(1) uchar_def)
  qed
qed

text \<open>
  \<open>truncateUTF8\<close> returns a prefix of at most \<open>n\<close> bytes; on valid UTF-8 the prefix is valid
  UTF-8 again, so no character is split, and it is at most three bytes shorter than allowed.
\<close>

theorem truncateUTF8_whole_characters:
  "HasPrefix s (truncateUTF8 s n) \<and> length (truncateUTF8 s n) \<le> n \<and>
   (valid_utf8 s \<longrightarrow> valid_utf8 (truncateUTF8 s n) \<and> min n (length s) \<le> length (truncateUTF8 s n) + 3)"
proof (cases "length s \<le> n")
  case True
  then show ?thesis by (simp add: truncateUTF8_def HasPrefix_def)
next
  case False
  then have l: "length (truncateUTF8 s n) = cut_back s n"
    using cut_back_le [of s n] by (simp add: truncateUTF8_def)
  then show ?thesis
    using False cut_back_le [of s n] cut_back_valid [of s n]
    by (auto simp: truncateUTF8_def HasPrefix_def)
qed

theorem truncateUTF8_whole_characters_witness:
  "valid_utf8 [CHR ''a'', CHR 0xC3, CHR 0xA9] \<and>
   valid_utf8 (truncateUTF8 [CHR ''a'', CHR 0xC3, CHR 0xA9] 2) \<and>
   truncateUTF8 [CHR ''a'', CHR 0xC3, CHR 0xA9] 2 = ''a''"
proof -
  have "valid_utf8 [CHR ''a'', CHR 0xC3, CHR 0xA9]" "truncateUTF8 [CHR ''a'', CHR 0xC3, CHR 0xA9] 2 = ''a''"
    by code_simp+
  then show ?thesis using truncateUTF8_whole_characters [of "[CHR ''a'', CHR 0xC3, CHR 0xA9]" 2] by blast
qed

subsection \<open>Links\<close>

lemma Links_loop_eq:
  "distinct out \<Longrightarrow> Links_loop api base ss out =
     out @ filter (\<lambda>a. a \<notin> set out) (rev (remdups (rev (List.map_filter (link_of api base) ss))))"
proof (induction api base ss out rule: Links_loop.induct)
  case (1 api base out)
  then show ?case by (simp add: map_filter_simps)
next
  case (2 api base s ss out)
  have rd: "rev (remdups (rev (a # xs))) = a # filter (\<lambda>x. x \<noteq> a) (rev (remdups (rev xs)))" for a :: string and xs
  proof -
    have "remdups (ys @ [a]) = filter (\<lambda>x. x \<noteq> a) (remdups ys) @ [a]" for ys
      by (induction ys) auto
    then show ?thesis by (simp add: rev_filter)
  qed
  show ?case
  proof (cases "link_of api base s")
    case None
    with 2 show ?thesis by (simp add: map_filter_simps)
  next
    case (Some a)
    then have mf: "List.map_filter (link_of api base) (s # ss) = a # List.map_filter (link_of api base) ss"
      by (simp add: map_filter_simps)
    show ?thesis
    proof (cases "a \<in> set out")
      case True
      have "filter (\<lambda>x. x \<notin> set out) (filter (\<lambda>x. x \<noteq> a) xs) = filter (\<lambda>x. x \<notin> set out) xs" for xs
        using True by (induction xs) auto
      with 2 Some True show ?thesis unfolding mf rd by simp
    next
      case False
      have "filter (\<lambda>x. x \<notin> set (out @ [a])) xs = filter (\<lambda>x. x \<notin> set out) (filter (\<lambda>x. x \<noteq> a) xs)" for xs
        by (induction xs) auto
      with 2 Some False show ?thesis unfolding mf rd by simp
    qed
  qed
qed

text \<open>
  \<open>Links\<close> returns exactly the links of the matching elements (absolute \<open>http\<close> or \<open>https\<close> URLs
  without fragment, \<open>nofollow\<close> skipped), each once, at its first position in the page.
\<close>

theorem Links_first_occurrences:
  "Links api base doc sel =
     rev (remdups (rev (List.map_filter (link_of api base) (d_Find api doc sel)))) \<and>
   distinct (Links api base doc sel) \<and>
   set (Links api base doc sel) = {a. \<exists>s\<in>set (d_Find api doc sel). link_of api base s = Some a}"
proof -
  have eq: "Links api base doc sel = rev (remdups (rev (List.map_filter (link_of api base) (d_Find api doc sel))))"
    using Links_loop_eq [of "[]" api base "d_Find api doc sel"] by (simp add: Links_def)
  have "set (List.map_filter f xs) = {a. \<exists>s\<in>set xs. f s = Some a}" for f :: "'a \<Rightarrow> string option" and xs
    by (induction xs) (auto simp: map_filter_simps split: option.splits)
  then show ?thesis unfolding eq by simp
qed

end
