(* ===== verification/Crawl_Scope.thy ===== *)
theory Crawl_Scope
  imports Extract
begin

text \<open>
  A crawl's scope, \<open>internal/crawl/target.go\<close>: validation and defaults of a target, which links
  are followed, and the canonical form of URLs used to recognise duplicates. \<open>net/url\<close>'s parser
  and printer come with the parameter \<open>api\<close> of the extraction theory, the regular expressions of
  \<open>Include\<close> and \<open>Exclude\<close> with the parameter \<open>rx\<close>.
\<close>

subsection \<open>Hosts and ports\<close>

text \<open>\<open>url.splitHostPort\<close>, which \<open>Hostname\<close> and \<open>Port\<close> share.\<close>

definition is_digit :: "char \<Rightarrow> bool" where
  "is_digit c \<longleftrightarrow> 48 \<le> byte c \<and> byte c \<le> 57"

definition last_colon :: "string \<Rightarrow> (string \<times> string) option" where
  "last_colon h = map_option (\<lambda>(a, b). (rev b, rev a)) (Cut (rev h) CHR '':'')"

definition split_port :: "string \<Rightarrow> string \<times> string" where
  "split_port h = (case last_colon h of
       Some (host, port) \<Rightarrow> if list_all is_digit port then (host, port) else (h, '''')
     | None \<Rightarrow> (h, ''''))"

definition strip_brackets :: "string \<Rightarrow> string" where
  "strip_brackets h = (if HasPrefix h ''['' \<and> HasSuffix h '']'' then butlast (tl h) else h)"

definition Hostname :: "url \<Rightarrow> string" where
  "Hostname u = strip_brackets (fst (split_port (Host u)))"

definition Port :: "url \<Rightarrow> string" where
  "Port u = snd (split_port (Host u))"

subsection \<open>Canonical URLs\<close>

definition normal_host :: "url \<Rightarrow> string" where
  "normal_host n =
     (let host = ToLower (Hostname n);
          host = (if Contains host '':'' then ''['' @ host @ '']'' else host);
          port = Port n
      in if port \<noteq> '''' \<and> \<not> (Scheme n = ''http'' \<and> port = ''80'') \<and> \<not> (Scheme n = ''https'' \<and> port = ''443'')
         then host @ '':'' @ port else host)"

definition normal_url :: "url \<Rightarrow> url" where
  "normal_url u =
     (let n = u\<lparr>Scheme := ToLower (Scheme u)\<rparr>;
          n = n\<lparr>Host := normal_host n, Fragment := '''', RawFragment := ''''\<rparr>
      in if Path n = '''' then n\<lparr>Path := ''/''\<rparr> else n)"

definition normalize :: "'n dom_api \<Rightarrow> url \<Rightarrow> string" where
  "normalize api u = d_String api (normal_url u)"

subsection \<open>Targets and scopes\<close>

record target =
  t_Name :: string
  StartURLs :: "string list"
  AllowedDomains :: "string list"
  MaxDepth :: int
  MaxPages :: int
  Follow :: string
  Include :: "string list"
  Exclude :: "string list"
  Render :: string
  t_WaitSelector :: string
  t_Extract :: extract_spec
  RespectRobots :: "bool option"
  t_Concurrency :: int
  t_Locale :: string
  t_Device :: string

record 'r scope =
  s_Target :: target
  starts :: "string list"
  domains :: "string list"
  s_include :: "'r list"
  s_exclude :: "'r list"

record 'r regex_api =
  rx_Compile :: "string \<Rightarrow> 'r option"
  rx_Match :: "'r \<Rightarrow> string \<Rightarrow> bool"

definition DefaultMaxPages :: int where "DefaultMaxPages = 100"

definition skipExtensions :: "string list" where
  "skipExtensions = [''.7z'', ''.avi'', ''.bmp'', ''.css'', ''.dmg'', ''.doc'', ''.docx'',
     ''.eot'', ''.exe'', ''.gif'', ''.gz'', ''.ico'', ''.iso'', ''.jpeg'',
     ''.jpg'', ''.js'', ''.m4a'', ''.mov'', ''.mp3'', ''.mp4'', ''.pdf'',
     ''.png'', ''.ppt'', ''.pptx'', ''.rar'', ''.svg'', ''.tar'', ''.tgz'',
     ''.ttf'', ''.wav'', ''.webm'', ''.webp'', ''.woff'', ''.woff2'',
     ''.xls'', ''.xlsx'', ''.zip'']"

definition crawl_err :: "string \<Rightarrow> string \<Rightarrow> go_error" where
  "crawl_err name msg = ErrorString (''crawl: target '' @ name @ '': '' @ msg)"

definition follow_rule :: "string \<Rightarrow> extract_spec" where
  "follow_rule sel = \<lparr>s_Fields = [(''follow'', \<lparr>f_Selector = sel, Attr = '''', All = False, f_Required = False\<rparr>)],
     s_Items = None, TextLimit = 0, SkipLinks = False\<rparr>"

definition with_defaults :: "target \<Rightarrow> target" where
  "with_defaults t = t\<lparr>Render := (if Render t = '''' then ''http'' else Render t),
     MaxPages := (if MaxPages t \<le> 0 then DefaultMaxPages else MaxPages t),
     Follow := (if Follow t = '''' then ''a[href]'' else Follow t),
     RespectRobots := (case RespectRobots t of None \<Rightarrow> Some True | Some b \<Rightarrow> Some b)\<rparr>"

fun compile_starts :: "'n dom_api \<Rightarrow> target \<Rightarrow> string list \<Rightarrow> 'r scope \<Rightarrow> go_error + 'r scope" where
  "compile_starts api t [] s = Inr s"
| "compile_starts api t (raw # raws) s =
     (case d_ParseURL api (TrimSpace raw) of
        None \<Rightarrow> Inl (crawl_err (t_Name t) ''start url must be an absolute http(s) URL'')
      | Some u \<Rightarrow>
          if Scheme u \<noteq> ''http'' \<and> Scheme u \<noteq> ''https'' \<or> Host u = ''''
          then Inl (crawl_err (t_Name t) ''start url must be an absolute http(s) URL'')
          else compile_starts api t raws (s\<lparr>starts := starts s @ [normalize api u],
                 domains := (if AllowedDomains t = [] then domains s @ [Hostname u] else domains s)\<rparr>))"

fun compile_res :: "'r regex_api \<Rightarrow> string list \<Rightarrow> 'r list option" where
  "compile_res rx [] = Some []"
| "compile_res rx (e # es) = (case rx_Compile rx e of
       None \<Rightarrow> None
     | Some r \<Rightarrow> map_option (Cons r) (compile_res rx es))"

definition compile_target :: "'n dom_api \<Rightarrow> 'r regex_api \<Rightarrow> target \<Rightarrow> go_error + 'r scope" where
  "compile_target api rx t =
     (if t_Name t = '''' then Inl (ErrorString ''crawl: target without a name'')
      else if StartURLs t = [] then Inl (crawl_err (t_Name t) ''no start_urls'')
      else if MaxDepth t < 0 then Inl (crawl_err (t_Name t) ''max_depth must be >= 0'')
      else if Render t \<notin> {'''', ''http'', ''browser'', ''auto''}
      then Inl (crawl_err (t_Name t) ''render (want http|browser|auto)'')
      else let t = with_defaults t in
        case Validate api (t_Extract t) of
          Some e \<Rightarrow> Inl (Wrapped ''crawl: target'' e)
        | None \<Rightarrow> (case Validate api (follow_rule (Follow t)) of
            Some e \<Rightarrow> Inl (Wrapped ''crawl: target: follow'' e)
          | None \<Rightarrow>
              (case compile_starts api t (StartURLs t)
                      \<lparr>s_Target = t, starts = [], domains = [], s_include = [], s_exclude = []\<rparr> of
                 Inl e \<Rightarrow> Inl e
               | Inr s \<Rightarrow>
                   (let s = s\<lparr>domains := domains s @
                          map (\<lambda>d. ToLower (TrimPrefix (TrimSpace d) ''.'')) (AllowedDomains t)\<rparr>
                    in case compile_res rx (Include t) of
                         None \<Rightarrow> Inl (crawl_err (t_Name t) ''include'')
                       | Some inc \<Rightarrow> (case compile_res rx (Exclude t) of
                           None \<Rightarrow> Inl (crawl_err (t_Name t) ''exclude'')
                         | Some exc \<Rightarrow> Inr (s\<lparr>s_include := inc, s_exclude := exc\<rparr>))))))"

subsection \<open>Following links\<close>

definition path_Ext :: "string \<Rightarrow> string" where
  "path_Ext p =
     (let r = takeWhile (\<lambda>c. c \<noteq> CHR ''/'') (rev p)
      in if CHR ''.'' \<in> set r then CHR ''.'' # rev (takeWhile (\<lambda>c. c \<noteq> CHR ''.'') r) else '''')"

definition in_domain :: "string \<Rightarrow> string \<Rightarrow> bool" where
  "in_domain host d \<longleftrightarrow> host = d \<or> HasSuffix host (''.'' @ d)"

definition follows :: "'n dom_api \<Rightarrow> 'r regex_api \<Rightarrow> 'r scope \<Rightarrow> string \<Rightarrow> bool" where
  "follows api rx s raw = (case d_ParseURL api raw of
       None \<Rightarrow> False
     | Some u \<Rightarrow>
         if Scheme u \<noteq> ''http'' \<and> Scheme u \<noteq> ''https'' then False
         else if ToLower (path_Ext (Path u)) \<in> set skipExtensions then False
         else if \<not> list_ex (in_domain (ToLower (Hostname u))) (domains s) then False
         else if s_include s \<noteq> [] \<and> \<not> list_ex (\<lambda>re. rx_Match rx re raw) (s_include s) then False
         else \<not> list_ex (\<lambda>re. rx_Match rx re raw) (s_exclude s))"


subsection \<open>The canonical form is canonical\<close>

lemma lower_char_eq:
  assumes "lower_char c = d" "\<not> (97 \<le> byte d \<and> byte d \<le> 122)"
  shows "c = d"
proof (cases "65 \<le> byte c \<and> byte c \<le> 90")
  case True
  then have "d = char_of (byte c + 32)" using assms(1) by (simp add: lower_char_def)
  then have "byte d = byte c + 32" using True by (simp add: byte_char_of)
  then show ?thesis using assms(2) True by simp
next
  case False
  then show ?thesis using assms(1) by (auto simp: lower_char_def split: if_splits)
qed

lemma ToLower_mem:
  assumes "\<not> (97 \<le> byte d \<and> byte d \<le> 122)" "lower_char d = d"
  shows "d \<in> set (ToLower s) \<longleftrightarrow> d \<in> set s"
  using assms lower_char_eq [of _ d] by (force simp: ToLower_def)

lemma ToLower_marks:
  "CHR '':'' \<in> set (ToLower s) \<longleftrightarrow> CHR '':'' \<in> set s"
  "CHR ''['' \<in> set (ToLower s) \<longleftrightarrow> CHR ''['' \<in> set s"
  "CHR '']'' \<in> set (ToLower s) \<longleftrightarrow> CHR '']'' \<in> set s"
  by (rule ToLower_mem; simp add: byte_def lower_char_def)+

lemma Contains_single: "Contains s [c] \<longleftrightarrow> c \<in> set s"
  by (auto simp: Contains_iff in_set_conv_decomp)

lemma last_colon_Some: "last_colon h = Some (a, b) \<longleftrightarrow> h = a @ CHR '':'' # b \<and> CHR '':'' \<notin> set b"
proof -
  have "last_colon h = Some (a, b) \<longleftrightarrow> Cut (rev h) CHR '':'' = Some (rev b, rev a)"
    by (auto simp: last_colon_def)
  also have "\<dots> \<longleftrightarrow> rev h = rev b @ CHR '':'' # rev a \<and> CHR '':'' \<notin> set b" by (simp add: Cut_Some)
  also have "rev h = rev b @ CHR '':'' # rev a \<longleftrightarrow> h = a @ CHR '':'' # b"
    by (metis append.assoc append_Cons append_Nil rev.simps(2) rev_append rev_rev_ident)
  finally show ?thesis .
qed

lemma last_colon_None: "last_colon h = None \<longleftrightarrow> CHR '':'' \<notin> set h"
  by (simp add: last_colon_def Cut_None)

lemma digits_no_colon: "list_all is_digit p \<Longrightarrow> CHR '':'' \<notin> set p"
  by (auto simp: list_all_iff is_digit_def byte_def)

lemma Port_digits: "list_all is_digit (Port u)"
  by (auto simp: Port_def split_port_def split: option.split)

lemma split_port_app: "list_all is_digit p \<Longrightarrow> split_port (h @ CHR '':'' # p) = (h, p)"
  using last_colon_Some [of "h @ CHR '':'' # p" h p] digits_no_colon [of p] by (simp add: split_port_def)

lemma split_port_plain: "CHR '':'' \<notin> set h \<Longrightarrow> split_port h = (h, [])"
  using last_colon_None [of h] by (simp add: split_port_def)

lemma split_port_bracketed: "split_port (CHR ''['' # h @ '']'') = (CHR ''['' # h @ '']'', [])"
proof (cases "last_colon (CHR ''['' # h @ '']'')")
  case (Some x)
  obtain a b where x: "x = (a, b)" by force
  with Some have ab: "CHR ''['' # h @ '']'' = a @ CHR '':'' # b" by (simp add: last_colon_Some)
  then have "last (CHR ''['' # h @ '']'') = last (a @ CHR '':'' # b)" by simp
  then have l: "last (CHR '':'' # b) = CHR '']''" by simp
  then have "b \<noteq> []" by auto
  with l have "CHR '']'' \<in> set b" by (metis last_ConsR last_in_set)
  then have "\<not> list_all is_digit b"
    by (auto simp: list_all_iff is_digit_def byte_def intro!: bexI [of _ "CHR '']''"])
  then show ?thesis using Some x by (simp add: split_port_def)
qed (simp add: split_port_def)

definition bracket :: "string \<Rightarrow> string" where
  "bracket h = (if CHR '':'' \<in> set h then ''['' @ h @ '']'' else h)"

lemma strip_bracket:
  assumes "CHR ''['' \<notin> set h"
  shows "strip_brackets (bracket h) = h"
  using assms by (cases h) (auto simp: strip_brackets_def bracket_def HasPrefix_def HasSuffix_iff)

lemma split_port_bracket: "split_port (bracket h) = (bracket h, [])"
  using split_port_bracketed [of h] by (simp add: bracket_def split_port_plain)

lemma normal_host_eq:
  "normal_host n = bracket (ToLower (Hostname n)) @
     (if Port n \<noteq> '''' \<and> \<not> (Scheme n = ''http'' \<and> Port n = ''80'') \<and> \<not> (Scheme n = ''https'' \<and> Port n = ''443'')
      then CHR '':'' # Port n else [])"
  by (simp add: normal_host_def bracket_def Contains_single Let_def)

lemma normal_url_fields:
  "Scheme (normal_url u) = ToLower (Scheme u)" "Fragment (normal_url u) = ''''"
  "RawFragment (normal_url u) = ''''" "RawQuery (normal_url u) = RawQuery u" "u_Other (normal_url u) = u_Other u"
  "Path (normal_url u) = (if Path u = '''' then ''/'' else Path u)"
  "Host (normal_url u) = normal_host (u\<lparr>Scheme := ToLower (Scheme u)\<rparr>)"
  by (simp_all add: normal_url_def Let_def)

lemma Hostname_cong [simp]: "Hostname (u\<lparr>Scheme := s\<rparr>) = Hostname u" "Port (u\<lparr>Scheme := s\<rparr>) = Port u"
  by (simp_all add: Hostname_def Port_def)

lemma normal_url_host:
  assumes "CHR ''['' \<notin> set (Hostname u)"
  shows "Hostname (normal_url u) = ToLower (Hostname u)"
    and "Port (normal_url u) = (if ToLower (Scheme u) = ''http'' \<and> Port u = ''80'' \<or>
      ToLower (Scheme u) = ''https'' \<and> Port u = ''443'' then '''' else Port u)"
proof -
  let ?h = "ToLower (Hostname u)"
  have nb: "CHR ''['' \<notin> set ?h" using assms by (simp add: ToLower_marks)
  define dflt where "dflt \<longleftrightarrow> ToLower (Scheme u) = ''http'' \<and> Port u = ''80'' \<or>
      ToLower (Scheme u) = ''https'' \<and> Port u = ''443''"
  have host: "Host (normal_url u) = bracket ?h @ (if Port u \<noteq> [] \<and> \<not> dflt then CHR '':'' # Port u else [])"
    unfolding normal_url_fields normal_host_eq Hostname_cong dflt_def by simp
  have "Hostname (normal_url u) = ?h \<and> Port (normal_url u) = (if dflt then [] else Port u)"
  proof (cases "Port u \<noteq> [] \<and> \<not> dflt")
    case True
    then show ?thesis
      using host strip_bracket [OF nb] split_port_app [OF Port_digits [of u], of "bracket ?h"]
      by (simp add: Hostname_def [of "normal_url u"] Port_def [of "normal_url u"])
  next
    case False
    then show ?thesis
      using host strip_bracket [OF nb]
      by (auto simp: Hostname_def [of "normal_url u"] Port_def [of "normal_url u"] split_port_bracket)
  qed
  then show "Hostname (normal_url u) = ToLower (Hostname u)"
    "Port (normal_url u) = (if ToLower (Scheme u) = ''http'' \<and> Port u = ''80'' \<or>
      ToLower (Scheme u) = ''https'' \<and> Port u = ''443'' then '''' else Port u)" by (simp_all add: dflt_def)
qed

text \<open>
  The URL form used for deduplication is canonical: normalizing twice is normalizing once,
  IPv6 literals and explicit ports included; scheme and host are in lower case, a default port
  and the fragment are gone, the path is never empty and the query is kept. The hypothesis says
  that the host name, without the brackets of an IPv6 literal, contains no bracket.
\<close>

theorem normal_url_canonical:
  assumes "CHR ''['' \<notin> set (Hostname u)"
  shows "normal_url (normal_url u) = normal_url u \<and>
    Hostname (normal_url u) = ToLower (Hostname u) \<and> Scheme (normal_url u) = ToLower (Scheme u) \<and>
    \<not> (Scheme (normal_url u) = ''http'' \<and> Port (normal_url u) = ''80'') \<and>
    \<not> (Scheme (normal_url u) = ''https'' \<and> Port (normal_url u) = ''443'') \<and>
    Fragment (normal_url u) = '''' \<and> Path (normal_url u) \<noteq> '''' \<and> RawQuery (normal_url u) = RawQuery u"
proof -
  let ?n = "normal_url u"
  note H = normal_url_host [OF assms]
  have "Host (normal_url ?n) = Host ?n"
    unfolding normal_url_fields(7) [of ?n] normal_url_fields(7) [of u] normal_host_eq
    using H by (simp add: normal_url_fields)
  then have "normal_url ?n = ?n"
    by (intro url.equality) (simp_all add: normal_url_fields)
  then show ?thesis using H by (auto simp: normal_url_fields)
qed

definition ipv6_url :: url where
  "ipv6_url = \<lparr>Scheme = ''HTTP'', Host = ''[2001:DB8::1]:80'', Path = '''', RawQuery = ''b=2&a=1'',
     Fragment = ''top'', RawFragment = '''', u_Other = ''''\<rparr>"

theorem normal_url_canonical_witness:
  "Hostname ipv6_url = ''2001:DB8::1'' \<and> normal_url (normal_url ipv6_url) = normal_url ipv6_url \<and>
   Host (normal_url ipv6_url) = ''[2001:db8::1]''"
proof -
  have h: "Hostname ipv6_url = ''2001:DB8::1''" "Host (normal_url ipv6_url) = ''[2001:db8::1]''" by code_simp+
  then have "CHR ''['' \<notin> set (Hostname ipv6_url)" by simp
  from normal_url_canonical [OF this] h show ?thesis by simp
qed

subsection \<open>Letter case of the default domain\<close>

lemma compile_starts_domains:
  "compile_starts api t raws s = Inr s' \<Longrightarrow> AllowedDomains t = [] \<Longrightarrow>
   domains s' = domains s @ map (\<lambda>raw. Hostname (the (d_ParseURL api (TrimSpace raw)))) raws"
  by (induction api t raws s rule: compile_starts.induct) (auto split: option.splits if_splits)

lemma compile_target_domains:
  fixes rx :: "'r regex_api"
  assumes "compile_target api rx t = Inr s" "AllowedDomains t = []"
  shows "domains s = map (\<lambda>raw. Hostname (the (d_ParseURL api (TrimSpace raw)))) (StartURLs t)"
proof -
  define t' where "t' = with_defaults t"
  have t': "StartURLs t' = StartURLs t" "AllowedDomains t' = []" using assms(2) by (simp_all add: t'_def with_defaults_def)
  obtain s1 :: "'r scope" where s1: "compile_starts api t' (StartURLs t')
      \<lparr>s_Target = t', starts = [], domains = [], s_include = [], s_exclude = []\<rparr> = Inr s1"
    "domains s = domains s1"
    using assms(1) t' by (auto simp: compile_target_def t'_def Let_def split: if_splits option.splits sum.splits)
  from compile_starts_domains [OF s1(1) t'(2)] s1(2) t'(1) show ?thesis by simp
qed

lemma lower_suffix: "ToLower (x @ y) = x @ y \<Longrightarrow> ToLower y = y"
  by (simp add: ToLower_def map_eq_append_conv)

lemma in_domain_lower: "in_domain (ToLower h) d \<Longrightarrow> ToLower d = d"
proof -
  assume "in_domain (ToLower h) d"
  then obtain x where "ToLower h = x @ d" by (auto simp: in_domain_def HasSuffix_iff intro: exI [of _ "[]"])
  then have "ToLower (x @ d) = x @ d" by (metis ToLower_idem)
  then show ?thesis by (rule lower_suffix)
qed

text \<open>
  A target without \<open>allowed_domains\<close> whose start URLs all spell their host with a capital
  letter follows no link at all, not even one to the start page's own host: the default domain
  keeps its letter case while the host of a link is compared in lower case.
\<close>

theorem capital_start_host_follows_nothing:
  assumes "compile_target api rx t = Inr s" "AllowedDomains t = []"
    and "\<forall>raw\<in>set (StartURLs t). \<forall>u. d_ParseURL api (TrimSpace raw) = Some u \<longrightarrow> ToLower (Hostname u) \<noteq> Hostname u"
    and "\<forall>raw\<in>set (StartURLs t). d_ParseURL api (TrimSpace raw) \<noteq> None"
  shows "\<not> follows api rx s link"
proof -
  have "\<forall>d\<in>set (domains s). ToLower d \<noteq> d"
    using assms(3,4) unfolding compile_target_domains [OF assms(1,2)] by force
  then have "\<not> list_ex (in_domain (ToLower h)) (domains s)" for h
    using in_domain_lower by (auto simp: list_ex_iff)
  then show ?thesis by (cases "d_ParseURL api link") (auto simp: follows_def)
qed


definition tiny_api :: "unit dom_api" where
  "tiny_api = \<lparr>d_Document = (\<lambda>h. Some ()), d_Find = (\<lambda>n s. []), d_Text = (\<lambda>n. ''''), d_Html = (\<lambda>n. None),
     d_Attr = (\<lambda>n a. None), d_Level = (\<lambda>n. 1), d_BodyText = (\<lambda>n. ''''), d_ValidSelector = (\<lambda>s. True),
     d_ValidJSON = (\<lambda>s. False),
     d_ParseURL = (\<lambda>s. if HasPrefix s ''http://''
        then (let r = drop 7 s; h = takeWhile (\<lambda>c. c \<noteq> CHR ''/'') r
              in Some \<lparr>Scheme = ''http'', Host = h, Path = drop (length h) r, RawQuery = '''', Fragment = '''',
                   RawFragment = '''', u_Other = ''''\<rparr>)
        else None),
     d_ParseRef = (\<lambda>u r. None), d_String = (\<lambda>u. Scheme u @ ''://'' @ Host u @ Path u)\<rparr>"

definition no_regex :: "unit regex_api" where
  "no_regex = \<lparr>rx_Compile = (\<lambda>s. None), rx_Match = (\<lambda>r s. False)\<rparr>"

definition plain_target :: "string list \<Rightarrow> string list \<Rightarrow> target" where
  "plain_target us ds = \<lparr>t_Name = ''t'', StartURLs = us, AllowedDomains = ds, MaxDepth = 2, MaxPages = 0,
     Follow = '''', Include = [], Exclude = [], Render = '''', t_WaitSelector = '''',
     t_Extract = \<lparr>s_Fields = [], s_Items = None, TextLimit = 0, SkipLinks = False\<rparr>,
     RespectRobots = None, t_Concurrency = 2, t_Locale = '''', t_Device = ''''\<rparr>"

theorem capital_start_host_follows_nothing_witness:
  "\<exists>s. compile_target tiny_api no_regex (plain_target [''http://Example.com/''] []) = Inr s \<and>
     \<not> follows tiny_api no_regex s ''http://example.com/a''"
proof -
  let ?t = "plain_target [''http://Example.com/''] []"
  have u: "d_ParseURL tiny_api (TrimSpace ''http://Example.com/'') = Some \<lparr>Scheme = ''http'', Host = ''Example.com'',
      Path = ''/'', RawQuery = [], Fragment = [], RawFragment = [], u_Other = []\<rparr>" by code_simp
  have h: "ToLower (Hostname \<lparr>Scheme = ''http'', Host = ''Example.com'', Path = ''/'', RawQuery = [],
      Fragment = [], RawFragment = [], u_Other = []\<rparr>) \<noteq>
    Hostname \<lparr>Scheme = ''http'', Host = ''Example.com'', Path = ''/'', RawQuery = [],
      Fragment = [], RawFragment = [], u_Other = []\<rparr>" by code_simp
  have "\<not> isl (compile_target tiny_api no_regex ?t)" by code_simp
  then obtain s where s: "compile_target tiny_api no_regex ?t = Inr s" by (cases "compile_target tiny_api no_regex ?t") auto
  have t: "AllowedDomains ?t = []" "StartURLs ?t = [''http://Example.com/'']" by (simp_all add: plain_target_def)
  have "\<not> follows tiny_api no_regex s ''http://example.com/a''"
    by (rule capital_start_host_follows_nothing [OF s t(1)]) (use u h in \<open>simp_all add: t(2)\<close>)
  with s show ?thesis by blast
qed

text \<open>With the host listed in \<open>allowed_domains\<close>, in any case, the same link is followed.\<close>

lemma listed_host_follows:
  "case compile_target tiny_api no_regex (plain_target [''http://Example.com/''] [''Example.com'']) of
     Inr s \<Rightarrow> follows tiny_api no_regex s ''http://example.com/a'' | Inl e \<Rightarrow> False"
  by code_simp


lemma compile_starts_target: "compile_starts api t raws s = Inr s' \<Longrightarrow> s_Target s' = s_Target s"
  by (induction api t raws s rule: compile_starts.induct) (auto split: option.splits if_splits)

text \<open>What compilation establishes of the limits a crawl runs with.\<close>

lemma compile_target_limits:
  assumes "compile_target api rx t = Inr s"
  shows "0 < MaxPages (s_Target s)" "0 \<le> MaxDepth (s_Target s)" "RespectRobots (s_Target s) \<noteq> None"
proof -
  have d: "0 \<le> MaxDepth t" and s: "s_Target s = with_defaults t"
    using assms
    by (auto simp: compile_target_def Let_def split: if_splits option.splits sum.splits dest!: compile_starts_target)
  show "0 < MaxPages (s_Target s)" "0 \<le> MaxDepth (s_Target s)" "RespectRobots (s_Target s) \<noteq> None"
    using d by (auto simp: s with_defaults_def DefaultMaxPages_def split: option.splits)
qed

end
