(* ===== verification/Crawl_Run.thy ===== *)
theory Crawl_Run
  imports Harvest_Prelude "HOL-Library.Multiset"
begin

text \<open>
  The crawl coordinator, \<open>Crawler.Run\<close> of \<open>internal/crawl/crawler.go\<close>, as a transition system: the
  coordinator's loop, the worker goroutines on the two unbuffered channels \<open>jobs\<close> and \<open>found\<close>, and
  the context. What one visit does is the parameter \<open>vis\<close>, a relation between a job, the jobs it
  may discover and what it adds to the statistics; \<open>Crawl_Visit\<close> shows what that relation
  satisfies for \<open>visit\<close>. The fields
  \<open>c_log\<close> (jobs handed to workers, in order) and \<open>c_reports\<close> (what each finished visit returned)
  record history and are read by no step.
\<close>

subsection \<open>State\<close>

record cjob =
  cj_url :: string
  cj_depth :: int

record crawl_stats =
  Fetched :: int
  Failed :: int
  RobotsDisallow :: int
  Flagged :: int
  Discovered :: int
  BudgetExhausted :: bool

type_synonym visit_rel = "cjob \<Rightarrow> cjob list \<Rightarrow> crawl_stats \<Rightarrow> bool"

datatype crawl_worker = CIdle | Visiting cjob | Reporting cjob "cjob list"

record coord =
  c_seen :: "string list"
  c_pending :: "cjob list"
  c_stats :: crawl_stats
  inFlight :: nat
  c_workers :: "crawl_worker list"
  c_canceled :: bool
  ctxDone :: bool
  c_log :: "cjob list"
  c_reports :: "(cjob \<times> cjob list) list"

subsection \<open>Steps\<close>

definition enqueue :: "int \<Rightarrow> cjob \<Rightarrow> coord \<Rightarrow> coord" where
  "enqueue mp l s =
     (if cj_url l \<in> set (c_seen s) then s
      else if mp \<le> int (length (c_seen s)) then s\<lparr>c_stats := (c_stats s)\<lparr>BudgetExhausted := True\<rparr>\<rparr>
      else s\<lparr>c_seen := c_seen s @ [cj_url l],
             c_stats := (c_stats s)\<lparr>Discovered := Discovered (c_stats s) + 1\<rparr>,
             c_pending := c_pending s @ [l]\<rparr>)"

definition zero_stats :: crawl_stats where
  "zero_stats = \<lparr>Fetched = 0, Failed = 0, RobotsDisallow = 0, Flagged = 0, Discovered = 0, BudgetExhausted = False\<rparr>"

text \<open>The atomic additions of a visit; \<open>Discovered\<close> and \<open>BudgetExhausted\<close> are the coordinator's.\<close>

definition add_stats :: "crawl_stats \<Rightarrow> crawl_stats \<Rightarrow> crawl_stats" where
  "add_stats d st = st\<lparr>Fetched := Fetched st + Fetched d, Failed := Failed st + Failed d,
     RobotsDisallow := RobotsDisallow st + RobotsDisallow d, Flagged := Flagged st + Flagged d\<rparr>"

definition workers_of :: "int \<Rightarrow> int \<Rightarrow> nat" where
  "workers_of targetConc poolConc =
     (let w = (if targetConc \<le> 0 then poolConc else targetConc) in nat (if w \<le> 0 then 1 else w))"

definition crawl_init :: "int \<Rightarrow> nat \<Rightarrow> string list \<Rightarrow> coord" where
  "crawl_init mp workers sts =
     fold (\<lambda>u. enqueue mp \<lparr>cj_url = u, cj_depth = 0\<rparr>) sts
       \<lparr>c_seen = [], c_pending = [], c_stats = zero_stats, inFlight = 0, c_workers = replicate workers CIdle,
        c_canceled = True, ctxDone = False, c_log = [], c_reports = []\<rparr>"

definition crawl_finished :: "coord \<Rightarrow> bool" where
  "crawl_finished s \<longleftrightarrow> c_pending s = [] \<and> inFlight s = 0"

text \<open>
  \<open>c_canceled\<close> is whether the channel variable \<open>canceled\<close> is still set. \<open>send\<close>, \<open>found\<close> and
  \<open>cancel\<close> are the three branches of the coordinator's \<open>select\<close>; \<open>visited\<close> is a worker finishing
  a visit, after which it blocks on \<open>found\<close>.
\<close>

inductive crawl_move :: "int \<Rightarrow> visit_rel \<Rightarrow> coord \<Rightarrow> coord \<Rightarrow> bool" for mp vis where
  send: "c_pending s = j # ps \<Longrightarrow> i < length (c_workers s) \<Longrightarrow> c_workers s ! i = CIdle \<Longrightarrow>
    t = s\<lparr>c_pending := ps, inFlight := inFlight s + 1, c_workers := (c_workers s)[i := Visiting j],
          c_log := c_log s @ [j]\<rparr> \<Longrightarrow>
    crawl_move mp vis s t"
| visited: "i < length (c_workers s) \<Longrightarrow> c_workers s ! i = Visiting j \<Longrightarrow> vis j ls d \<Longrightarrow>
    t = s\<lparr>c_workers := (c_workers s)[i := Reporting j ls], c_stats := add_stats d (c_stats s)\<rparr> \<Longrightarrow>
    crawl_move mp vis s t"
| found: "i < length (c_workers s) \<Longrightarrow> c_workers s ! i = Reporting j ls \<Longrightarrow>
    s' = s\<lparr>inFlight := inFlight s - 1, c_workers := (c_workers s)[i := CIdle], c_reports := c_reports s @ [(j, ls)]\<rparr> \<Longrightarrow>
    t = (if \<not> ctxDone s then fold (enqueue mp) ls s' else s') \<Longrightarrow>
    crawl_move mp vis s t"
| cancel: "\<not> crawl_finished s \<Longrightarrow> ctxDone s \<Longrightarrow> c_canceled s \<Longrightarrow>
    t = s\<lparr>c_canceled := False, c_pending := []\<rparr> \<Longrightarrow>
    crawl_move mp vis s t"

inductive_cases crawl_moveE: "crawl_move mp vis s t"

definition crawl_step :: "int \<Rightarrow> visit_rel \<Rightarrow> coord \<Rightarrow> coord \<Rightarrow> bool" where
  "crawl_step mp vis s t \<longleftrightarrow> crawl_move mp vis s t \<or> \<not> ctxDone s \<and> t = s\<lparr>ctxDone := True\<rparr>"

subsection \<open>Enqueueing\<close>

lemma enqueue_frame [simp]:
  "inFlight (enqueue mp l s) = inFlight s" "c_workers (enqueue mp l s) = c_workers s"
  "c_canceled (enqueue mp l s) = c_canceled s" "ctxDone (enqueue mp l s) = ctxDone s"
  "c_log (enqueue mp l s) = c_log s" "c_reports (enqueue mp l s) = c_reports s"
  by (simp_all add: enqueue_def)

lemma enqueues_frame [simp]:
  "inFlight (fold (enqueue mp) ls s) = inFlight s" "c_workers (fold (enqueue mp) ls s) = c_workers s"
  "c_canceled (fold (enqueue mp) ls s) = c_canceled s" "ctxDone (fold (enqueue mp) ls s) = ctxDone s"
  "c_log (fold (enqueue mp) ls s) = c_log s" "c_reports (fold (enqueue mp) ls s) = c_reports s"
  by (induction ls arbitrary: s) simp_all

lemma enqueues_stats [simp]:
  "Fetched (c_stats (fold (enqueue mp) ls s)) = Fetched (c_stats s)"
  "Failed (c_stats (fold (enqueue mp) ls s)) = Failed (c_stats s)"
  "RobotsDisallow (c_stats (fold (enqueue mp) ls s)) = RobotsDisallow (c_stats s)"
  "Flagged (c_stats (fold (enqueue mp) ls s)) = Flagged (c_stats s)"
  by (induction ls arbitrary: s) (simp_all add: enqueue_def)

definition book_ok :: "int \<Rightarrow> int \<Rightarrow> coord \<Rightarrow> bool" where
  "book_ok mp md s \<longleftrightarrow> distinct (c_seen s) \<and> int (length (c_seen s)) \<le> mp \<and>
     Discovered (c_stats s) = int (length (c_seen s)) \<and>
     distinct (map cj_url (c_log s @ c_pending s)) \<and> cj_url ` set (c_log s @ c_pending s) \<subseteq> set (c_seen s) \<and>
     (c_canceled s \<longrightarrow> cj_url ` set (c_log s @ c_pending s) = set (c_seen s)) \<and>
     (\<forall>j\<in>set (c_log s @ c_pending s). 0 \<le> cj_depth j \<and> cj_depth j \<le> md)"

lemma enqueue_book:
  assumes "book_ok mp md s" "0 \<le> cj_depth l" "cj_depth l \<le> md"
  shows "book_ok mp md (enqueue mp l s)"
proof (cases "cj_url l \<in> set (c_seen s) \<or> mp \<le> int (length (c_seen s))")
  case True
  then show ?thesis using assms(1) by (auto simp: enqueue_def book_ok_def)
next
  case False
  moreover from this have "cj_url l \<notin> cj_url ` set (c_log s @ c_pending s)"
    using assms(1) by (auto simp: book_ok_def)
  ultimately show ?thesis using assms by (auto simp: enqueue_def book_ok_def)
qed

lemma enqueues_book:
  "book_ok mp md s \<Longrightarrow> (\<And>l. l \<in> set ls \<Longrightarrow> 0 \<le> cj_depth l \<and> cj_depth l \<le> md) \<Longrightarrow>
   book_ok mp md (fold (enqueue mp) ls s)"
  by (induction ls arbitrary: s) (simp_all add: enqueue_book)

lemma book_log_le:
  assumes "book_ok mp md s"
  shows "length (c_log s) \<le> length (c_seen s)"
proof -
  have "length (c_log s) = card (cj_url ` set (c_log s))"
    using assms by (metis book_ok_def distinct_append distinct_card length_map map_append set_map)
  also have "\<dots> \<le> card (set (c_seen s))"
    using assms by (intro card_mono) (auto simp: book_ok_def)
  also have "\<dots> = length (c_seen s)" using assms by (simp add: book_ok_def distinct_card)
  finally show ?thesis .
qed

lemma enqueue_seen: "set (c_seen s) \<subseteq> set (c_seen (enqueue mp l s))"
  by (auto simp: enqueue_def)

lemma enqueues_seen: "set (c_seen s) \<subseteq> set (c_seen (fold (enqueue mp) ls s))"
  by (induction ls arbitrary: s) (auto dest: enqueue_seen [THEN subsetD])

lemma budget_mono: "BudgetExhausted (c_stats s) \<Longrightarrow> BudgetExhausted (c_stats (fold (enqueue mp) ls s))"
proof (induction ls arbitrary: s)
  case (Cons l ls)
  have "BudgetExhausted (c_stats (enqueue mp l s))" using Cons.prems by (simp add: enqueue_def)
  with Cons.IH show ?case by simp
qed simp

lemma enqueues_all:
  assumes "\<not> BudgetExhausted (c_stats (fold (enqueue mp) ls s))" "l \<in> set ls"
  shows "cj_url l \<in> set (c_seen (fold (enqueue mp) ls s))"
  using assms
proof (induction ls arbitrary: s)
  case (Cons k ls)
  have nb: "\<not> BudgetExhausted (c_stats (enqueue mp k s))"
    using Cons.prems(1) budget_mono [of "enqueue mp k s" mp ls] by auto
  then have "cj_url k \<in> set (c_seen (enqueue mp k s))" by (auto simp: enqueue_def split: if_splits)
  then show ?case using Cons enqueues_seen [of "enqueue mp k s" mp ls] by auto
qed simp


subsection \<open>The invariant\<close>

fun busy :: "crawl_worker \<Rightarrow> cjob multiset" where
  "busy CIdle = {#}"
| "busy (Visiting j) = {#j#}"
| "busy (Reporting j ls) = {#j#}"

fun worker_ok :: "int \<Rightarrow> visit_rel \<Rightarrow> crawl_worker \<Rightarrow> bool" where
  "worker_ok md vis CIdle = True"
| "worker_ok md vis (Visiting j) = (0 \<le> cj_depth j)"
| "worker_ok md vis (Reporting j ls) = ((\<exists>d. vis j ls d) \<and> 0 \<le> cj_depth j)"

definition busy_one :: "crawl_worker \<Rightarrow> nat" where
  "busy_one w = (if w = CIdle then 0 else 1)"

fun reporting :: "crawl_worker \<Rightarrow> nat" where
  "reporting (Reporting j ls) = 1"
| "reporting _ = 0"

definition settled :: "crawl_stats \<Rightarrow> int" where
  "settled st = Fetched st + Failed st + RobotsDisallow st"

definition stats_sane :: "crawl_stats \<Rightarrow> bool" where
  "stats_sane st \<longleftrightarrow> 0 \<le> Fetched st \<and> 0 \<le> Failed st \<and> 0 \<le> RobotsDisallow st \<and> 0 \<le> Flagged st \<and> Flagged st \<le> Fetched st"

text \<open>
  What the coordinator relies on of a visit: discovered jobs are one deeper and come only from
  jobs above the depth limit, and a job is counted at most once.
\<close>

definition visits_ok :: "int \<Rightarrow> visit_rel \<Rightarrow> bool" where
  "visits_ok md vis \<longleftrightarrow>
     (\<forall>j ls d. vis j ls d \<longrightarrow> (\<forall>l\<in>set ls. cj_depth l = cj_depth j + 1 \<and> cj_depth j < md) \<and>
        stats_sane d \<and> settled d \<le> 1)"

definition reports_ok :: "string list \<Rightarrow> coord \<Rightarrow> bool" where
  "reports_ok sts s \<longleftrightarrow> set sts \<subseteq> set (c_seen s) \<and>
     (\<forall>j ls. (j, ls) \<in> set (c_reports s) \<longrightarrow> cj_url ` set ls \<subseteq> set (c_seen s))"

definition tally_ok :: "coord \<Rightarrow> bool" where
  "tally_ok s \<longleftrightarrow> stats_sane (c_stats s) \<and>
     settled (c_stats s) \<le> int (length (c_reports s) + sum_list (map reporting (c_workers s)))"

definition crawl_inv :: "int \<Rightarrow> int \<Rightarrow> nat \<Rightarrow> visit_rel \<Rightarrow> string list \<Rightarrow> coord \<Rightarrow> bool" where
  "crawl_inv mp md n vis sts s \<longleftrightarrow> book_ok mp md s \<and> length (c_workers s) = n \<and>
     inFlight s = sum_list (map busy_one (c_workers s)) \<and> list_all (worker_ok md vis) (c_workers s) \<and>
     mset (c_log s) = mset (map fst (c_reports s)) + sum_list (map busy (c_workers s)) \<and>
     (\<forall>j ls. (j, ls) \<in> set (c_reports s) \<longrightarrow> (\<exists>d. vis j ls d)) \<and> tally_ok s \<and>
     (\<not> c_canceled s \<longrightarrow> ctxDone s) \<and>
     (\<not> ctxDone s \<longrightarrow> \<not> BudgetExhausted (c_stats s) \<longrightarrow> reports_ok sts s)"

lemma enqueues_tally [simp]: "tally_ok (fold (enqueue mp) ls s) = tally_ok s"
  by (simp add: tally_ok_def stats_sane_def settled_def)

lemma crawl_inv_init:
  assumes "0 \<le> mp" "0 \<le> md"
  shows "crawl_inv mp md n vis sts (crawl_init mp n sts)"
proof -
  define s0 where "s0 = \<lparr>c_seen = [], c_pending = [], c_stats = zero_stats, inFlight = 0,
    c_workers = replicate n CIdle, c_canceled = True, ctxDone = False, c_log = [], c_reports = []\<rparr>"
  have fold_eq: "fold (\<lambda>u. enqueue mp \<lparr>cj_url = u, cj_depth = 0\<rparr>) sts s =
      fold (enqueue mp) (map (\<lambda>u. \<lparr>cj_url = u, cj_depth = 0\<rparr>) sts) s" for s
    by (simp add: fold_map comp_def)
  have b: "book_ok mp md (crawl_init mp n sts)"
    unfolding crawl_init_def fold_eq s0_def [symmetric]
    by (rule enqueues_book) (use assms in \<open>auto simp: s0_def book_ok_def zero_stats_def\<close>)
  have idle: "sum_list (map busy_one (replicate n CIdle)) = 0" "sum_list (map busy (replicate n CIdle)) = {#}"
    by (induction n) (simp_all add: busy_one_def)
  have "reports_ok sts (crawl_init mp n sts)" if "\<not> BudgetExhausted (c_stats (crawl_init mp n sts))"
    using enqueues_all [of mp "map (\<lambda>u. \<lparr>cj_url = u, cj_depth = 0\<rparr>) sts" s0] that
    unfolding reports_ok_def crawl_init_def fold_eq s0_def [symmetric] by (force simp: s0_def)
  moreover have "tally_ok (crawl_init mp n sts)"
    unfolding crawl_init_def fold_eq by (simp add: tally_ok_def stats_sane_def settled_def zero_stats_def)
  ultimately show ?thesis
    using b idle unfolding crawl_inv_def by (simp add: crawl_init_def fold_eq list_all_iff)
qed

lemma list_all_update: "list_all P xs \<Longrightarrow> P x \<Longrightarrow> list_all P (xs[i := x])"
  by (auto simp: list_all_iff dest!: set_update_subset_insert [THEN subsetD])

lemma inv_send:
  assumes "crawl_inv mp md n vis sts s" "c_pending s = j # ps" "i < length (c_workers s)" "c_workers s ! i = CIdle"
  shows "crawl_inv mp md n vis sts (s\<lparr>c_pending := ps, inFlight := inFlight s + 1,
    c_workers := (c_workers s)[i := Visiting j], c_log := c_log s @ [j]\<rparr>)"
proof -
  have "0 \<le> cj_depth j" using assms(1,2) by (simp add: crawl_inv_def book_ok_def)
  moreover have "sum_list (map reporting ((c_workers s)[i := Visiting j])) = sum_list (map reporting (c_workers s))"
    using sum_list_map_update [OF assms(3), of reporting "Visiting j"] assms(4) by simp
  ultimately show ?thesis
    using assms sum_list_map_update [OF assms(3), of busy_one "Visiting j"]
      sum_list_map_update [OF assms(3), of busy "Visiting j"]
    by (auto simp: crawl_inv_def book_ok_def reports_ok_def busy_one_def tally_ok_def intro: list_all_update)
qed

lemma inv_visited:
  assumes "visits_ok md vis" "crawl_inv mp md n vis sts s"
    and "i < length (c_workers s)" "c_workers s ! i = Visiting j" "vis j ls d"
  shows "crawl_inv mp md n vis sts (s\<lparr>c_workers := (c_workers s)[i := Reporting j ls], c_stats := add_stats d (c_stats s)\<rparr>)"
proof -
  have w: "worker_ok md vis (Visiting j)" using assms(2-4) by (metis crawl_inv_def list_all_length)
  have d: "stats_sane d" "settled d \<le> 1" using assms(1,5) unfolding visits_ok_def by blast+
  have "sum_list (map reporting ((c_workers s)[i := Reporting j ls])) = Suc (sum_list (map reporting (c_workers s)))"
    using sum_list_map_update [OF assms(3), of reporting "Reporting j ls"] assms(4) by simp
  moreover have "tally_ok s" using assms(2) by (simp add: crawl_inv_def)
  ultimately have "tally_ok (s\<lparr>c_workers := (c_workers s)[i := Reporting j ls], c_stats := add_stats d (c_stats s)\<rparr>)"
    using d by (simp add: tally_ok_def stats_sane_def settled_def add_stats_def)
  moreover have "list_all (worker_ok md vis) ((c_workers s)[i := Reporting j ls])"
  proof (rule list_all_update)
    show "list_all (worker_ok md vis) (c_workers s)" using assms(2) by (simp add: crawl_inv_def)
    show "worker_ok md vis (Reporting j ls)" using w assms(5) by auto
  qed
  ultimately show ?thesis
    using assms(2-5) sum_list_map_update [OF assms(3), of busy_one "Reporting j ls"]
      sum_list_map_update [OF assms(3), of busy "Reporting j ls"]
    by (auto simp: crawl_inv_def book_ok_def reports_ok_def busy_one_def add_stats_def)
qed

lemma inv_found:
  assumes "visits_ok md vis" "crawl_inv mp md n vis sts s" "i < length (c_workers s)" "c_workers s ! i = Reporting j ls"
    and s': "s' = s\<lparr>inFlight := inFlight s - 1, c_workers := (c_workers s)[i := CIdle], c_reports := c_reports s @ [(j, ls)]\<rparr>"
  shows "crawl_inv mp md n vis sts (if \<not> ctxDone s then fold (enqueue mp) ls s' else s')"
proof -
  have w: "\<exists>d. vis j ls d" "0 \<le> cj_depth j"
    using assms(2-4) by (metis crawl_inv_def list_all_length worker_ok.simps(3))+
  have links: "0 \<le> cj_depth l \<and> cj_depth l \<le> md" if "l \<in> set ls" for l
    using assms(1) w that unfolding visits_ok_def by fastforce
  have b': "book_ok mp md s'" using assms(2) by (simp add: s' crawl_inv_def book_ok_def)
  have fl: "inFlight s' = sum_list (map busy_one (c_workers s'))"
    using assms(2-4) sum_list_map_update [OF assms(3), of busy_one CIdle]
    by (simp add: s' crawl_inv_def busy_one_def)
  have lg: "mset (c_log s') = mset (map fst (c_reports s')) + sum_list (map busy (c_workers s'))"
    using assms(2-4) sum_list_map_update [OF assms(3), of busy CIdle] by (simp add: s' crawl_inv_def)
  have rest: "list_all (worker_ok md vis) (c_workers s')" "\<And>k ms. (k, ms) \<in> set (c_reports s') \<Longrightarrow> \<exists>d. vis k ms d"
    "length (c_workers s') = n" "\<not> c_canceled s' \<longrightarrow> ctxDone s'"
    using assms(2) w by (auto simp: s' crawl_inv_def intro: list_all_update)
  have "Suc (sum_list (map reporting ((c_workers s)[i := CIdle]))) = sum_list (map reporting (c_workers s))"
    using sum_list_map_update [OF assms(3), of reporting CIdle] assms(4) by simp
  moreover have "tally_ok s" using assms(2) by (simp add: crawl_inv_def)
  ultimately have tl: "tally_ok s'" by (simp add: tally_ok_def s')
  show ?thesis
  proof (cases "ctxDone s")
    case True
    then show ?thesis using b' fl lg rest tl by (auto simp: crawl_inv_def s')
  next
    case False
    let ?t = "fold (enqueue mp) ls s'"
    have "reports_ok sts ?t" if nb: "\<not> BudgetExhausted (c_stats ?t)"
    proof -
      have "\<not> BudgetExhausted (c_stats s)" using nb budget_mono [of s' mp ls] by (auto simp: s')
      then have old: "reports_ok sts s" using assms(2) False by (simp add: crawl_inv_def)
      have sub: "set (c_seen s) \<subseteq> set (c_seen ?t)" using enqueues_seen [of s' mp ls] by (simp add: s')
      have new: "cj_url ` set ls \<subseteq> set (c_seen ?t)" using enqueues_all [OF nb] by auto
      have r: "c_reports ?t = c_reports s @ [(j, ls)]" by (simp add: s')
      show ?thesis
      proof -
        have "set sts \<subseteq> set (c_seen ?t)" using old sub unfolding reports_ok_def by blast
        moreover have "cj_url ` set ms \<subseteq> set (c_seen ?t)" if "(k, ms) \<in> set (c_reports s)" for k ms
          using old sub that unfolding reports_ok_def by blast
        ultimately show ?thesis using new unfolding reports_ok_def r by force
      qed
    qed
    moreover have "book_ok mp md ?t" by (rule enqueues_book [OF b' links])
    ultimately show ?thesis using fl lg rest tl False by (auto simp: crawl_inv_def)
  qed
qed

lemma crawl_inv_step:
  assumes "visits_ok md vis" "crawl_inv mp md n vis sts s" "crawl_step mp vis s t"
  shows "crawl_inv mp md n vis sts t"
proof (cases "crawl_move mp vis s t")
  case True
  then show ?thesis
  proof (cases rule: crawl_move.cases)
    case (send j ps i)
    show ?thesis unfolding send(4) by (rule inv_send [OF assms(2) send(1-3)])
  next
    case (visited i j ls d)
    show ?thesis unfolding visited(4) by (rule inv_visited [OF assms(1,2) visited(1-3)])
  next
    case (found i j ls s')
    show ?thesis unfolding found(4) by (rule inv_found [OF assms(1,2) found(1-3)])
  next
    case cancel
    then show ?thesis using assms(2) by (auto simp: crawl_inv_def book_ok_def reports_ok_def tally_ok_def)
  qed
next
  case False
  then have "t = s\<lparr>ctxDone := True\<rparr>" using assms(3) by (simp add: crawl_step_def)
  then show ?thesis using assms(2) by (simp add: crawl_inv_def book_ok_def tally_ok_def)
qed


interpretation crawl: invariant_system
    "\<lambda>s. s = crawl_init mp n sts \<and> 0 \<le> mp \<and> 0 \<le> md \<and> visits_ok md vis" "crawl_step mp vis"
    "\<lambda>s. visits_ok md vis \<and> crawl_inv mp md n vis sts s" for mp n sts md vis
  by unfold_locales (auto intro: crawl_inv_init crawl_inv_step)

lemma crawl_reachable_inv:
  assumes "(crawl_step mp vis)\<^sup>*\<^sup>* (crawl_init mp n sts) s" "0 \<le> mp" "0 \<le> md" "visits_ok md vis"
  shows "crawl_inv mp md n vis sts s"
  using crawl.inv_reach [of "crawl_init mp n sts" mp n sts md vis s] assms by blast

lemma size_busy: "size (sum_list (map busy ws)) = sum_list (map (\<lambda>w. size (busy w)) ws)"
  by (induction ws) simp_all

lemma reporting_le: "reporting w \<le> size (busy w)"
  by (cases w) simp_all

lemma enqueue_seen_sub: "set (c_seen (enqueue mp l s)) \<subseteq> insert (cj_url l) (set (c_seen s))"
  by (auto simp: enqueue_def)

lemma enqueues_seen_sub: "set (c_seen (fold (enqueue mp) ls s)) \<subseteq> set (c_seen s) \<union> cj_url ` set ls"
proof (induction ls arbitrary: s)
  case (Cons l ls)
  then show ?case using enqueue_seen_sub [of mp l s] by fastforce
qed simp

lemma crawl_init_seen: "set (c_seen (crawl_init mp n sts)) \<subseteq> set sts"
proof -
  have eq: "fold (\<lambda>u. enqueue mp \<lparr>cj_url = u, cj_depth = 0\<rparr>) sts s =
      fold (enqueue mp) (map (\<lambda>u. \<lparr>cj_url = u, cj_depth = 0\<rparr>) sts) s" for s
    by (simp add: fold_map comp_def)
  show ?thesis
    unfolding crawl_init_def eq
    using enqueues_seen_sub [of mp "map (\<lambda>u. \<lparr>cj_url = u, cj_depth = 0\<rparr>) sts"] by fastforce
qed

text \<open>Whatever holds of every reported link holds of every accepted URL that is not a start.\<close>

lemma crawl_reachable_scope:
  assumes "(crawl_step mp vis)\<^sup>*\<^sup>* (crawl_init mp n sts) s" "0 \<le> mp" "0 \<le> md" "visits_ok md vis"
    and "\<And>j ls d l. vis j ls d \<Longrightarrow> l \<in> set ls \<Longrightarrow> P (cj_url l)"
  shows "set (c_seen s) \<subseteq> set sts \<union> Collect P"
  using assms(1)
proof (induction rule: rtranclp_induct)
  case base
  then show ?case using crawl_init_seen by blast
next
  case (step s t)
  have inv: "crawl_inv mp md n vis sts s" using crawl_reachable_inv [OF step.hyps(1) assms(2-4)] .
  show ?case
  proof (cases "crawl_move mp vis s t")
    case True
    then show ?thesis
    proof (cases rule: crawl_move.cases)
      case (found i j ls s')
      have "worker_ok md vis (Reporting j ls)" using inv found(1,2) by (metis crawl_inv_def list_all_length)
      then have "cj_url ` set ls \<subseteq> Collect P" using assms(5) by auto
      moreover have "set (c_seen t) \<subseteq> set (c_seen s) \<union> cj_url ` set ls"
        using enqueues_seen_sub [of mp ls s'] found(3,4) by (auto split: if_splits)
      ultimately show ?thesis using step.IH by blast
    qed (use step.IH in simp_all)
  next
    case False
    then show ?thesis using step by (simp add: crawl_step_def)
  qed
qed

text \<open>A visit relation for the witnesses: a graph of pages, followed to depth \<open>md\<close>.\<close>

definition graph_vis :: "int \<Rightarrow> (string \<Rightarrow> string list) \<Rightarrow> visit_rel" where
  "graph_vis md succs j ls d \<longleftrightarrow> d = zero_stats\<lparr>Fetched := 1\<rparr> \<and> ls = (if cj_depth j < md
     then map (\<lambda>u. \<lparr>cj_url = u, cj_depth = cj_depth j + 1\<rparr>) (succs (cj_url j)) else [])"

lemma graph_vis_ok: "visits_ok md (graph_vis md succs)"
  by (auto simp: visits_ok_def graph_vis_def stats_sane_def settled_def zero_stats_def split: if_splits)

text \<open>
  In every state a crawl can reach, under every interleaving of its workers and whenever the
  context ends: no URL has been handed out twice, at most \<open>MaxPages\<close> have been, none beyond
  \<open>MaxDepth\<close>, \<open>Discovered\<close> counts the distinct URLs accepted, and the pages counted as fetched,
  failed or disallowed are at most the pages handed out.
\<close>

theorem crawl_bounded:
  assumes "(crawl_step mp vis)\<^sup>*\<^sup>* (crawl_init mp n sts) s" "0 \<le> mp" "0 \<le> md" "visits_ok md vis"
  shows "distinct (map cj_url (c_log s)) \<and> int (length (c_log s)) \<le> mp \<and>
    (\<forall>j\<in>set (c_log s). 0 \<le> cj_depth j \<and> cj_depth j \<le> md) \<and>
    Discovered (c_stats s) = int (card (set (c_seen s))) \<and>
    Fetched (c_stats s) + Failed (c_stats s) + RobotsDisallow (c_stats s) \<le> int (length (c_log s)) \<and>
    Flagged (c_stats s) \<le> Fetched (c_stats s)"
proof -
  have inv: "crawl_inv mp md n vis sts s" by (rule crawl_reachable_inv [OF assms])
  then have b: "book_ok mp md s" by (simp add: crawl_inv_def)
  have "mset (c_log s) = mset (map fst (c_reports s)) + sum_list (map busy (c_workers s))"
    using inv by (simp add: crawl_inv_def)
  then have "length (c_log s) = length (c_reports s) + sum_list (map (\<lambda>w. size (busy w)) (c_workers s))"
    by (metis length_map size_busy size_mset size_union)
  moreover have "sum_list (map reporting (c_workers s)) \<le> sum_list (map (\<lambda>w. size (busy w)) (c_workers s))"
    by (rule sum_list_mono) (simp add: reporting_le)
  moreover have "tally_ok s" using inv by (simp add: crawl_inv_def)
  ultimately have "settled (c_stats s) \<le> int (length (c_log s)) \<and> Flagged (c_stats s) \<le> Fetched (c_stats s)"
    by (simp add: tally_ok_def stats_sane_def)
  then have c: "Fetched (c_stats s) + Failed (c_stats s) + RobotsDisallow (c_stats s) \<le> int (length (c_log s))"
    "Flagged (c_stats s) \<le> Fetched (c_stats s)" by (simp_all add: settled_def)
  show ?thesis using b c book_log_le [OF b] by (auto simp: book_ok_def distinct_card)
qed

theorem crawl_bounded_witness:
  "distinct (map cj_url (c_log (crawl_init 5 2 [''a'', ''b'', ''a'']))) \<and>
   Discovered (c_stats (crawl_init 5 2 [''a'', ''b'', ''a''])) = int (card (set (c_seen (crawl_init 5 2 [''a'', ''b'', ''a'']))))"
  using crawl_bounded [of 5 "graph_vis 1 (\<lambda>u. [])" 2 "[''a'', ''b'', ''a'']", OF rtranclp.rtrancl_refl _ _ graph_vis_ok]
  by simp

subsection \<open>Every crawl ends\<close>

fun worker_weight :: "crawl_worker \<Rightarrow> nat" where
  "worker_weight CIdle = 0"
| "worker_weight (Visiting j) = 2"
| "worker_weight (Reporting j ls) = 1"

definition crawl_measure :: "int \<Rightarrow> coord \<Rightarrow> nat" where
  "crawl_measure mp s = 4 * (nat mp - length (c_seen s)) + 3 * length (c_pending s) +
     sum_list (map worker_weight (c_workers s)) + (if ctxDone s then 0 else 1) + (if c_canceled s then 1 else 0)"

lemma enqueue_measure: "crawl_measure mp (enqueue mp l s) \<le> crawl_measure mp s"
  by (auto simp: enqueue_def crawl_measure_def)

lemma enqueues_measure: "crawl_measure mp (fold (enqueue mp) ls s) \<le> crawl_measure mp s"
proof (induction ls arbitrary: s)
  case (Cons l ls)
  have "crawl_measure mp (fold (enqueue mp) ls (enqueue mp l s)) \<le> crawl_measure mp (enqueue mp l s)" by (rule Cons)
  also have "\<dots> \<le> crawl_measure mp s" by (rule enqueue_measure)
  finally show ?case by simp
qed simp

lemma crawl_step_decreases:
  assumes "crawl_step mp vis s t"
  shows "crawl_measure mp t < crawl_measure mp s"
proof (cases "crawl_move mp vis s t")
  case True
  then show ?thesis
  proof (cases rule: crawl_move.cases)
    case (send j ps i)
    then show ?thesis
      using sum_list_map_update [OF send(2), of worker_weight "Visiting j"]
      by (simp add: crawl_measure_def)
  next
    case (visited i j ls d)
    then show ?thesis
      using sum_list_map_update [OF visited(1), of worker_weight "Reporting j ls"]
      by (simp add: crawl_measure_def)
  next
    case (found i j ls s')
    have "crawl_measure mp s' < crawl_measure mp s"
      using sum_list_map_update [OF found(1), of worker_weight CIdle] found(2,3)
      by (simp add: crawl_measure_def)
    then show ?thesis using enqueues_measure [of mp ls s'] found(4) by (auto split: if_splits)
  next
    case cancel
    then show ?thesis by (simp add: crawl_measure_def)
  qed
next
  case False
  then show ?thesis using assms by (simp add: crawl_step_def crawl_measure_def)
qed

interpretation crawl_progress: measured_system "crawl_step mp vis" "crawl_measure mp" for mp vis
  by unfold_locales (rule crawl_step_decreases)



subsection \<open>What a finished crawl has visited\<close>

text \<open>
  C9. A crawl that ran to its end, neither stopped by the context nor by the page budget, has
  visited every start URL and every link its visits reported, and each visited job reported.
\<close>

theorem crawl_complete:
  assumes "(crawl_step mp vis)\<^sup>*\<^sup>* (crawl_init mp n sts) s" "0 \<le> mp" "0 \<le> md" "visits_ok md vis"
    and "crawl_finished s" "\<not> ctxDone s" "\<not> BudgetExhausted (c_stats s)"
  shows "set sts \<subseteq> cj_url ` set (c_log s) \<and>
    (\<forall>j\<in>set (c_log s). \<exists>ls. (j, ls) \<in> set (c_reports s) \<and> (\<exists>d. vis j ls d) \<and> cj_url ` set ls \<subseteq> cj_url ` set (c_log s))"
proof -
  have inv: "crawl_inv mp md n vis sts s" by (rule crawl_reachable_inv [OF assms(1-4)])
  have seen: "cj_url ` set (c_log s) = set (c_seen s)"
    using inv assms(5,6) by (auto simp: crawl_inv_def book_ok_def crawl_finished_def)
  have r: "reports_ok sts s" using inv assms(6,7) by (simp add: crawl_inv_def)
  have idle: "\<forall>w\<in>set (c_workers s). w = CIdle"
    using inv assms(5) by (auto simp: crawl_inv_def crawl_finished_def busy_one_def split: if_splits)
  have "sum_list (map busy ws) = {#}" if "\<forall>w\<in>set ws. w = CIdle" for ws using that by (induction ws) auto
  then have "mset (c_log s) = mset (map fst (c_reports s))" using inv idle by (simp add: crawl_inv_def)
  then have lg: "set (c_log s) = fst ` set (c_reports s)" by (metis set_map set_mset_mset)
  have "\<exists>ls. (j, ls) \<in> set (c_reports s) \<and> (\<exists>d. vis j ls d) \<and> cj_url ` set ls \<subseteq> set (c_seen s)" if "j \<in> set (c_log s)" for j
  proof -
    from that obtain ls where l: "(j, ls) \<in> set (c_reports s)" unfolding lg by auto
    moreover have "\<exists>d. vis j ls d" using inv l unfolding crawl_inv_def by blast
    moreover have "cj_url ` set ls \<subseteq> set (c_seen s)" using r l unfolding reports_ok_def by blast
    ultimately show ?thesis by blast
  qed
  then show ?thesis using r by (simp add: seen reports_ok_def)
qed

subsection \<open>Scheduled runs\<close>

text \<open>
  An executable scheduler for \<open>graph_vis\<close>: \<open>advance i\<close> lets worker \<open>i\<close> take its next step, and
  \<open>schedule\<close> follows a list of worker numbers.
\<close>

definition advance :: "int \<Rightarrow> int \<Rightarrow> (string \<Rightarrow> string list) \<Rightarrow> nat \<Rightarrow> coord \<Rightarrow> coord option" where
  "advance mp md succs i s =
     (if length (c_workers s) \<le> i then None
      else case c_workers s ! i of
          CIdle \<Rightarrow>
            (case c_pending s of
               [] \<Rightarrow> None
             | j # ps \<Rightarrow> Some (s\<lparr>c_pending := ps, inFlight := inFlight s + 1,
                 c_workers := (c_workers s)[i := Visiting j], c_log := c_log s @ [j]\<rparr>))
        | Visiting j \<Rightarrow>
            Some (s\<lparr>c_workers := (c_workers s)[i := Reporting j (if cj_depth j < md
                then map (\<lambda>u. \<lparr>cj_url = u, cj_depth = cj_depth j + 1\<rparr>) (succs (cj_url j)) else [])],
              c_stats := add_stats (zero_stats\<lparr>Fetched := 1\<rparr>) (c_stats s)\<rparr>)
        | Reporting j ls \<Rightarrow>
            (let s' = s\<lparr>inFlight := inFlight s - 1, c_workers := (c_workers s)[i := CIdle],
                        c_reports := c_reports s @ [(j, ls)]\<rparr>
             in Some (if \<not> ctxDone s then fold (enqueue mp) ls s' else s')))"

fun schedule :: "int \<Rightarrow> int \<Rightarrow> (string \<Rightarrow> string list) \<Rightarrow> nat list \<Rightarrow> coord \<Rightarrow> coord option" where
  "schedule mp md succs [] s = Some s"
| "schedule mp md succs (i # is) s = (case advance mp md succs i s of
     None \<Rightarrow> None | Some t \<Rightarrow> schedule mp md succs is t)"

lemma advance_step:
  assumes "advance mp md succs i s = Some t"
  shows "crawl_step mp (graph_vis md succs) s t"
proof -
  have i: "i < length (c_workers s)" using assms by (auto simp: advance_def split: if_splits)
  have "crawl_move mp (graph_vis md succs) s t"
  proof (cases "c_workers s ! i")
    case CIdle
    then obtain j ps where p: "c_pending s = j # ps" using assms by (auto simp: advance_def split: if_splits list.splits)
    show ?thesis
      by (rule crawl_move.send [OF p i CIdle]) (use assms CIdle i p in \<open>simp add: advance_def\<close>)
  next
    case (Visiting j)
    show ?thesis
      by (rule crawl_move.visited [OF i Visiting]) (use assms Visiting i in \<open>auto simp: advance_def graph_vis_def\<close>)
  next
    case (Reporting j ls)
    show ?thesis
      by (rule crawl_move.found [OF i Reporting refl]) (use assms Reporting i in \<open>auto simp: advance_def Let_def\<close>)
  qed
  then show ?thesis by (simp add: crawl_step_def)
qed

lemma schedule_reach:
  "schedule mp md succs is s = Some t \<Longrightarrow> (crawl_step mp (graph_vis md succs))\<^sup>*\<^sup>* s t"
  by (induction "is" arbitrary: s)
    (auto split: option.splits intro: converse_rtranclp_into_rtranclp advance_step)

text \<open>Two start pages; \<open>x\<close> is one link from \<open>b\<close> and two from \<open>a\<close>, and links to \<open>z\<close>.\<close>

definition two_paths :: "string \<Rightarrow> string list" where
  "two_paths u = (if u = ''a'' then [''y''] else if u = ''y'' then [''x''] else if u = ''b'' then [''x'']
     else if u = ''x'' then [''z''] else [])"

definition ended :: "coord \<Rightarrow> string list \<Rightarrow> bool" where
  "ended s urls \<longleftrightarrow> crawl_finished s \<and> \<not> ctxDone s \<and> \<not> BudgetExhausted (c_stats s) \<and> map cj_url (c_log s) = urls"

fun ended_with :: "coord option \<Rightarrow> string list \<Rightarrow> bool" where
  "ended_with None urls = False"
| "ended_with (Some s) urls = ended s urls"

lemma ended_with_Some: "ended_with r urls \<Longrightarrow> \<exists>s. r = Some s \<and> ended s urls"
  by (cases r) auto

lemma one_worker_run:
  "ended_with (schedule 9 2 two_paths (replicate 15 0) (crawl_init 9 1 [''a'', ''b''])) [''a'', ''b'', ''y'', ''x'', ''z'']"
  by code_simp

theorem crawl_complete_witness:
  "\<exists>s. set [''a'', ''b''] \<subseteq> cj_url ` set (c_log s) \<and> ended s [''a'', ''b'', ''y'', ''x'', ''z'']"
proof -
  obtain s where s: "schedule 9 2 two_paths (replicate 15 0) (crawl_init 9 1 [''a'', ''b'']) = Some s"
    "ended s [''a'', ''b'', ''y'', ''x'', ''z'']" using ended_with_Some [OF one_worker_run] by blast
  then have e: "crawl_finished s" "\<not> ctxDone s" "\<not> BudgetExhausted (c_stats s)" by (simp_all add: ended_def)
  have "set [''a'', ''b''] \<subseteq> cj_url ` set (c_log s)"
    using crawl_complete [where md = 2, OF schedule_reach [OF s(1)] _ _ graph_vis_ok e] by simp
  with s(2) show ?thesis by blast
qed

lemma two_worker_run:
  "ended_with (schedule 9 2 two_paths [0, 1, 0, 0, 0, 0, 0, 0, 0, 0, 1, 1] (crawl_init 9 2 [''a'', ''b'']))
     [''a'', ''b'', ''y'', ''x'']"
  by code_simp

text \<open>
  With two workers the depth limit is not the distance in the link graph: a run that ends by
  itself, within the page budget, first reaches \<open>x\<close> over the longer path and then never visits
  \<open>z\<close>, which is two links from the start page \<open>b\<close> and within the depth limit of 2.
\<close>

theorem depth_race:
  "\<exists>s. (crawl_step 9 (graph_vis 2 two_paths))\<^sup>*\<^sup>* (crawl_init 9 2 [''a'', ''b'']) s \<and>
     crawl_finished s \<and> \<not> ctxDone s \<and> \<not> BudgetExhausted (c_stats s) \<and>
     ''x'' \<in> set (two_paths ''b'') \<and> ''z'' \<in> set (two_paths ''x'') \<and> ''z'' \<notin> cj_url ` set (c_log s)"
proof -
  obtain s where s: "schedule 9 2 two_paths [0, 1, 0, 0, 0, 0, 0, 0, 0, 0, 1, 1] (crawl_init 9 2 [''a'', ''b'']) = Some s"
    "ended s [''a'', ''b'', ''y'', ''x'']" using ended_with_Some [OF two_worker_run] by blast
  have "''z'' \<notin> cj_url ` set (c_log s)"
  proof -
    have "set (map cj_url (c_log s)) = set [''a'', ''b'', ''y'', ''x'']" using s(2) by (simp add: ended_def)
    then show ?thesis by auto
  qed
  then show ?thesis using schedule_reach [OF s(1)] s(2) by (auto simp: ended_def two_paths_def)
qed

end
