(* ===== verification/Crawl_Visit.thy ===== *)
theory Crawl_Visit
  imports Worker_Pool Robots_Txt Crawl_Scope Crawl_Run
begin

text \<open>
  One page of a crawl, \<open>internal/crawl/crawler.go\<close>: the robots.txt check, the crawl-delay gate,
  the acquisition through the worker pool, extraction, the sink and the links to follow; the
  getter for robots.txt files; and the start of \<open>Run\<close>, from a target to the coordinator's first
  state. \<open>escPath\<close> is \<open>url.EscapedPath\<close>; \<open>Get\<close> is the getter a robots cache is built with, which
  works on the same state as the visit.
\<close>

subsection \<open>The crawl-delay gate\<close>

text \<open>The critical section: the slot reserved at time \<open>now\<close> and the gate's next free time.\<close>

definition reserve :: "instant \<Rightarrow> duration \<Rightarrow> instant \<Rightarrow> instant \<times> instant" where
  "reserve now delay nxt = (let slot = (if nxt < now then now else nxt) in (slot, slot + delay))"

definition waitCrawlDelay :: "('b, 'w) env \<Rightarrow> string \<Rightarrow> duration \<Rightarrow> (string \<times> instant) list \<Rightarrow> ('b, 'w) net \<Rightarrow>
    bool \<times> (string \<times> instant) list \<times> ('b, 'w) net" where
  "waitCrawlDelay env host delay gates n =
     (let nxt = (case map_of gates host of None \<Rightarrow> 0 | Some t \<Rightarrow> t);
          (slot, nxt) = reserve (e_Now env (n_world n) 0) delay nxt;
          (fired, w) = e_Timer env (slot - e_Now env (n_world n) 1) (n_world n)
      in (fired, AList.update host nxt gates, e_Others env (n\<lparr>n_world := w\<rparr>)))"

subsection \<open>Small operations\<close>

definition url_query :: "url \<Rightarrow> string" where
  "url_query u = (if RawQuery u = '''' then '''' else ''?'' @ RawQuery u)"

definition localePart :: "string \<Rightarrow> nat \<Rightarrow> string" where
  "localePart locale i = (case Cut locale CHR ''-'' of
       None \<Rightarrow> '''' | Some (country, lang) \<Rightarrow> if i = 0 then country else lang)"

definition page_isHTML :: "string \<Rightarrow> bool" where
  "page_isHTML contentType = (let ct = ToLower contentType in ct = '''' \<or> Contains ct ''html'')"

definition rateByHost :: "'n dom_api \<Rightarrow> proxy \<Rightarrow> request \<Rightarrow> string" where
  "rateByHost api px req = (case d_ParseURL api (req_URL req) of
       Some u \<Rightarrow> ToLower (Host u) | None \<Rightarrow> req_URL req)"

definition followLinks :: "'n dom_api \<Rightarrow> string \<Rightarrow> string \<Rightarrow> string \<Rightarrow> string list option \<Rightarrow> string list" where
  "followLinks api pageURL body selector extracted =
     (if selector = ''a[href]'' \<and> extracted \<noteq> None then the extracted
      else case d_ParseURL api pageURL of
          None \<Rightarrow> []
        | Some base \<Rightarrow> (case d_Document api body of
            None \<Rightarrow> []
          | Some doc \<Rightarrow> Links api base doc selector))"

subsection \<open>One visit\<close>

text \<open>The variables \<open>use\<close> assigns: \<open>page\<close> and \<open>follow\<close>.\<close>

type_synonym visit_vars = "field_value page option \<times> string list"

record ('b, 'w, 's) visit_state =
  v_st :: "('b, 'w, visit_vars) state"
  v_robots :: cache
  v_gates :: "(string \<times> instant) list"
  v_sink :: 's

datatype visit_end = VisitPanic | VisitLinks "cjob list"

record ('n, 'r) crawl_api =
  cr_dom :: "'n dom_api"
  cr_rx :: "'r regex_api"
  cr_escPath :: "url \<Rightarrow> string"
  cr_crawlDelay :: "string \<Rightarrow> duration option"

definition empty_page :: "field_value page" where
  "empty_page = \<lparr>pg_Target = '''', pg_RunID = '''', pg_URL = '''', pg_FinalURL = '''', pg_Depth = 0,
     pg_StatusCode = 0, pg_ContentType = '''', pg_FetchedAt = 0, pg_LatencyMS = 0, pg_ProxyUsed = '''',
     pg_Title = '''', Description = '''', Canonical = '''', pg_Language = '''', Headings = [], OpenGraph = [],
     JSONLD = [], pg_Text = '''', pg_Links = None, pg_Fields = [], Items = [], Extraction = None, pg_RawBody = ''''\<rparr>"

definition visit_build :: "worker \<Rightarrow> target \<Rightarrow> cjob \<Rightarrow> 'w \<Rightarrow> proxy \<Rightarrow> request" where
  "visit_build p t j w px =
     \<lparr>Query = '''', req_URL = cj_url j, UserAgent = w_UserAgent p, ProxyURL = px_URL px,
      Country = localePart (t_Locale t) 0, Language = localePart (t_Locale t) 1, Device = t_Device t,
      WaitSelector = t_WaitSelector t\<rparr>"

definition visit_use :: "('b, 'w) env \<Rightarrow> 'n dom_api \<Rightarrow> target \<Rightarrow> string \<Rightarrow> cjob \<Rightarrow>
    'w \<Rightarrow> response \<Rightarrow> proxy \<Rightarrow> visit_vars \<Rightarrow> go_error option \<times> visit_vars" where
  "visit_use env api t runID j w resp px vars =
     (let final = (if FinalURL resp = '''' then cj_url j else FinalURL resp);
          filled = (\<lambda>p follow.
            let p = p\<lparr>pg_Target := t_Name t, pg_RunID := runID, pg_URL := cj_url j, pg_Depth := cj_depth j\<rparr>;
                p = (if final \<noteq> cj_url j then p\<lparr>pg_FinalURL := final\<rparr> else p);
                p = p\<lparr>pg_StatusCode := StatusCode resp, pg_ContentType := ContentType resp,
                      pg_FetchedAt := e_Now env w 0, pg_LatencyMS := Milliseconds (Latency resp),
                      pg_ProxyUsed := Key px\<rparr>
            in (None, (Some p, follow)))
      in if page_isHTML (ContentType resp) then
           (case Page api final (Body resp) (t_Extract t) of
              Inl e \<Rightarrow> (Some e, vars)
            | Inr p \<Rightarrow>
                (let follow = (if cj_depth j < MaxDepth t
                       then followLinks api final (Body resp) (Follow t) (pg_Links p) else snd vars);
                     p = (if Extraction p \<noteq> None then p\<lparr>pg_RawBody := Body resp\<rparr> else p)
                 in filled p follow))
         else filled empty_page (snd vars))"

definition visit_ops :: "('b, 'w) env \<Rightarrow> 'n dom_api \<Rightarrow> worker \<Rightarrow> target \<Rightarrow> string \<Rightarrow> cjob \<Rightarrow>
    ('w, visit_vars) job_ops" where
  "visit_ops env api p t runID j =
     \<lparr>build = visit_build p t j, rateKey = Some (rateByHost api), use = visit_use env api t runID j\<rparr>"

definition next_jobs :: "('n, 'r) crawl_api \<Rightarrow> 'r scope \<Rightarrow> cjob \<Rightarrow> string list \<Rightarrow> cjob list" where
  "next_jobs ca s j follow = List.map_filter
     (\<lambda>l. case d_ParseURL (cr_dom ca) l of
        None \<Rightarrow> None
      | Some lu \<Rightarrow>
          (let n = normalize (cr_dom ca) lu in
           if follows (cr_dom ca) (cr_rx ca) s n then Some \<lparr>cj_url = n, cj_depth = cj_depth j + 1\<rparr> else None))
     follow"

text \<open>From the acquisition to the end of \<open>visit\<close>. \<open>None\<close>: \<open>Acquire\<close> does not return.\<close>

definition visit_fetch :: "('b, 'w) env \<Rightarrow> ('n, 'r) crawl_api \<Rightarrow> worker \<Rightarrow>
    (field_value page \<Rightarrow> 's \<Rightarrow> go_error option \<times> 's) \<Rightarrow> string \<Rightarrow> 'r scope \<Rightarrow> cjob \<Rightarrow>
    ('b, 'w, 's) visit_state \<Rightarrow> (visit_end \<times> crawl_stats \<times> ('b, 'w, 's) visit_state) option" where
  "visit_fetch env ca p write runID s j v =
     (case Acquire env p (visit_ops env (cr_dom ca) p (s_Target s) runID j)
             ((v_st v)\<lparr>st_use := (None, [])\<rparr>) of
        None \<Rightarrow> None
      | Some (AcqPanic, st) \<Rightarrow> Some (VisitPanic, zero_stats, v\<lparr>v_st := st\<rparr>)
      | Some (AcqDropped d, st) \<Rightarrow>
          if Canceled d then Some (VisitLinks [], zero_stats, v\<lparr>v_st := st\<rparr>)
          else Some (VisitLinks [], zero_stats\<lparr>Failed := 1\<rparr>, v\<lparr>v_st := st\<lparr>st_met := IncDropped (st_met st)\<rparr>\<rparr>)
      | Some (AcqNil, st) \<Rightarrow>
          (case st_use st of
             (None, follow) \<Rightarrow> Some (VisitPanic, zero_stats, v\<lparr>v_st := st\<rparr>)
           | (Some page, follow) \<Rightarrow>
               (let (werr, sink) = write page (v_sink v);
                    met = IncSuccess (st_met st);
                    flagged = Extraction page \<noteq> None;
                    met = (if flagged then IncCalibrationFlagged met else met)
                in Some (VisitLinks (next_jobs ca s j follow),
                     zero_stats\<lparr>Fetched := 1, Flagged := (if flagged then 1 else 0)\<rparr>,
                     v\<lparr>v_st := st\<lparr>st_met := met\<rparr>, v_sink := sink\<rparr>))))"

definition visit :: "('b, 'w) env \<Rightarrow> ('n, 'r) crawl_api \<Rightarrow> worker \<Rightarrow>
    (string \<Rightarrow> ('b, 'w, visit_vars) state \<Rightarrow> (int \<times> string) option \<times> ('b, 'w, visit_vars) state) \<Rightarrow>
    (field_value page \<Rightarrow> 's \<Rightarrow> go_error option \<times> 's) \<Rightarrow> string \<Rightarrow> 'r scope \<Rightarrow> cjob \<Rightarrow>
    ('b, 'w, 's) visit_state \<Rightarrow> (visit_end \<times> crawl_stats \<times> ('b, 'w, 's) visit_state) option" where
  "visit env ca p Get write runID s j v =
     (case d_ParseURL (cr_dom ca) (cj_url j) of
        None \<Rightarrow> Some (VisitLinks [], zero_stats, v)
      | Some u \<Rightarrow>
          (case RespectRobots (s_Target s) of
             None \<Rightarrow> Some (VisitPanic, zero_stats, v)
           | Some False \<Rightarrow> visit_fetch env ca p write runID s j v
           | Some True \<Rightarrow>
               (case For (cr_crawlDelay ca) Get (Scheme u) (Host u) (v_robots v, v_st v) of
                  None \<Rightarrow> Some (VisitPanic, zero_stats, v)
                | Some (rules, c, st) \<Rightarrow>
                    (let v = v\<lparr>v_robots := c, v_st := st\<rparr> in
                     if \<not> Allowed rules (cr_escPath ca u @ url_query u) then
                       Some (VisitLinks [], zero_stats\<lparr>RobotsDisallow := 1\<rparr>,
                         v\<lparr>v_st := st\<lparr>st_met := IncRobotsDisallowed (st_met st)\<rparr>\<rparr>)
                     else if 0 < CrawlDelay rules then
                       (let (ok, gates, n) = waitCrawlDelay env (ToLower (Host u)) (CrawlDelay rules)
                              (v_gates v) (st_net st);
                            v = v\<lparr>v_gates := gates, v_st := st\<lparr>st_net := n\<rparr>\<rparr>
                        in if ok then visit_fetch env ca p write runID s j v
                           else Some (VisitLinks [], zero_stats, v))
                     else visit_fetch env ca p write runID s j v))))"

subsection \<open>Fetching robots.txt\<close>

text \<open>
  \<open>RobotsGetter\<close>: what a call of \<open>Acquire\<close> means for the robots cache, \<open>Some None\<close> being an error
  and \<open>None\<close> a panic. A dropped job's error unwraps to the last error of the fetch loop.
\<close>

definition getter_answer :: "acquire_result \<Rightarrow> int \<times> string \<Rightarrow> (int \<times> string) option option" where
  "getter_answer r vars = (case r of
       AcqNil \<Rightarrow> Some (Some vars)
     | AcqDropped d \<Rightarrow>
         Some (case d_Err d of
             None \<Rightarrow> None
           | Some e \<Rightarrow> (case errors_As as_Status e of
               Some code \<Rightarrow> Some (code, '''')
             | None \<Rightarrow> map_option (\<lambda>rl. (rl_StatusCode rl, '''')) (errors_As as_RateLimit e)))
     | AcqPanic \<Rightarrow> None)"

definition robots_ops :: "'n dom_api \<Rightarrow> worker \<Rightarrow> string \<Rightarrow> ('w, int \<times> string) job_ops" where
  "robots_ops api p robotsURL =
     \<lparr>build = (\<lambda>w px. \<lparr>Query = '''', req_URL = robotsURL, UserAgent = w_UserAgent p, ProxyURL = px_URL px,
        Country = '''', Language = '''', Device = '''', WaitSelector = ''''\<rparr>),
      rateKey = Some (rateByHost api), use = (\<lambda>w resp px vars. (None, (StatusCode resp, Body resp)))\<rparr>"

definition RobotsGetter :: "('b, 'w) env \<Rightarrow> 'n dom_api \<Rightarrow> worker \<Rightarrow> string \<Rightarrow> ('b, 'w, int \<times> string) state \<Rightarrow>
    ((int \<times> string) option option \<times> ('b, 'w, int \<times> string) state) option" where
  "RobotsGetter env api p robotsURL st =
     map_option (\<lambda>(r, st). (getter_answer r (st_use st), st))
       (Acquire env p (robots_ops api p robotsURL) (st\<lparr>st_use := (0, '''')\<rparr>))"

subsection \<open>The start of a crawl\<close>

definition Run_start :: "'n dom_api \<Rightarrow> 'r regex_api \<Rightarrow> bool \<Rightarrow> int \<Rightarrow> target \<Rightarrow> go_error + 'r scope \<times> coord" where
  "Run_start api rx hasRobots poolConc t =
     (case compile_target api rx t of
        Inl e \<Rightarrow> Inl e
      | Inr s \<Rightarrow>
          if RespectRobots (s_Target s) = Some True \<and> \<not> hasRobots
          then Inl (crawl_err (t_Name (s_Target s)) ''respects robots.txt but no robots cache is configured'')
          else Inr (s, crawl_init (MaxPages (s_Target s))
                 (workers_of (t_Concurrency (s_Target s)) poolConc) (starts s)))"

subsection \<open>Requests to one host keep their distance\<close>

definition gate_next :: "(string \<times> instant) list \<Rightarrow> string \<Rightarrow> instant" where
  "gate_next gates host = (case map_of gates host of None \<Rightarrow> 0 | Some t \<Rightarrow> t)"

text \<open>The slots a sequence of calls reserves, each with its host and delay.\<close>

fun gate_run :: "('b, 'w) env \<Rightarrow> (string \<times> duration \<times> ('b, 'w) net) list \<Rightarrow> (string \<times> instant) list \<Rightarrow>
    (string \<times> instant \<times> duration) list" where
  "gate_run env [] gates = []"
| "gate_run env ((host, delay, n) # calls) gates =
     (let gates' = fst (snd (waitCrawlDelay env host delay gates n))
      in (host, gate_next gates' host - delay, delay) # gate_run env calls gates')"

definition slot_of :: "('b, 'w) env \<Rightarrow> string \<Rightarrow> (string \<times> instant) list \<Rightarrow> ('b, 'w) net \<Rightarrow> instant" where
  "slot_of env host gates n = max (gate_next gates host) (e_Now env (n_world n) 0)"

lemma waitCrawlDelay_gates:
  "fst (snd (waitCrawlDelay env host delay gates n)) = AList.update host (slot_of env host gates n + delay) gates"
  by (simp add: waitCrawlDelay_def reserve_def slot_of_def gate_next_def Let_def case_prod_unfold max_def)

lemma gate_next_update: "gate_next (AList.update h t gates) h' = (if h' = h then t else gate_next gates h')"
  by (simp add: gate_next_def update_conv')

lemma gate_run_from:
  assumes "\<forall>(h, d, n)\<in>set calls. 0 \<le> d" "(h, a, d) \<in> set (gate_run env calls gates)"
  shows "gate_next gates h \<le> a"
  using assms
proof (induction calls arbitrary: gates)
  case (Cons call calls)
  obtain h' d' n where c: "call = (h', d', n)" by (metis prod_cases3)
  let ?gates = "AList.update h' (slot_of env h' gates n + d') gates"
  have "gate_next gates h' \<le> slot_of env h' gates n" by (simp add: slot_of_def)
  moreover from this have "gate_next gates h \<le> gate_next ?gates h"
    using Cons.prems(1) by (auto simp: c gate_next_update)
  moreover have "gate_next ?gates h \<le> a" if "(h, a, d) \<in> set (gate_run env calls ?gates)"
    using Cons.IH [OF _ that] Cons.prems(1) by simp
  ultimately show ?case
    using Cons.prems(2) by (fastforce simp: c waitCrawlDelay_gates gate_next_update Let_def)
qed simp



subsection \<open>What a visit returns\<close>

definition page_of :: "target \<Rightarrow> string \<Rightarrow> cjob \<Rightarrow> field_value page \<Rightarrow> bool" where
  "page_of t runID j page \<longleftrightarrow> pg_Target page = t_Name t \<and> pg_RunID page = runID \<and>
     pg_URL page = cj_url j \<and> pg_Depth page = cj_depth j"

lemma visit_use_keep:
  "visit_use env api t runID j w resp px vars = (Some e, vars') \<Longrightarrow> vars' = vars"
  by (auto simp: visit_use_def Let_def split: if_splits sum.splits)

lemma visit_use_fin:
  assumes "visit_use env api t runID j w resp px vars = (None, vars')" "snd vars = []"
  shows "\<exists>page. fst vars' = Some page \<and> page_of t runID j page \<and> (MaxDepth t \<le> cj_depth j \<longrightarrow> snd vars' = [])"
  using assms by (auto simp: visit_use_def page_of_def Let_def split: if_splits sum.splits)

lemma visit_Acquire:
  assumes "Acquire env p (visit_ops env api p t runID j) (st\<lparr>st_use := (None, [])\<rparr>) = Some (AcqNil, st')"
  shows "\<exists>page follow. st_use st' = (Some page, follow) \<and> page_of t runID j page \<and>
    (MaxDepth t \<le> cj_depth j \<longrightarrow> follow = [])"
proof -
  let ?I = "\<lambda>vars. vars = (None, []) :: bool"
  let ?Q = "\<lambda>vars. \<exists>page. fst vars = Some page \<and> page_of t runID j page \<and> (MaxDepth t \<le> cj_depth j \<longrightarrow> snd vars = [])"
  have keep: "?I u'" if "?I u" "use (visit_ops env api p t runID j) w resp pr u = (Some e, u')" for w resp pr u e u'
    using that visit_use_keep [of env api t runID j w resp pr u e u'] by (simp add: visit_ops_def)
  have fin: "?Q u'" if "?I u" "use (visit_ops env api p t runID j) w resp pr u = (None, u')" for w resp pr u u'
    using that visit_use_fin [of env api t runID j w resp pr u u'] by (simp add: visit_ops_def)
  have "?Q (st_use st')"
    using Acquire_loop_use [where I = ?I and Q = ?Q, OF assms [unfolded Acquire_def] keep fin] by simp
  then show ?thesis by (cases "st_use st'") auto
qed

lemma Acquire_counts:
  assumes "Acquire env p job st = Some (r, st')"
  shows "c_Success (st_met st') = c_Success (st_met st)" "c_Dropped (st_met st') = c_Dropped (st_met st)"
  using Acquire_loop_booked [OF assms [unfolded Acquire_def]] by (auto simp: booked_def)

lemma next_jobs_sound:
  assumes "l \<in> set (next_jobs ca s j follow)"
  shows "cj_depth l = cj_depth j + 1" "follows (cr_dom ca) (cr_rx ca) s (cj_url l)"
    "\<exists>u. cj_url l = normalize (cr_dom ca) u"
  using assms unfolding next_jobs_def List.map_filter_def
  by (auto simp: Let_def split: option.splits if_splits)

text \<open>What one call of \<open>visit_fetch\<close> or \<open>visit\<close> has done, from its statistics.\<close>

definition visit_done :: "('n, 'r) crawl_api \<Rightarrow> (field_value page \<Rightarrow> 's \<Rightarrow> go_error option \<times> 's) \<Rightarrow> string \<Rightarrow>
    'r scope \<Rightarrow> cjob \<Rightarrow> ('b, 'w, 's) visit_state \<Rightarrow> cjob list \<Rightarrow> crawl_stats \<Rightarrow> ('b, 'w, 's) visit_state \<Rightarrow> bool" where
  "visit_done ca write runID s j v ls d v' \<longleftrightarrow>
     stats_sane d \<and> settled d \<le> 1 \<and>
     (\<forall>l\<in>set ls. cj_depth l = cj_depth j + 1 \<and> cj_depth j < MaxDepth (s_Target s) \<and>
        follows (cr_dom ca) (cr_rx ca) s (cj_url l) \<and> (\<exists>u. cj_url l = normalize (cr_dom ca) u)) \<and>
     (if Fetched d = 1
      then \<exists>page. page_of (s_Target s) runID j page \<and> v_sink v' = snd (write page (v_sink v)) \<and>
             (Flagged d = 1 \<longleftrightarrow> Extraction page \<noteq> None)
      else ls = [] \<and> v_sink v' = v_sink v) \<and>
     c_Success (st_met (v_st v')) = c_Success (st_met (v_st v)) + of_int (Fetched d) \<and>
     c_Dropped (st_met (v_st v')) = c_Dropped (st_met (v_st v)) + of_int (Failed d)"

lemma visit_fetch_done:
  assumes "visit_fetch env ca p write runID s j v = Some (VisitLinks ls, d, v')"
  shows "visit_done ca write runID s j v ls d v'"
proof -
  let ?ops = "visit_ops env (cr_dom ca) p (s_Target s) runID j"
  obtain r st where A: "Acquire env p ?ops ((v_st v)\<lparr>st_use := (None, [])\<rparr>) = Some (r, st)"
    using assms by (auto simp: visit_fetch_def split: option.splits)
  have met: "c_Success (st_met st) = c_Success (st_met (v_st v))" "c_Dropped (st_met st) = c_Dropped (st_met (v_st v))"
    using Acquire_counts [OF A] by simp_all
  show ?thesis
  proof (cases r)
    case AcqNil
    then obtain page follow where u: "st_use st = (Some page, follow)" "page_of (s_Target s) runID j page"
      "MaxDepth (s_Target s) \<le> cj_depth j \<longrightarrow> follow = []" using visit_Acquire A by blast
    have ls: "ls = next_jobs ca s j follow"
      using assms A AcqNil u(1) by (auto simp: visit_fetch_def Let_def case_prod_unfold)
    have "cj_depth j < MaxDepth (s_Target s)" if "l \<in> set ls" for l
      using that u(3) unfolding ls by (cases "cj_depth j < MaxDepth (s_Target s)") (auto simp: next_jobs_def map_filter_simps)
    then have links: "\<forall>l\<in>set ls. cj_depth l = cj_depth j + 1 \<and> cj_depth j < MaxDepth (s_Target s) \<and>
        follows (cr_dom ca) (cr_rx ca) s (cj_url l) \<and> (\<exists>u. cj_url l = normalize (cr_dom ca) u)"
      using next_jobs_sound [of _ ca s j follow] unfolding ls by blast
    have d: "d = zero_stats\<lparr>Fetched := 1, Flagged := (if Extraction page \<noteq> None then 1 else 0)\<rparr>"
      and sink: "v_sink v' = snd (write page (v_sink v))"
      and met': "c_Success (st_met (v_st v')) = c_Success (st_met st) + 1" "c_Dropped (st_met (v_st v')) = c_Dropped (st_met st)"
      using assms A AcqNil u(1) by (auto simp: visit_fetch_def Let_def case_prod_unfold metric_defs)
    have "\<exists>page. page_of (s_Target s) runID j page \<and> v_sink v' = snd (write page (v_sink v)) \<and>
        (Flagged d = 1 \<longleftrightarrow> Extraction page \<noteq> None)"
      by (rule exI [of _ page]) (simp add: u(2) sink d)
    then show ?thesis
      using links met met' unfolding visit_done_def by (simp add: d stats_sane_def settled_def zero_stats_def)
  next
    case (AcqDropped dr)
    then show ?thesis
      using assms A met unfolding visit_done_def
      by (auto simp: visit_fetch_def stats_sane_def settled_def zero_stats_def metric_defs split: if_splits)
  next
    case AcqPanic
    then show ?thesis using assms A by (simp add: visit_fetch_def)
  qed
qed


text \<open>
  What a visit relies on of the getter: it counts no page. \<open>RobotsGetter\<close> satisfies it, since
  \<open>Acquire\<close> leaves the counts of finished pages alone.
\<close>

definition get_quiet :: "(string \<Rightarrow> ('b, 'w, 'u) state \<Rightarrow> (int \<times> string) option \<times> ('b, 'w, 'u) state) \<Rightarrow> bool" where
  "get_quiet Get \<longleftrightarrow> (\<forall>url st. c_Success (st_met (snd (Get url st))) = c_Success (st_met st) \<and>
     c_Dropped (st_met (snd (Get url st))) = c_Dropped (st_met st))"

lemma RobotsGetter_quiet:
  "RobotsGetter env api p url st = Some (r, st') \<Longrightarrow>
   c_Success (st_met st') = c_Success (st_met st) \<and> c_Dropped (st_met st') = c_Dropped (st_met st)"
  by (auto simp: RobotsGetter_def dest: Acquire_counts)

lemma For_quiet:
  assumes "get_quiet Get" "For cd Get sch h (c, st) = Some (r, c', st')"
  shows "c_Success (st_met st') = c_Success (st_met st)" "c_Dropped (st_met st') = c_Dropped (st_met st)"
proof -
  have "st' = st \<or> (\<exists>url. st' = snd (Get url st))"
    using assms(2) by (auto simp: For_def Let_def case_prod_unfold split: option.splits)
  then show "c_Success (st_met st') = c_Success (st_met st)" "c_Dropped (st_met st') = c_Dropped (st_met st)"
    using assms(1) by (auto simp: get_quiet_def)
qed

lemma visit_done_shift:
  assumes "visit_done ca write runID s j w ls d v'" "v_sink w = v_sink v"
    and "c_Success (st_met (v_st w)) = c_Success (st_met (v_st v))" "c_Dropped (st_met (v_st w)) = c_Dropped (st_met (v_st v))"
  shows "visit_done ca write runID s j v ls d v'"
  using assms(1) unfolding visit_done_def assms(2-4) .

text \<open>How a visit that returns links went: without a fetch, or through \<open>visit_fetch\<close>.\<close>

lemma visit_cases:
  assumes "visit env ca p Get write runID s j v = Some (VisitLinks ls, d, v')" "get_quiet Get"
  obtains (skipped) "ls = []" "v_sink v' = v_sink v" "d = zero_stats \<or> d = zero_stats\<lparr>RobotsDisallow := 1\<rparr>"
      "c_Success (st_met (v_st v')) = c_Success (st_met (v_st v))" "c_Dropped (st_met (v_st v')) = c_Dropped (st_met (v_st v))"
  | (fetched) w u where "visit_fetch env ca p write runID s j w = Some (VisitLinks ls, d, v')" "v_sink w = v_sink v"
      "c_Success (st_met (v_st w)) = c_Success (st_met (v_st v))" "c_Dropped (st_met (v_st w)) = c_Dropped (st_met (v_st v))"
      "d_ParseURL (cr_dom ca) (cj_url j) = Some u"
      "RespectRobots (s_Target s) = Some True \<Longrightarrow> \<exists>r c st. Allowed r (cr_escPath ca u @ url_query u) \<and>
         For (cr_crawlDelay ca) Get (Scheme u) (Host u) (v_robots v, v_st v) = Some (r, c, st)"
proof (cases "d_ParseURL (cr_dom ca) (cj_url j)")
  case None
  then show thesis using assms(1) by (intro skipped) (auto simp: visit_def)
next
  case (Some u)
  show thesis
  proof (cases "RespectRobots (s_Target s) = Some True")
    case False
    then show thesis
      using assms(1) Some fetched [of v u] by (auto simp: visit_def split: option.splits bool.splits)
  next
    case True
    then obtain r c st where For: "For (cr_crawlDelay ca) Get (Scheme u) (Host u) (v_robots v, v_st v) = Some (r, c, st)"
      using assms(1) Some by (auto simp: visit_def split: option.splits)
    note q = For_quiet [OF assms(2) For]
    show thesis
    proof (cases "Allowed r (cr_escPath ca u @ url_query u)")
      case False
      then show thesis using assms(1) Some True For q by (intro skipped) (auto simp: visit_def metric_defs)
    next
      case allowed: True
      define gate where "gate = waitCrawlDelay env (ToLower (Host u)) (CrawlDelay r) (v_gates v) (st_net st)"
      define w where "w = (if 0 < CrawlDelay r
        then v\<lparr>v_robots := c, v_gates := fst (snd gate), v_st := st\<lparr>st_net := snd (snd gate)\<rparr>\<rparr>
        else v\<lparr>v_robots := c, v_st := st\<rparr>)"
      have vis: "visit env ca p Get write runID s j v =
          (if 0 < CrawlDelay r \<and> \<not> fst gate then Some (VisitLinks [], zero_stats, w)
           else visit_fetch env ca p write runID s j w)"
        using Some True For allowed by (simp add: visit_def gate_def w_def Let_def case_prod_unfold)
      have w: "v_sink w = v_sink v" "c_Success (st_met (v_st w)) = c_Success (st_met (v_st v))"
        "c_Dropped (st_met (v_st w)) = c_Dropped (st_met (v_st v))"
        using q by (simp_all add: w_def)
      show thesis
      proof (cases "0 < CrawlDelay r \<and> \<not> fst gate")
        case True
        then show thesis using assms(1) vis w by (intro skipped) auto
      next
        case False
        then show thesis using assms(1) vis w Some For allowed by (intro fetched [of w u]) auto
      qed
    qed
  qed
qed

lemma visit_is_done:
  assumes "visit env ca p Get write runID s j v = Some (VisitLinks ls, d, v')" "get_quiet Get"
  shows "visit_done ca write runID s j v ls d v'"
  using assms
proof (cases rule: visit_cases)
  case skipped
  then show ?thesis by (auto simp: visit_done_def stats_sane_def settled_def zero_stats_def)
next
  case (fetched w u)
  then show ?thesis using visit_done_shift [OF visit_fetch_done] by blast
qed


subsection \<open>A visit's promises\<close>

text \<open>
  C10. Every visit accounts for its page once. A fetched page is written to the sink exactly once,
  stamped with the target, run, URL and depth of its job, counted as a success and, exactly when
  extraction noted missing data, as flagged; any other visit writes nothing and finds no links;
  the success and dropped counters move with \<open>Fetched\<close> and \<open>Failed\<close>.
\<close>

theorem visit_accounts:
  assumes "visit env ca p Get write runID s j v = Some (VisitLinks ls, d, v')" "get_quiet Get"
  shows "Fetched d + Failed d + RobotsDisallow d \<le> 1 \<and>
    (Fetched d = 1 \<longrightarrow> (\<exists>page. page_of (s_Target s) runID j page \<and> v_sink v' = snd (write page (v_sink v)) \<and>
       (Flagged d = 1 \<longleftrightarrow> Extraction page \<noteq> None))) \<and>
    (Fetched d \<noteq> 1 \<longrightarrow> ls = [] \<and> v_sink v' = v_sink v) \<and>
    c_Success (st_met (v_st v')) = c_Success (st_met (v_st v)) + of_int (Fetched d) \<and>
    c_Dropped (st_met (v_st v')) = c_Dropped (st_met (v_st v)) + of_int (Failed d)"
  using visit_is_done [OF assms] unfolding visit_done_def settled_def by auto

text \<open>
  C11. A page of the robots-respecting crawl that was fetched, or failed after its fetches, was
  allowed by the rules the cache held for its origin, matched on its escaped path and query.
\<close>

theorem visit_obeys_robots:
  assumes "visit env ca p Get write runID s j v = Some (VisitLinks ls, d, v')" "get_quiet Get"
    and "RespectRobots (s_Target s) = Some True" "Fetched d = 1 \<or> Failed d = 1"
  shows "\<exists>u r c st. d_ParseURL (cr_dom ca) (cj_url j) = Some u \<and>
    For (cr_crawlDelay ca) Get (Scheme u) (Host u) (v_robots v, v_st v) = Some (r, c, st) \<and>
    Allowed r (cr_escPath ca u @ url_query u)"
  using assms(1,2)
proof (cases rule: visit_cases)
  case skipped
  then show ?thesis using assms(4) by (auto simp: zero_stats_def)
next
  case (fetched w u)
  then show ?thesis using assms(3) by blast
qed

text \<open>A concrete crawl for the witnesses: one text page, a site without a robots.txt.\<close>

definition tiny_crawl :: "(unit, unit) crawl_api" where
  "tiny_crawl = \<lparr>cr_dom = tiny_api, cr_rx = no_regex, cr_escPath = Path, cr_crawlDelay = (\<lambda>s. None)\<rparr>"

definition no_robots :: "string \<Rightarrow> ('b, 'w, 'u) state \<Rightarrow> (int \<times> string) option \<times> ('b, 'w, 'u) state" where
  "no_robots url st = (Some (404, ''''), st)"

definition tiny_scope :: "unit scope" where
  "tiny_scope = \<lparr>s_Target = (with_defaults (plain_target [''http://h/''] []))\<lparr>t_Extract :=
       \<lparr>s_Fields = [], s_Items = None, TextLimit = -1, SkipLinks = False\<rparr>\<rparr>, starts = [''http://h/''], domains = [''h''],
     s_include = [], s_exclude = []\<rparr>"

definition tiny_visit :: "(go_error + response) list \<Rightarrow>
    (visit_end \<times> crawl_stats \<times> (rat \<times> int, (go_error + response) list, string list) visit_state) option" where
  "tiny_visit w = visit scripted tiny_crawl three_tries no_robots (\<lambda>page sink. (None, sink @ [pg_URL page])) ''r1''
     tiny_scope \<lparr>cj_url = ''http://h/'', cj_depth = 0\<rparr>
     \<lparr>v_st = scripted_state w (None, []), v_robots = \<lparr>Agent = ''bot'', entries = []\<rparr>, v_gates = [], v_sink = []\<rparr>"

lemma no_robots_quiet: "get_quiet no_robots"
  by (simp add: get_quiet_def no_robots_def)

lemma tiny_visit_runs:
  "map_option (\<lambda>(r, d, v). (r, Fetched d, Failed d, RobotsDisallow d, v_sink v)) (tiny_visit [Inr answer]) =
     Some (VisitLinks [], 1, 0, 0, [''http://h/''])"
  by code_simp

lemma tiny_visit_obtain:
  obtains d v where "tiny_visit [Inr answer] = Some (VisitLinks [], d, v)" "Fetched d = 1" "v_sink v = [''http://h/'']"
  using tiny_visit_runs by (auto simp: map_option_case split: option.splits)

theorem visit_accounts_witness:
  "\<exists>d v. tiny_visit [Inr answer] = Some (VisitLinks [], d, v) \<and> v_sink v = [''http://h/''] \<and>
     c_Success (st_met (v_st v)) = 1"
proof -
  obtain d v where v: "tiny_visit [Inr answer] = Some (VisitLinks [], d, v)" "Fetched d = 1" "v_sink v = [''http://h/'']"
    by (rule tiny_visit_obtain)
  from visit_accounts [OF v(1) [unfolded tiny_visit_def] no_robots_quiet] v show ?thesis
    by (simp add: scripted_state_def zero_counters_def)
qed

theorem visit_obeys_robots_witness:
  "\<exists>r c st. For (\<lambda>s. None) no_robots ''http'' ''h''
       (\<lparr>Agent = ''bot'', entries = []\<rparr>, scripted_state [Inr answer] (None, []) :: (rat \<times> int, (go_error + response) list, visit_vars) state)
     = Some (r, c, st) \<and> Allowed r ''/''"
proof -
  obtain d v where v: "tiny_visit [Inr answer] = Some (VisitLinks [], d, v)" "Fetched d = 1" "v_sink v = [''http://h/'']"
    by (rule tiny_visit_obtain)
  have "RespectRobots (s_Target tiny_scope) = Some True" by (simp add: tiny_scope_def with_defaults_def plain_target_def)
  from visit_obeys_robots [OF v(1) [unfolded tiny_visit_def] no_robots_quiet this] v(2)
  obtain u r c st where *: "d_ParseURL tiny_api ''http://h/'' = Some u"
    "For (\<lambda>s. None) no_robots (Scheme u) (Host u) (\<lparr>Agent = ''bot'', entries = []\<rparr>,
       scripted_state [Inr answer] (None, []) :: (rat \<times> int, (go_error + response) list, visit_vars) state) = Some (r, c, st)"
    "Allowed r (Path u @ url_query u)" by (auto simp: tiny_crawl_def)
  have "d_ParseURL tiny_api ''http://h/'' = Some \<lparr>Scheme = ''http'', Host = ''h'', Path = ''/'', RawQuery = '''', Fragment = '''',
      RawFragment = '''', u_Other = ''''\<rparr>" by code_simp
  with * show ?thesis by (auto simp: url_query_def)
qed


subsection \<open>An unreachable robots.txt forbids everything\<close>

text \<open>
  C32. When the fetch loop gives up on a robots.txt, the crawl is forbidden the whole site unless
  the last error carries a status that says otherwise: nothing is allowed after network errors,
  blocks, cancellation, 429 and server errors.
\<close>

theorem robots_fail_closed:
  assumes "Acquire env p (robots_ops api p url) (st\<lparr>st_use := (0, '''')\<rparr>) = Some (AcqDropped dr, st')"
    and "\<forall>e code. d_Err dr = Some e \<longrightarrow>
      errors_As as_Status e = Some code \<or> errors_As as_Status e = None \<and> map_option rl_StatusCode (errors_As as_RateLimit e) = Some code \<longrightarrow>
      code < 200 \<or> 300 \<le> code \<and> code < 400 \<or> code = 429 \<or> 500 \<le> code"
  shows "\<exists>res. RobotsGetter env api p url st = Some (Some res, st') \<and> robots_policy cd agent res = Some DisallowAll"
proof -
  let ?res = "case d_Err dr of None \<Rightarrow> None
           | Some e \<Rightarrow> (case errors_As as_Status e of
               Some code \<Rightarrow> Some (code, '''')
             | None \<Rightarrow> map_option (\<lambda>rl. (rl_StatusCode rl, '''')) (errors_As as_RateLimit e))"
  have "robots_policy cd agent ?res = Some DisallowAll"
    using assms(2) by (fastforce simp: robots_policy_def split: option.splits)
  moreover have "RobotsGetter env api p url st = Some (Some ?res, st')"
    using assms(1) by (simp add: RobotsGetter_def getter_answer_def)
  ultimately show ?thesis by blast
qed

lemma robots_503_run:
  "map_option (\<lambda>(r, st). case r of AcqDropped d \<Rightarrow> d_Err d | _ \<Rightarrow> None)
     (Acquire scripted three_tries (robots_ops tiny_api three_tries ''u'')
       (scripted_state [Inl (StatusError 503), Inl (StatusError 503), Inl (StatusError 503)] (0, '''')))
   = Some (Some (StatusError 503))"
  by code_simp

theorem robots_fail_closed_witness:
  "\<exists>res st'. RobotsGetter scripted tiny_api three_tries ''u''
       (scripted_state [Inl (StatusError 503), Inl (StatusError 503), Inl (StatusError 503)] (0, '''')) = Some (Some res, st') \<and>
     robots_policy (\<lambda>s. None) ''bot'' res = Some DisallowAll"
proof -
  let ?st = "scripted_state [Inl (StatusError 503), Inl (StatusError 503), Inl (StatusError 503)] (0 :: int, '''' :: string)"
  obtain dr st' where a: "Acquire scripted three_tries (robots_ops tiny_api three_tries ''u'') ?st = Some (AcqDropped dr, st')"
    "d_Err dr = Some (StatusError 503)"
  proof (cases "Acquire scripted three_tries (robots_ops tiny_api three_tries ''u'') ?st")
    case (Some x)
    then obtain r st' where x: "x = (r, st')" by (cases x)
    then show thesis using that Some robots_503_run by (cases r) auto
  qed (use robots_503_run in simp)
  have e: "errors_As as_Status (StatusError 503) = Some 503" by (simp add: errors_As_def)
  have "?st\<lparr>st_use := (0, '''')\<rparr> = ?st" by (simp add: scripted_state_def)
  with a(1) have "Acquire scripted three_tries (robots_ops tiny_api three_tries ''u'') (?st\<lparr>st_use := (0, '''')\<rparr>) = Some (AcqDropped dr, st')"
    by simp
  from robots_fail_closed [OF this, where cd = "\<lambda>s. None" and agent = "''bot''"] a(2) e show ?thesis by auto
qed

subsection \<open>Visits as steps of the crawl\<close>

definition visits_of :: "('b, 'w) env \<Rightarrow> ('n, 'r) crawl_api \<Rightarrow> worker \<Rightarrow>
    (string \<Rightarrow> ('b, 'w, visit_vars) state \<Rightarrow> (int \<times> string) option \<times> ('b, 'w, visit_vars) state) \<Rightarrow>
    (field_value page \<Rightarrow> 's \<Rightarrow> go_error option \<times> 's) \<Rightarrow> string \<Rightarrow> 'r scope \<Rightarrow> visit_rel" where
  "visits_of env ca p Get write runID s j ls d \<longleftrightarrow>
     (\<exists>v v'. visit env ca p Get write runID s j v = Some (VisitLinks ls, d, v'))"

lemma visits_of_ok:
  assumes "get_quiet Get"
  shows "visits_ok (MaxDepth (s_Target s)) (visits_of env ca p Get write runID s)"
proof -
  have "(\<forall>l\<in>set ls. cj_depth l = cj_depth j + 1 \<and> cj_depth j < MaxDepth (s_Target s)) \<and> stats_sane d \<and> settled d \<le> 1"
    if "visits_of env ca p Get write runID s j ls d" for j ls d
  proof -
    from that obtain v v' where "visit env ca p Get write runID s j v = Some (VisitLinks ls, d, v')"
      by (auto simp: visits_of_def)
    from visit_is_done [OF this assms] show ?thesis unfolding visit_done_def by blast
  qed
  then show ?thesis unfolding visits_ok_def by blast
qed

lemma visits_of_scope:
  assumes "get_quiet Get" "visits_of env ca p Get write runID s j ls d" "l \<in> set ls"
  shows "follows (cr_dom ca) (cr_rx ca) s (cj_url l)"
proof -
  from assms(2) obtain v v' where "visit env ca p Get write runID s j v = Some (VisitLinks ls, d, v')"
    by (auto simp: visits_of_def)
  from visit_is_done [OF this assms(1)] assms(3) show ?thesis unfolding visit_done_def by blast
qed

end
