(* ===== verification/Http_Fetch.thy ===== *)
theory Http_Fetch
  imports Fetch_Outcome "HOL-Library.List_Lexorder" "HOL-Library.Char_ord"
begin

text \<open>
  The fetchers that need no browser: the plain HTTP fetcher with its consent step
  (\<open>internal/fetcher/http.go\<close>), the failover from one fetcher to another (\<open>failover.go\<close>), the
  offline fixture fetcher (\<open>mock.go\<close>). The HTTP client, the HTML parser and \<open>net/url\<close>'s parser
  are the record \<open>http_api\<close>; form encoding (\<open>url.Values\<close>) is modelled.
\<close>

subsection \<open>Form encoding\<close>

text \<open>\<open>url.QueryEscape\<close>, \<open>url.Values\<close> with \<open>Set\<close>, \<open>Add\<close> and \<open>Encode\<close>.\<close>

definition upperhex :: "nat \<Rightarrow> char" where
  "upperhex n = char_of (if n < 10 then 48 + n else 55 + n)"

definition unreserved :: "char \<Rightarrow> bool" where
  "unreserved c \<longleftrightarrow> 48 \<le> byte c \<and> byte c \<le> 57 \<or> 65 \<le> byte c \<and> byte c \<le> 90 \<or> 97 \<le> byte c \<and> byte c \<le> 122 \<or>
     c \<in> {CHR ''-'', CHR ''_'', CHR ''.'', CHR ''~''}"

definition escape_char :: "char \<Rightarrow> string" where
  "escape_char c = (if unreserved c then [c] else if c = CHR '' '' then ''+''
     else [CHR ''%'', upperhex (byte c div 16), upperhex (byte c mod 16)])"

definition QueryEscape :: "string \<Rightarrow> string" where
  "QueryEscape s = concat (map escape_char s)"

type_synonym form_values = "(string \<times> string list) list"

fun values_Set :: "string \<Rightarrow> string \<Rightarrow> form_values \<Rightarrow> form_values" where
  "values_Set k v [] = [(k, [v])]"
| "values_Set k v ((k', vs) # kvs) = (if k' = k then (k, [v]) # kvs else (k', vs) # values_Set k v kvs)"

fun values_Add :: "string \<Rightarrow> string \<Rightarrow> form_values \<Rightarrow> form_values" where
  "values_Add k v [] = [(k, [v])]"
| "values_Add k v ((k', vs) # kvs) = (if k' = k then (k, vs @ [v]) # kvs else (k', vs) # values_Add k v kvs)"

definition values_pairs :: "form_values \<Rightarrow> (string \<times> string) list" where
  "values_pairs kvs = concat (map (\<lambda>(k, vs). map (Pair k) vs) (sort_key fst kvs))"

definition Encode :: "form_values \<Rightarrow> string" where
  "Encode kvs = join (map (\<lambda>(k, v). QueryEscape k @ ''='' @ QueryEscape v) (values_pairs kvs)) ''&''"

subsection \<open>Parameters and state\<close>

record http_request =
  hr_Method :: string
  hr_URL :: string
  hr_Header :: "(string \<times> string) list"
  hr_Body :: string

text \<open>\<open>hs_ReadAll n\<close> is \<open>io.ReadAll\<close> of the body limited to \<open>n\<close> bytes.\<close>

record http_response =
  hs_Status :: int
  hs_URL :: url
  hs_Header :: "string \<Rightarrow> string"
  hs_ReadAll :: "nat \<Rightarrow> go_error + string"

record consent_form =
  cf_Action :: string
  cf_Method :: "string option"
  cf_Inputs :: "(string \<times> string) list"

record ('d, 'w) http_api =
  ha_Page :: "'d page_api"
  ha_Do :: "string \<Rightarrow> http_request \<Rightarrow> 'w \<Rightarrow> (go_error + http_response) \<times> 'w"
  ha_NewRequest :: "string \<Rightarrow> string \<Rightarrow> go_error option"
  ha_ParseRef :: "url \<Rightarrow> string \<Rightarrow> url option"
  ha_String :: "url \<Rightarrow> string"
  ha_RejectForm :: "'d \<Rightarrow> consent_form option"
  ha_ParseTime :: "string \<Rightarrow> instant option"
  ha_Now :: "'w \<Rightarrow> instant"

record http_fetcher =
  hf_Endpoint :: string
  hf_Generic :: bool
  DetectAppShells :: bool
  OnConsentHandled :: bool

text \<open>The pooled transports by proxy URL, the calls of \<open>OnConsentHandled\<close> and the world.\<close>

record 'w http_state =
  transports :: "string list"
  consents :: nat
  h_world :: 'w

record fetched =
  fd_status :: int
  fd_url :: url
  fd_header :: "string \<Rightarrow> string"
  fd_body :: string

definition maxBodyBytes :: nat where "maxBodyBytes = 5 * 1024 * 1024"

subsection \<open>Requests\<close>

definition http_headers :: "string \<Rightarrow> (string \<times> string) list" where
  "http_headers userAgent =
     [(''User-Agent'', if userAgent = '''' then ''Mozilla/5.0 (compatible; web-harvester/0.1)'' else userAgent),
      (''Accept-Language'', ''en-US,en;q=0.9'')]"

definition search_values :: "request \<Rightarrow> form_values" where
  "search_values req =
     (let q = values_Set ''q'' (Query req) [];
          q = (if Country req \<noteq> '''' then values_Set ''gl'' (Country req) q else q)
      in if Language req \<noteq> '''' then values_Set ''hl'' (Language req) q else q)"

definition http_url :: "http_fetcher \<Rightarrow> request \<Rightarrow> string" where
  "http_url f req = (if req_URL req \<noteq> '''' then req_URL req
     else hf_Endpoint f @ ''?'' @ Encode (search_values req))"

definition transportFor :: "('d, 'w) http_api \<Rightarrow> string \<Rightarrow> 'w http_state \<Rightarrow> go_error option \<times> 'w http_state" where
  "transportFor api proxyURL st =
     (if proxyURL \<in> set (transports st) then (None, st)
      else if proxyURL \<noteq> '''' \<and> pa_Parse (ha_Page api) proxyURL = None
      then (Some (Wrapped ''fetcher: invalid proxy url'' (ErrorString ''parse'')), st)
      else (None, st\<lparr>transports := transports st @ [proxyURL]\<rparr>))"

definition http_do :: "('d, 'w) http_api \<Rightarrow> string \<Rightarrow> http_request \<Rightarrow> 'w http_state \<Rightarrow>
    (go_error + fetched) \<times> 'w http_state" where
  "http_do api proxyURL r st =
     (let (res, w) = ha_Do api proxyURL r (h_world st);
          st = st\<lparr>h_world := w\<rparr>
      in case res of
           Inl e \<Rightarrow> (Inl (Wrapped ''fetcher: request failed'' e), st)
         | Inr rs \<Rightarrow>
             (case hs_ReadAll rs maxBodyBytes of
                Inl e \<Rightarrow> (Inl (TransportError (Wrapped ''read body'' e)), st)
              | Inr body \<Rightarrow> (Inr \<lparr>fd_status = hs_Status rs, fd_url = hs_URL rs, fd_header = hs_Header rs,
                    fd_body = body\<rparr>, st)))"

text \<open>\<open>rejectConsentRequest\<close>: an error, no form (\<open>Inr None\<close>), or the request to send.\<close>

definition rejectConsentRequest :: "('d, 'w) http_api \<Rightarrow> url \<Rightarrow> string \<Rightarrow> string \<Rightarrow> go_error + http_request option" where
  "rejectConsentRequest api pageURL body userAgent =
     (case pa_Document (ha_Page api) body of
        None \<Rightarrow> Inr None
      | Some doc \<Rightarrow>
          (case ha_RejectForm api doc of
             None \<Rightarrow> Inr None
           | Some form \<Rightarrow>
               (case ha_ParseRef api pageURL (cf_Action form) of
                  None \<Rightarrow> Inr None
                | Some target \<Rightarrow>
                    (let values = fold (\<lambda>(name, v). values_Add name v) (cf_Inputs form) [];
                         isGet = (case cf_Method form of Some m \<Rightarrow> ToLower m = ''get'' | None \<Rightarrow> False);
                         r = (if isGet
                              then \<lparr>hr_Method = ''GET'', hr_URL = ha_String api (target\<lparr>RawQuery := Encode values\<rparr>),
                                     hr_Header = http_headers userAgent, hr_Body = ''''\<rparr>
                              else \<lparr>hr_Method = ''POST'', hr_URL = ha_String api target,
                                     hr_Header = (''Content-Type'', ''application/x-www-form-urlencoded'') # http_headers userAgent,
                                     hr_Body = Encode values\<rparr>)
                     in case ha_NewRequest api (hr_Method r) (hr_URL r) of
                          Some e \<Rightarrow> Inl (Wrapped ''fetcher: build consent request'' e)
                        | None \<Rightarrow> Inr (Some r)))))"

subsection \<open>The fetch\<close>

definition http_classify :: "('d, 'w) http_api \<Rightarrow> http_fetcher \<Rightarrow> string \<Rightarrow> int \<Rightarrow> string \<Rightarrow> pageKind" where
  "http_classify api f pageURL status html =
     (if hf_Generic f then classifyGenericPage (ha_Page api) pageURL status html
      else classifyPage (ha_Page api) pageURL html)"

definition fetched_kind :: "('d, 'w) http_api \<Rightarrow> http_fetcher \<Rightarrow> fetched \<Rightarrow> pageKind" where
  "fetched_kind api f fd = http_classify api f (ha_String api (fd_url fd)) (fd_status fd) (fd_body fd)"

definition needsJS :: "('d, 'w) http_api \<Rightarrow> http_fetcher \<Rightarrow> string \<Rightarrow> bool" where
  "needsJS api f rawHTML =
     (if hf_Generic f then DetectAppShells f \<and> looksLikeJSShell (ha_Page api) rawHTML else requiresJS rawHTML)"

definition content_type :: "fetched \<Rightarrow> string" where
  "content_type fd = fd_header fd ''Content-Type''"

text \<open>From the last response to the result of \<open>Fetch\<close>.\<close>

definition http_verdict :: "('d, 'w) http_api \<Rightarrow> http_fetcher \<Rightarrow> instant \<Rightarrow> 'w \<Rightarrow> fetched \<Rightarrow> pageKind \<Rightarrow> go_error + response" where
  "http_verdict api f start w fd kind =
     (let kind = (if kind = pageNormal \<and> isHTML (content_type fd) \<and> needsJS api f (fd_body fd)
                  then pageInterstitial else kind)
      in case blockedErrorFor kind (ha_String api (fd_url fd)) (fd_status fd) (fd_body fd) of
           Some b \<Rightarrow> Inl (BlockedError b)
         | None \<Rightarrow>
             if fd_status fd = 429 then
               Inl (RateLimitError \<lparr>rl_StatusCode = fd_status fd,
                 RetryAfter = fst (parseRetryAfter (ha_ParseTime api) (ha_Now api w) (fd_header fd ''Retry-After'')),
                 rl_Body = Fetch_Outcome.truncate (fd_body fd) 512\<rparr>)
             else if 400 \<le> fd_status fd then Inl (StatusError (fd_status fd))
             else Inr \<lparr>StatusCode = fd_status fd, Body = fd_body fd, Latency = ha_Now api w - start,
                    ContentType = content_type fd, FinalURL = ha_String api (fd_url fd)\<rparr>)"

definition http_fetch :: "('d, 'w) http_api \<Rightarrow> http_fetcher \<Rightarrow> request \<Rightarrow> 'w http_state \<Rightarrow>
    (go_error + response) \<times> 'w http_state" where
  "http_fetch api f req st =
     (case transportFor api (ProxyURL req) st of
        (Some e, st) \<Rightarrow> (Inl e, st)
      | (None, st) \<Rightarrow>
          (let u = http_url f req in
           case ha_NewRequest api ''GET'' u of
             Some e \<Rightarrow> (Inl (Wrapped ''fetcher: build request'' e), st)
           | None \<Rightarrow>
               (let start = ha_Now api (h_world st) in
                case http_do api (ProxyURL req) \<lparr>hr_Method = ''GET'', hr_URL = u,
                       hr_Header = http_headers (UserAgent req), hr_Body = ''''\<rparr> st of
                  (Inl e, st) \<Rightarrow> (Inl e, st)
                | (Inr fd, st) \<Rightarrow>
                    (let kind = (if isHTML (content_type fd) then fetched_kind api f fd else pageNormal) in
                     if kind \<noteq> pageConsent then (http_verdict api f start (h_world st) fd kind, st)
                     else case rejectConsentRequest api (fd_url fd) (fd_body fd) (UserAgent req) of
                         Inl e \<Rightarrow> (Inl e, st)
                       | Inr None \<Rightarrow>
                           (Inl (BlockedError (the (blockedErrorFor pageConsent (ha_String api (fd_url fd))
                              (fd_status fd) (fd_body fd)))), st)
                       | Inr (Some r) \<Rightarrow>
                           (case http_do api (ProxyURL req) r st of
                              (Inl e, st) \<Rightarrow> (Inl e, st)
                            | (Inr fd, st) \<Rightarrow>
                                (let st = (if OnConsentHandled f then st\<lparr>consents := consents st + 1\<rparr> else st)
                                 in (http_verdict api f start (h_world st) fd (fetched_kind api f fd), st)))))))"


subsection \<open>Failing over\<close>

definition DefaultFailoverOn :: "outcome \<Rightarrow> bool" where
  "DefaultFailoverOn out \<longleftrightarrow> out = OutcomeInterstitial \<or> out = OutcomeConsent"

type_synonym ('q, 'r, 's) fetch_fun = "'q \<Rightarrow> 's \<Rightarrow> (go_error + 'r) \<times> 's"

text \<open>\<open>FailoverOn\<close> and \<open>OnFailover\<close> may be nil; the two fetchers and the callback share a state.\<close>

definition failover_fetch :: "('q, 'r, 's) fetch_fun \<Rightarrow> ('q, 'r, 's) fetch_fun \<Rightarrow> (outcome \<Rightarrow> bool) option \<Rightarrow>
    (outcome \<Rightarrow> 's \<Rightarrow> 's) option \<Rightarrow> ('s \<Rightarrow> go_error option) \<Rightarrow> ('q, 'r, 's) fetch_fun" where
  "failover_fetch primary secondary on onFailover ctxErr req st =
     (case primary req st of
        (Inr resp, st) \<Rightarrow> (Inr resp, st)
      | (Inl err, st) \<Rightarrow>
          if ctxErr st \<noteq> None then (Inl err, st)
          else (let outc = Classify (Some err);
                    on = (case on of None \<Rightarrow> DefaultFailoverOn | Some p \<Rightarrow> p)
                in if \<not> on outc then (Inl err, st)
                   else secondary req (case onFailover of None \<Rightarrow> st | Some f \<Rightarrow> f outc st)))"

text \<open>
  \<open>Close\<close>: the closers among the two fetchers, each with the error its \<open>Close\<close> returns;
  \<open>errors.Join\<close> keeps the errors that are not nil and is nil when there are none.
\<close>

fun failover_Close :: "('s \<Rightarrow> go_error option \<times> 's) option list \<Rightarrow> 's \<Rightarrow> go_error list \<times> 's" where
  "failover_Close [] st = ([], st)"
| "failover_Close (None # xs) st = failover_Close xs st"
| "failover_Close (Some close # xs) st =
     (let (e, st) = close st; (es, st) = failover_Close xs st
      in (case e of None \<Rightarrow> es | Some e \<Rightarrow> e # es, st))"

subsection \<open>Fixtures\<close>

record mock =
  fixtures :: "string list"
  mk_counter :: "64 word"
  FailEvery :: "64 word"

text \<open>
  \<open>Mock.Fetch\<close>; \<open>wait\<close> is the simulated latency racing with the context: the elapsed time or the
  context's error. \<open>None\<close> is the index panic of an \<open>int\<close> conversion that turned negative.
\<close>

definition mock_fetch :: "(duration + go_error) \<Rightarrow> request \<Rightarrow> mock \<Rightarrow> ((go_error + response) \<times> mock) option" where
  "mock_fetch wait req m =
     (let n = mk_counter m + 1; m = m\<lparr>mk_counter := n\<rparr> in
      case wait of
        Inr e \<Rightarrow> Some (Inl e, m)
      | Inl latency \<Rightarrow>
          if 0 < FailEvery m \<and> n mod FailEvery m = 0
          then Some (Inl (ErrorString (''mock fetcher: simulated failure for '' @ Query req)), m)
          else let i = sint (n - 1); len = int (length (fixtures m));
                   k = (if 0 \<le> i then i mod len else - (- i mod len))
               in if len = 0 \<or> k < 0 then None
                  else Some (Inr \<lparr>StatusCode = 200, Body = fixtures m ! nat k, Latency = latency,
                         ContentType = '''', FinalURL = ''''\<rparr>, m))"


subsection \<open>Search URLs\<close>

text \<open>The server's reading of a query string: pairs split at \<open>&\<close> and \<open>=\<close>, each part unescaped.\<close>

definition QueryUnescape :: "string \<Rightarrow> string option" where
  "QueryUnescape s = PathUnescape (map (\<lambda>c. if c = CHR ''+'' then CHR '' '' else c) s)"

definition decode_pair :: "string \<Rightarrow> string option \<times> string option" where
  "decode_pair p = (case Cut p CHR ''='' of
     Some (k, v) \<Rightarrow> (QueryUnescape k, QueryUnescape v) | None \<Rightarrow> (QueryUnescape p, Some ''''))"

definition decode_query :: "string \<Rightarrow> (string option \<times> string option) list" where
  "decode_query s = map decode_pair (Split s CHR ''&'')"

lemma byte_less [simp]: "byte c < 256"
  by (simp add: byte_def)

lemma byte_eq_iff: "byte c = byte d \<longleftrightarrow> c = d"
  by (simp add: byte_def)

lemma byte_upperhex: "n < 16 \<Longrightarrow> byte (upperhex n) = (if n < 10 then 48 + n else 55 + n)"
  by (simp add: upperhex_def)

lemma unhex_upperhex: "n < 16 \<Longrightarrow> unhex (upperhex n) = Some n"
  by (simp add: unhex_def byte_upperhex)

lemma escape_char_set:
  assumes "x \<in> set (escape_char c)"
  shows "unreserved x \<or> x = CHR ''+'' \<or> x = CHR ''%''"
proof -
  have "unreserved (upperhex n)" if "n < 16" for n using byte_upperhex [OF that] that by (auto simp: unreserved_def)
  then show ?thesis using assms by (auto simp: escape_char_def less_mult_imp_div_less split: if_splits)
qed

lemma QueryEscape_set: "x \<in> set (QueryEscape s) \<Longrightarrow> unreserved x \<or> x = CHR ''+'' \<or> x = CHR ''%''"
  using escape_char_set by (auto simp: QueryEscape_def)

lemma QueryEscape_free: "CHR ''&'' \<notin> set (QueryEscape s)" "CHR ''='' \<notin> set (QueryEscape s)"
  using QueryEscape_set by (force simp: unreserved_def byte_def)+

lemma QueryUnescape_escape: "QueryUnescape (QueryEscape s) = Some s"
proof (induction s)
  case Nil
  show ?case by (simp add: QueryUnescape_def QueryEscape_def)
next
  case (Cons c s)
  have "QueryUnescape (escape_char c @ t) = map_option (Cons c) (QueryUnescape t)" for t
  proof (cases "unreserved c \<or> c = CHR '' ''")
    case True
    then have "c \<noteq> CHR ''%''" "c \<noteq> CHR ''+''" by (auto simp: unreserved_def byte_def)
    then show ?thesis using True by (auto simp: escape_char_def QueryUnescape_def unreserved_def byte_def)
  next
    case False
    let ?h = "byte c div 16" and ?l = "byte c mod 16"
    have lt: "?h < 16" "?l < 16" by (simp_all add: less_mult_imp_div_less)
    have np: "upperhex n \<noteq> CHR ''+''" if "n < 16" for n
      using byte_upperhex [OF that] that by (auto simp: byte_eq_iff [symmetric] byte_def split: if_splits)
    have "char_of (16 * ?h + ?l) = c" by (simp add: byte_def)
    then show ?thesis
      using False lt by (simp add: escape_char_def QueryUnescape_def unhex_upperhex np)
  qed
  then show ?case using Cons by (simp add: QueryEscape_def)
qed

lemma decode_pair_encode: "decode_pair (QueryEscape k @ ''='' @ QueryEscape v) = (Some k, Some v)"
proof -
  have "Cut (QueryEscape k @ ''='' @ QueryEscape v) CHR ''='' = Some (QueryEscape k, QueryEscape v)"
    using QueryEscape_free(2) by (simp add: Cut_Some)
  then show ?thesis by (simp add: decode_pair_def QueryUnescape_escape)
qed

lemma Split_app: "c \<notin> set p \<Longrightarrow> Split (p @ c # s) c = p # Split s c"
  by (induction p) auto

lemma Split_single: "c \<notin> set p \<Longrightarrow> Split p c = [p]"
  by (induction p) auto

lemma Split_join: "ps \<noteq> [] \<Longrightarrow> \<forall>p\<in>set ps. c \<notin> set p \<Longrightarrow> Split (join ps [c]) c = ps"
proof (induction ps)
  case (Cons p ps)
  then show ?case by (cases ps) (simp_all add: Split_app Split_single)
qed simp

lemma decode_Encode:
  assumes "values_pairs kvs \<noteq> []"
  shows "decode_query (Encode kvs) = map (\<lambda>(k, v). (Some k, Some v)) (values_pairs kvs)"
proof -
  let ?ps = "map (\<lambda>(k, v). QueryEscape k @ ''='' @ QueryEscape v) (values_pairs kvs)"
  have "\<forall>p\<in>set ?ps. CHR ''&'' \<notin> set p" using QueryEscape_free(1) by auto
  then have "Split (Encode kvs) CHR ''&'' = ?ps" using assms Split_join [of ?ps] by (simp add: Encode_def)
  then show ?thesis using decode_pair_encode by (simp add: decode_query_def case_prod_unfold)
qed

text \<open>
  A search request reaches the server as it was asked: whatever bytes the query, the country
  and the language contain, the query string of the URL decodes to exactly these parameters.
\<close>

theorem search_url_roundtrip:
  assumes "req_URL req = ''''"
  shows "\<exists>qs. http_url f req = hf_Endpoint f @ ''?'' @ qs \<and>
    decode_query qs =
      (if Country req = '''' then [] else [(Some ''gl'', Some (Country req))]) @
      (if Language req = '''' then [] else [(Some ''hl'', Some (Language req))]) @ [(Some ''q'', Some (Query req))]"
proof -
  have "values_pairs (search_values req) =
      (if Country req = '''' then [] else [(''gl'', Country req)]) @
      (if Language req = '''' then [] else [(''hl'', Language req)]) @ [(''q'', Query req)]"
    by (simp add: values_pairs_def search_values_def Let_def less_char_def)
  then show ?thesis using assms decode_Encode [of "search_values req"] by (simp add: http_url_def)
qed


definition ask :: "string \<Rightarrow> request" where
  "ask q = \<lparr>Query = q, req_URL = '''', UserAgent = '''', ProxyURL = '''', Country = ''US'', Language = '''',
     Device = '''', WaitSelector = ''''\<rparr>"

definition google :: http_fetcher where
  "google = \<lparr>hf_Endpoint = ''http://g/s'', hf_Generic = False, DetectAppShells = False, OnConsentHandled = True\<rparr>"

theorem search_url_roundtrip_witness:
  "\<exists>qs. http_url google (ask ''a&q=b +%'') = ''http://g/s'' @ ''?'' @ qs \<and>
     decode_query qs = [(Some ''gl'', Some ''US''), (Some ''q'', Some ''a&q=b +%'')]"
  using search_url_roundtrip [of "ask ''a&q=b +%''" google] by (simp add: ask_def google_def)

subsection \<open>What a fetch reports\<close>

text \<open>How the status and the kind of the last page decide the outcome.\<close>

definition page_outcome :: "pageKind \<Rightarrow> int \<Rightarrow> outcome" where
  "page_outcome kind status =
     (if kind \<noteq> pageNormal then kind_outcome kind
      else if status = 429 then OutcomeRateLimited
      else if 500 \<le> status then OutcomeServerError
      else if 400 \<le> status then OutcomeClientError else OutcomeSuccess)"

definition final_kind :: "('d, 'w) http_api \<Rightarrow> http_fetcher \<Rightarrow> fetched \<Rightarrow> pageKind \<Rightarrow> pageKind" where
  "final_kind api f fd kind =
     (if kind = pageNormal \<and> isHTML (content_type fd) \<and> needsJS api f (fd_body fd) then pageInterstitial else kind)"

fun result_error :: "go_error + 'r \<Rightarrow> go_error option" where
  "result_error (Inl e) = Some e"
| "result_error (Inr r) = None"

lemma http_verdict_outcome:
  "Classify (result_error (http_verdict api f start w fd kind)) = page_outcome (final_kind api f fd kind) (fd_status fd)"
  by (cases "final_kind api f fd kind")
     (simp_all add: http_verdict_def final_kind_def [symmetric] Let_def blockedErrorFor_def block_reason_def
       page_outcome_def kind_outcome_def Classify_def Classify_error_def errors_As_def blocked_outcome_def)

lemma http_verdict_response:
  assumes "http_verdict api f start w fd kind = Inr resp"
  shows "StatusCode resp = fd_status fd" "Body resp = fd_body fd" "ContentType resp = content_type fd"
    "FinalURL resp = ha_String api (fd_url fd)" "fd_status fd < 400" "final_kind api f fd kind = pageNormal"
  using assms by (auto simp: http_verdict_def final_kind_def [symmetric] Let_def blockedErrorFor_def block_reason_def
      split: pageKind.splits if_splits option.splits)

text \<open>The requests a fetch can send, and what it did with the last answer.\<close>

definition body_limit :: "('d, 'w) http_api \<Rightarrow> bool" where
  "body_limit api \<longleftrightarrow> (\<forall>p r w rs w' n b. ha_Do api p r w = (Inr rs, w') \<longrightarrow> hs_ReadAll rs n = Inr b \<longrightarrow> length b \<le> n)"

lemma http_do_limit:
  assumes "body_limit api" "http_do api p r st = (Inr fd, st')"
  shows "length (fd_body fd) \<le> maxBodyBytes"
proof -
  obtain res w where d: "ha_Do api p r (h_world st) = (res, w)" by force
  with assms(2) obtain rs b where "res = Inr rs" "hs_ReadAll rs maxBodyBytes = Inr b" "fd_body fd = b"
    by (auto simp: http_do_def Let_def split: sum.splits)
  with assms(1) d show ?thesis unfolding body_limit_def by blast
qed

lemma http_fetch_Inr:
  assumes "http_fetch api f req st = (Inr resp, st')"
  obtains p r st1 fd st2 start w kind where "http_do api p r st1 = (Inr fd, st2)"
    "http_verdict api f start w fd kind = Inr resp" "isHTML (content_type fd) \<Longrightarrow> kind = fetched_kind api f fd"
proof -
  obtain e st0 where t: "transportFor api (ProxyURL req) st = (e, st0)" by force
  let ?r = "\<lparr>hr_Method = ''GET'', hr_URL = http_url f req, hr_Header = http_headers (UserAgent req), hr_Body = ''''\<rparr>"
  obtain res1 st1 where d1: "http_do api (ProxyURL req) ?r st0 = (res1, st1)" by force
  from assms t d1 have ok: "e = None" "ha_NewRequest api ''GET'' (http_url f req) = None" "\<not> isl res1"
    by (auto simp: http_fetch_def Let_def split: option.splits sum.splits)
  then obtain fd where fd: "res1 = Inr fd" by (cases res1) auto
  let ?kind = "if isHTML (content_type fd) then fetched_kind api f fd else pageNormal"
  show thesis
  proof (cases "?kind = pageConsent")
    case False
    then have "http_verdict api f (ha_Now api (h_world st0)) (h_world st1) fd ?kind = Inr resp"
      using assms t d1 ok fd by (auto simp: http_fetch_def Let_def)
    then show thesis using that [OF d1 [unfolded fd]] by simp
  next
    case True
    then obtain r where rc: "rejectConsentRequest api (fd_url fd) (fd_body fd) (UserAgent req) = Inr (Some r)"
      using assms t d1 ok fd by (auto simp: http_fetch_def Let_def split: sum.splits option.splits)
    obtain res2 st2 where d2: "http_do api (ProxyURL req) r st1 = (res2, st2)" by force
    with True rc assms t d1 ok fd obtain fd2 where fd2: "res2 = Inr fd2"
      by (auto simp: http_fetch_def Let_def split: sum.splits)
    with True rc assms t d1 ok fd d2 obtain start w where
      "http_verdict api f start w fd2 (fetched_kind api f fd2) = Inr resp"
      by (auto simp: http_fetch_def Let_def)
    then show thesis using that [OF d2 [unfolded fd2]] by simp
  qed
qed

text \<open>
  C16. What the HTTP fetcher passes on as a page is one: its status is below 400, its body at most
  5 MiB, and an HTML page is neither a block page of the kinds the fetcher knows nor one that
  needs JavaScript, with the consent step included.
\<close>

theorem http_fetch_success:
  assumes "http_fetch api f req st = (Inr resp, st')" "body_limit api"
  shows "StatusCode resp < 400 \<and> length (Body resp) \<le> maxBodyBytes \<and>
    (isHTML (ContentType resp) \<longrightarrow>
       http_classify api f (FinalURL resp) (StatusCode resp) (Body resp) = pageNormal \<and> \<not> needsJS api f (Body resp))"
  using assms(1)
proof (cases rule: http_fetch_Inr)
  case (1 p r st1 fd st2 start w kind)
  note v = http_verdict_response [OF 1(2)]
  then show ?thesis
    using http_do_limit [OF assms(2) 1(1)] 1(3)
    by (auto simp: final_kind_def fetched_kind_def split: if_splits)
qed


text \<open>A scripted client for the witnesses: the world is the list of answers, given in order.\<close>

definition text_page :: "int \<Rightarrow> string \<Rightarrow> http_response" where
  "text_page status body = \<lparr>hs_Status = status, hs_URL = \<lparr>Scheme = ''http'', Host = ''g'', Path = ''/s'', RawQuery = '''',
     Fragment = '''', RawFragment = '''', u_Other = ''''\<rparr>, hs_Header = (\<lambda>h. if h = ''Content-Type'' then ''text/html'' else ''''),
     hs_ReadAll = (\<lambda>n. Inr (take n body))\<rparr>"

definition plain_page_api :: "string page_api" where
  "plain_page_api = \<lparr>pa_Parse = (\<lambda>s. None), pa_Hostname = Host, pa_Document = Some,
     pa_Find = (\<lambda>d sel. if Contains d ''captcha'' \<and> sel = captcha_selector then 1 else 0), pa_Title = (\<lambda>d. ''''),
     pa_ScriptTypes = (\<lambda>d. []), pa_BodyText = id\<rparr>"

definition scripted_http :: "(string, (int \<times> string) list) http_api" where
  "scripted_http = \<lparr>ha_Page = plain_page_api,
     ha_Do = (\<lambda>p r w. case w of [] \<Rightarrow> (Inl (NetError False None), []) | (status, b) # xs \<Rightarrow> (Inr (text_page status b), xs)),
     ha_NewRequest = (\<lambda>m u. None), ha_ParseRef = (\<lambda>u s. None), ha_String = Path, ha_RejectForm = (\<lambda>d. None),
     ha_ParseTime = (\<lambda>s. None), ha_Now = (\<lambda>w. 0)\<rparr>"

lemma scripted_http_limit: "body_limit scripted_http"
  by (auto simp: body_limit_def scripted_http_def text_page_def split: list.splits)

definition scripted_fetch :: "(int \<times> string) list \<Rightarrow> go_error + response" where
  "scripted_fetch w = fst (http_fetch scripted_http google (ask ''x'') \<lparr>transports = [], consents = 0, h_world = w\<rparr>)"

lemmas scripted_defs = scripted_fetch_def http_fetch_def transportFor_def scripted_http_def http_do_def text_page_def
  fetched_kind_def http_classify_def classifyPage_def plain_page_api_def needsJS_def requiresJS_def google_def ask_def
  http_verdict_def content_type_def isHTML_def blockedErrorFor_def block_reason_def maxBodyBytes_def
  Classify_def Classify_error_def errors_As_def errors_Is_def blocked_outcome_def parseRetryAfter_def
  ToLower_def lower_char_def byte_def HasPrefix_def prefix_ci_def noscript_at_def noscript_blocks.simps

lemma scripted_fetch_evals:
  "scripted_fetch [(200, ''hello'')] = Inr \<lparr>StatusCode = 200, Body = ''hello'', Latency = 0, ContentType = ''text/html'', FinalURL = ''/s''\<rparr>"
  "Classify (result_error (scripted_fetch [(200, ''a captcha'')])) = OutcomeCaptcha"
  "Classify (result_error (scripted_fetch [(429, ''slow'')])) = OutcomeRateLimited"
  "Classify (result_error (scripted_fetch [(503, ''oops'')])) = OutcomeServerError"
  "Classify (result_error (scripted_fetch [])) = OutcomeTransport"
  by (simp_all add: scripted_defs)

theorem http_fetch_success_witness:
  "\<exists>resp st'. http_fetch scripted_http google (ask ''x'') \<lparr>transports = [], consents = 0, h_world = [(200, ''hello'')]\<rparr> = (Inr resp, st') \<and>
     Body resp = ''hello'' \<and> StatusCode resp < 400"
proof -
  let ?st = "\<lparr>transports = [], consents = 0, h_world = [(200, ''hello'')]\<rparr>"
  obtain resp st' where r: "http_fetch scripted_http google (ask ''x'') ?st = (Inr resp, st')" "Body resp = ''hello''"
    using scripted_fetch_evals(1) by (cases "http_fetch scripted_http google (ask ''x'') ?st") (auto simp: scripted_fetch_def)
  from http_fetch_success [OF r(1) scripted_http_limit] r show ?thesis by blast
qed

text \<open>A status between 300 and 399 that was not a redirect is passed on as a page.\<close>

lemma not_modified_is_success: "scripted_fetch [(304, '''')] =
    Inr \<lparr>StatusCode = 304, Body = '''', Latency = 0, ContentType = ''text/html'', FinalURL = ''/s''\<rparr>"
  by (simp add: scripted_defs)

text \<open>
  A 429 whose page is a known block page is reported as the block, without its \<open>Retry-After\<close>.
\<close>

lemma blocked_429: "Classify (result_error (scripted_fetch [(429, ''a captcha'')])) = OutcomeCaptcha"
  by (simp add: scripted_defs)

end
