(* ===== verification/Serp_Parse.thy ===== *)
theory Serp_Parse
  imports Http_Fetch Extract "HOL-Library.AList"
begin

text \<open>
  From a response to a search result: the HTML parser (\<open>internal/parser/parser.go\<close>), the parser of
  a provider's JSON (\<open>json_provider.go\<close>), and the fetcher of that JSON with its follow-up request
  (\<open>internal/fetcher/provider.go\<close>). The HTML engine is the parameter \<open>dom_api\<close>; \<open>encoding/json\<close>
  is the record \<open>json_api\<close>, one field per type the sources decode into or encode from.
\<close>

subsection \<open>The HTML parser\<close>

definition serp_calibration :: "organic_result list \<Rightarrow> calibration_note option" where
  "serp_calibration organic =
     (let missing = (if organic = [] then [''organic_results''] else [])
      in if missing \<noteq> [] then Some \<lparr>MissingBlocks = missing, RawHTMLPath = ''''\<rparr> else None)"

definition empty_serp :: "string \<Rightarrow> serp_result" where
  "empty_serp query = \<lparr>sr_Query = query, sr_RunID = '''', sr_Locale = '''', sr_Device = '''', sr_FetchedAt = 0,
     sr_LatencyMS = 0, sr_ProxyUsed = '''', AIOverview = None, FeaturedSnippet = None, PeopleAlsoAsk = [],
     Organic = [], Calibration = None, sr_RawBody = ''''\<rparr>"

text \<open>\<open>Text()\<close> of a selection is the text of all its elements; \<open>Attr\<close> reads the first.\<close>

definition sel_find :: "'n dom_api \<Rightarrow> 'n list \<Rightarrow> string \<Rightarrow> 'n list" where
  "sel_find api ns sel = remdups (concat (map (\<lambda>n. d_Find api n sel) ns))"

definition sel_text :: "'n dom_api \<Rightarrow> 'n list \<Rightarrow> string" where
  "sel_text api ns = concat (map (d_Text api) ns)"

definition ai_block :: "'n dom_api \<Rightarrow> 'n \<Rightarrow> ai_overview option" where
  "ai_block api doc =
     (let ov = d_Find api doc ''.serp-ai-overview'' in
      if ov = [] then None
      else Some \<lparr>ai_Text = TrimSpace (sel_text api (sel_find api ov ''.ai-overview-text'')),
             Sources = List.map_filter (\<lambda>s. case d_Attr api s ''href'' of
               Some href \<Rightarrow> if href \<noteq> '''' then Some href else None | None \<Rightarrow> None)
               (sel_find api ov ''.ai-overview-sources a'')\<rparr>)"

definition snippet_block :: "'n dom_api \<Rightarrow> 'n \<Rightarrow> featured_snippet option" where
  "snippet_block api doc =
     (let fs = d_Find api doc ''.serp-featured-snippet'' in
      if fs = [] then None
      else Some \<lparr>fs_Title = TrimSpace (sel_text api (sel_find api fs ''.fs-title'')),
             fs_URL = AttrOr (first_attr api (sel_find api fs ''.fs-link'') ''href'') '''',
             fs_Text = TrimSpace (sel_text api (sel_find api fs ''.fs-text''))\<rparr>)"

definition paa_block :: "'n dom_api \<Rightarrow> 'n \<Rightarrow> string list" where
  "paa_block api doc = filter (\<lambda>q. q \<noteq> '''') (map (\<lambda>s. TrimSpace (d_Text api s)) (d_Find api doc ''.paa-question''))"

definition organic_block :: "'n dom_api \<Rightarrow> 'n \<Rightarrow> organic_result list" where
  "organic_block api doc = map (\<lambda>(i, s).
       \<lparr>Position = int i + 1, or_Title = TrimSpace (sel_text api (d_Find api s ''.organic-title'')),
        or_URL = AttrOr (first_attr api (d_Find api s ''.organic-link'') ''href'') '''',
        Snippet = TrimSpace (sel_text api (d_Find api s ''.organic-snippet''))\<rparr>)
     (enumerate 0 (d_Find api doc ''.organic-result''))"

definition html_Parse :: "'n dom_api \<Rightarrow> string \<Rightarrow> string \<Rightarrow> go_error + serp_result" where
  "html_Parse api query html = (case d_Document api html of
       None \<Rightarrow> Inl (ErrorString ''parser: parse html'')
     | Some doc \<Rightarrow>
         Inr ((empty_serp query)\<lparr>AIOverview := ai_block api doc, FeaturedSnippet := snippet_block api doc,
           PeopleAlsoAsk := paa_block api doc, Organic := organic_block api doc,
           Calibration := serp_calibration (organic_block api doc)\<rparr>))"

subsection \<open>The JSON parser\<close>

record provider_organic =
  po_Position :: int
  po_Title :: string
  po_Link :: string
  po_Snippet :: string

record provider_box =
  pb_Title :: string
  pb_Link :: string
  pb_Snippet :: string

record provider_overview =
  pv_TextBlocks :: "(string \<times> string) list"
  pv_References :: "string list"
  pv_Error :: string

record providerResponse =
  OrganicResults :: "provider_organic list"
  RelatedQuestions :: "string list"
  AnswerBox :: "provider_box option"
  pr_AIOverview :: "provider_overview option"

record json_api =
  js_Provider :: "string \<Rightarrow> providerResponse option"
  js_Object :: "string \<Rightarrow> (string \<times> string) list option"
  js_Stub :: "string \<Rightarrow> (string \<times> nat) option"
  js_Wrapper :: "string \<Rightarrow> string option"
  js_Marshal :: "(string \<times> string) list \<Rightarrow> string option"

fun ai_text :: "(string \<times> string) list \<Rightarrow> string \<Rightarrow> string" where
  "ai_text [] text = text"
| "ai_text ((ty, snippet) # bs) text =
     (if snippet = '''' then ai_text bs text
      else ai_text bs ((if text \<noteq> '''' then text @ [CHR 0x0A, CHR 0x0A] else text) @ snippet))"

definition provider_ai :: "provider_overview option \<Rightarrow> ai_overview option" where
  "provider_ai ov = (case ov of
       None \<Rightarrow> None
     | Some v \<Rightarrow>
         if pv_Error v \<noteq> '''' then None
         else (let text = ai_text (pv_TextBlocks v) '''';
                   sources = filter (\<lambda>l. l \<noteq> '''') (pv_References v)
               in if text \<noteq> '''' \<or> sources \<noteq> [] then Some \<lparr>ai_Text = text, Sources = sources\<rparr> else None))"

definition json_Parse :: "json_api \<Rightarrow> string \<Rightarrow> string \<Rightarrow> go_error + serp_result" where
  "json_Parse js query body = (case js_Provider js body of
       None \<Rightarrow> Inl (Wrapped ''json parser: decode provider response'' (ErrorString ''json''))
     | Some raw \<Rightarrow>
         (let organic = map (\<lambda>r. \<lparr>Position = po_Position r, or_Title = po_Title r, or_URL = po_Link r,
                Snippet = po_Snippet r\<rparr>) (OrganicResults raw)
          in Inr ((empty_serp query)\<lparr>PeopleAlsoAsk := filter (\<lambda>q. q \<noteq> '''') (RelatedQuestions raw),
               FeaturedSnippet := map_option (\<lambda>b. \<lparr>fs_Title = pb_Title b, fs_URL = pb_Link b, fs_Text = pb_Snippet b\<rparr>)
                 (AnswerBox raw),
               AIOverview := provider_ai (pr_AIOverview raw), Organic := organic,
               Calibration := serp_calibration organic\<rparr>)))"

subsection \<open>The provider fetcher\<close>

record provider =
  BaseURL :: string
  APIKey :: string
  Engine :: string

definition NewProviderFetcher :: "string \<Rightarrow> string \<Rightarrow> string \<Rightarrow> provider" where
  "NewProviderFetcher baseURL apiKey engine =
     \<lparr>BaseURL = baseURL, APIKey = apiKey, Engine = (if engine = '''' then ''google'' else engine)\<rparr>"

definition doGet :: "('d, 'w) http_api \<Rightarrow> provider \<Rightarrow> string \<Rightarrow> form_values \<Rightarrow> 'w \<Rightarrow>
    (go_error + string \<times> int \<times> (string \<Rightarrow> string)) \<times> 'w" where
  "doGet api f proxyURL params w =
     (if proxyURL \<noteq> '''' \<and> pa_Parse (ha_Page api) proxyURL = None
      then (Inl (Wrapped ''invalid proxy url'' (ErrorString ''parse'')), w)
      else let params = (if APIKey f \<noteq> '''' then values_Set ''api_key'' (APIKey f) params else params);
               u = BaseURL f @ ''?'' @ Encode params
           in case ha_NewRequest api ''GET'' u of
                Some e \<Rightarrow> (Inl (Wrapped ''build request'' e), w)
              | None \<Rightarrow>
                  (case ha_Do api proxyURL \<lparr>hr_Method = ''GET'', hr_URL = u,
                          hr_Header = [(''Accept'', ''application/json'')], hr_Body = ''''\<rparr> w of
                     (Inl e, w) \<Rightarrow> (Inl e, w)
                   | (Inr rs, w) \<Rightarrow>
                       (case hs_ReadAll rs (5 * 1024 * 1024) of
                          Inl e \<Rightarrow> (Inl (Wrapped ''read body'' e), w)
                        | Inr body \<Rightarrow> (Inr (body, hs_Status rs, hs_Header rs), w))))"

definition fetchAIOverviewPage :: "('d, 'w) http_api \<Rightarrow> json_api \<Rightarrow> provider \<Rightarrow> string \<Rightarrow> string \<Rightarrow> 'w \<Rightarrow>
    (go_error + string) \<times> 'w" where
  "fetchAIOverviewPage api js f proxyURL pageToken w =
     (case doGet api f proxyURL (values_Set ''page_token'' pageToken (values_Set ''engine'' ''google_ai_overview'' [])) w of
        (Inl e, w) \<Rightarrow> (Inl (Wrapped ''ai_overview follow-up request failed'' e), w)
      | (Inr (body, status, hdr), w) \<Rightarrow>
          if status \<noteq> 200 then (Inl (ErrorString ''ai_overview follow-up status''), w)
          else (Inr (case js_Wrapper js body of Some inner \<Rightarrow> if inner \<noteq> '''' then inner else body | None \<Rightarrow> body), w))"

definition resolveAIOverview :: "('d, 'w) http_api \<Rightarrow> json_api \<Rightarrow> provider \<Rightarrow> string \<Rightarrow> string \<Rightarrow> 'w \<Rightarrow> string \<times> 'w" where
  "resolveAIOverview api js f proxyURL body w =
     (case js_Object js body of
        None \<Rightarrow> (body, w)
      | Some mem \<Rightarrow>
          (case map_of mem ''ai_overview'' of
             None \<Rightarrow> (body, w)
           | Some raw \<Rightarrow>
               (case js_Stub js raw of
                  None \<Rightarrow> (body, w)
                | Some (token, blocks) \<Rightarrow>
                    if token = '''' \<or> 0 < blocks then (body, w)
                    else (case fetchAIOverviewPage api js f proxyURL token w of
                        (Inl e, w) \<Rightarrow> (body, w)
                      | (Inr resolved, w) \<Rightarrow>
                          (case js_Marshal js (AList.update ''ai_overview'' resolved mem) of
                             None \<Rightarrow> (body, w)
                           | Some merged \<Rightarrow> (merged, w))))))"

definition provider_values :: "provider \<Rightarrow> request \<Rightarrow> form_values" where
  "provider_values f req =
     (let q = values_Set ''q'' (Query req) (values_Set ''engine'' (Engine f) []);
          q = (if Country req \<noteq> '''' then values_Set ''gl'' (Country req) q else q);
          q = (if Language req \<noteq> '''' then values_Set ''hl'' (Language req) q else q)
      in if Device req \<noteq> '''' then values_Set ''device'' (Device req) q else q)"

definition provider_fetch :: "('d, 'w) http_api \<Rightarrow> json_api \<Rightarrow> provider \<Rightarrow> request \<Rightarrow> 'w \<Rightarrow> (go_error + response) \<times> 'w" where
  "provider_fetch api js f req w =
     (let start = ha_Now api w in
      case doGet api f (ProxyURL req) (provider_values f req) w of
        (Inl e, w) \<Rightarrow> (Inl (Wrapped ''provider fetcher: request failed'' e), w)
      | (Inr (body, status, hdr), w) \<Rightarrow>
          if status = 429 then
            (Inl (RateLimitError \<lparr>rl_StatusCode = status,
               RetryAfter = fst (parseRetryAfter (ha_ParseTime api) (ha_Now api w) (hdr ''Retry-After'')), rl_Body = body\<rparr>), w)
          else if status \<noteq> 200 then (Inl (ErrorString ''provider fetcher: unexpected status''), w)
          else (let (body, w) = resolveAIOverview api js f (ProxyURL req) body w
                in (Inr \<lparr>StatusCode = status, Body = body, Latency = ha_Now api w - start, ContentType = '''',
                      FinalURL = ''''\<rparr>, w)))"


subsection \<open>Parsed results\<close>

lemma html_Parse_flags:
  "html_Parse api query html = Inr r \<Longrightarrow> (Calibration r \<noteq> None \<longleftrightarrow> Organic r = []) \<and> sr_Query r = query"
  by (auto simp: html_Parse_def serp_calibration_def empty_serp_def Let_def split: option.splits if_splits)

text \<open>
  A parsed page is never an empty success: whichever parser produced the result, it carries a
  calibration note exactly when there are no organic results, its query is the job's, no question
  is empty, and the HTML parser numbers the organic results from 1 in page order.
\<close>

theorem parsers_flag_drift:
  "(html_Parse api query html = Inr r \<longrightarrow> (Calibration r \<noteq> None \<longleftrightarrow> Organic r = []) \<and> sr_Query r = query \<and>
      '''' \<notin> set (PeopleAlsoAsk r) \<and> map Position (Organic r) = [1..int (length (Organic r))]) \<and>
   (json_Parse js query body = Inr r' \<longrightarrow> (Calibration r' \<noteq> None \<longleftrightarrow> Organic r' = []) \<and> sr_Query r' = query \<and>
      '''' \<notin> set (PeopleAlsoAsk r'))"
proof -
  have pos: "map Position (organic_block api doc) = [1..int (length (organic_block api doc))]" for doc
    by (rule nth_equalityI) (simp_all add: organic_block_def nth_enumerate_eq case_prod_unfold)
  have "map Position (Organic r) = [1..int (length (Organic r))]" if "html_Parse api query html = Inr r"
    using that pos by (auto simp: html_Parse_def split: option.splits)
  then show ?thesis
    by (auto simp: html_Parse_def json_Parse_def serp_calibration_def paa_block_def empty_serp_def Let_def
        split: option.splits)
qed

lemma ai_text_acc:
  "ai_text bs acc = (if acc = '''' then ai_text bs ''''
     else join (acc # filter (\<lambda>s. s \<noteq> '''') (map snd bs)) [CHR 0x0A, CHR 0x0A])"
proof (induction bs arbitrary: acc)
  case (Cons b bs)
  obtain ty sn where b: "b = (ty, sn)" by (metis surj_pair)
  show ?case
  proof (cases "sn = []")
    case True
    then show ?thesis using Cons [of acc] by (simp add: b)
  next
    case False
    then show ?thesis
      using Cons [of "acc @ [CHR 0x0A, CHR 0x0A] @ sn"] Cons [of sn]
      by (cases "filter (\<lambda>s. s \<noteq> []) (map snd bs)") (auto simp: b)
  qed
qed simp

text \<open>The accumulating loop is the join of the non-empty blocks with blank lines.\<close>

lemma ai_text_join: "ai_text bs '''' = join (filter (\<lambda>s. s \<noteq> '''') (map snd bs)) [CHR 0x0A, CHR 0x0A]"
proof (induction bs)
  case (Cons b bs)
  then show ?case using ai_text_acc [of bs "snd b"] by (cases b) auto
qed simp

subsection \<open>The follow-up request\<close>

text \<open>
  What the fetcher relies on of \<open>encoding/json\<close>: an object that was encoded decodes to the same
  members.
\<close>

definition json_laws :: "json_api \<Rightarrow> bool" where
  "json_laws js \<longleftrightarrow> (\<forall>mem s. js_Marshal js mem = Some s \<longrightarrow> js_Object js s = Some mem)"

lemma resolve_keeps:
  assumes "json_laws js" "resolveAIOverview api js f p body w = (body', w')" "js_Object js body = Some mem"
  shows "\<exists>om'. js_Object js body' = Some om' \<and> (\<forall>k. k \<noteq> ''ai_overview'' \<longrightarrow> map_of om' k = map_of mem k)"
  using assms
  by (auto simp: resolveAIOverview_def json_laws_def update_conv' split: option.splits if_splits prod.splits sum.splits)

lemma resolve_raw:
  "resolveAIOverview api js f p body w = (body', w') \<Longrightarrow> js_Object js body = None \<Longrightarrow> body' = body"
  by (simp add: resolveAIOverview_def)



text \<open>
  Documents for the witnesses: a list of elements of one class each, and JSON objects written as
  lines of a key and a value.
\<close>

definition rows_api :: "string list dom_api" where
  "rows_api = \<lparr>d_Document = (\<lambda>h. Some (Split h CHR '','')),
     d_Find = (\<lambda>n sel. if sel = ''.organic-result'' then map (\<lambda>x. [x]) (filter (\<lambda>x. x \<noteq> '''') n)
        else if sel = ''.organic-title'' then [n] else []),
     d_Text = concat, d_Html = (\<lambda>n. None), d_Attr = (\<lambda>n a. None), d_Level = (\<lambda>n. 1), d_BodyText = concat,
     d_ValidSelector = (\<lambda>s. True), d_ValidJSON = (\<lambda>s. False), d_ParseURL = (\<lambda>s. None), d_ParseRef = (\<lambda>u s. None),
     d_String = Path\<rparr>"

definition toy_json :: json_api where
  "toy_json = \<lparr>js_Provider = (\<lambda>s. Some \<lparr>OrganicResults = [], RelatedQuestions = [''why'', ''''], AnswerBox = None,
       pr_AIOverview = Some \<lparr>pv_TextBlocks = [(''p'', ''a''), (''p'', ''''), (''p'', ''b'')], pv_References = [], pv_Error = ''''\<rparr>\<rparr>),
     js_Object = (\<lambda>s. if HasPrefix s ''#'' then Some [(''organic'', ''r''), (''ai_overview'', tl s)] else None),
     js_Stub = (\<lambda>s. if s = ''stub'' then Some (''tok'', 0) else None), js_Wrapper = (\<lambda>s. None),
     js_Marshal = (\<lambda>m. case m of [(k, v), (k', v')] \<Rightarrow> if k = ''organic'' \<and> v = ''r'' \<and> k' = ''ai_overview''
        then Some (CHR ''#'' # v') else None | _ \<Rightarrow> None)\<rparr>"

theorem parsers_flag_drift_witness:
  "(\<exists>r. html_Parse rows_api ''q'' ''x, y,z'' = Inr r \<and> Calibration r = None \<and> map Position (Organic r) = [1, 2, 3]) \<and>
   (\<exists>r. json_Parse toy_json ''q'' '''' = Inr r \<and> Calibration r \<noteq> None)"
proof -
  obtain r where r: "html_Parse rows_api ''q'' ''x, y,z'' = Inr r" by (simp add: html_Parse_def rows_api_def)
  obtain r' where r': "json_Parse toy_json ''q'' '''' = Inr r'" by (simp add: json_Parse_def toy_json_def Let_def)
  have "length (Organic r) = 3"
    using r by (auto simp: html_Parse_def rows_api_def organic_block_def)
  moreover have "Organic r' = []" using r' by (auto simp: json_Parse_def toy_json_def Let_def)
  moreover from parsers_flag_drift [of rows_api "''q''" "''x, y,z''" r toy_json "''''" r'] r r'
  have "Calibration r \<noteq> None \<longleftrightarrow> Organic r = []" "map Position (Organic r) = [1..int (length (Organic r))]"
    "Calibration r' \<noteq> None \<longleftrightarrow> Organic r' = []" by blast+
  moreover have "[1..3] = [1, 2, 3 :: int]" by (simp add: upto.simps)
  ultimately show ?thesis using r r' by auto
qed

lemma toy_json_laws: "json_laws toy_json"
  by (auto simp: json_laws_def toy_json_def HasPrefix_def split: list.splits if_splits)

definition acme :: provider where
  "acme = NewProviderFetcher ''http://p'' ''k'' ''''"


end
