(* ===== verification/Browser_Pool.thy ===== *)
theory Browser_Pool
  imports Http_Fetch Harvest_Metrics "HOL-Library.Multiset"
begin

text \<open>
  The headless browser fetcher, \<open>internal/fetcher/playwright.go\<close>: the bounded pool of browser
  sessions shared by concurrent fetches, launching with backoff, closing, and the rendering of one
  page. Chromium and Playwright are outside: whether a launch, a new session or a navigation
  succeeds is an argument of the step that asks for it, and a browser that disconnects or a page
  that crashes is a step of its own.

  A browser is the number of its launch; a session is its index in \<open>bp_sessions\<close>. Each step of the
  transition system is one critical section or one operation of a fetch outside of it, so that
  every interleaving of the source is one of the model.
\<close>

subsection \<open>Configuration\<close>

record playwright_config =
  pc_Endpoint :: string
  pc_Timeout :: duration
  PoolSize :: int
  MaxSessionUses :: int
  pc_WaitSelector :: string
  pc_Generic :: bool

definition NewPlaywrightConfig :: "playwright_config \<Rightarrow> go_error + playwright_config" where
  "NewPlaywrightConfig cfg =
     (if pc_Endpoint cfg = '''' \<and> \<not> pc_Generic cfg
      then Inl (ErrorString ''playwright fetcher: endpoint is required (or Generic, for URL fetches)'')
      else Inr (cfg\<lparr>pc_Timeout := (if pc_Timeout cfg \<le> 0 then 30 * Second else pc_Timeout cfg),
             PoolSize := (if PoolSize cfg \<le> 0 then 4 else PoolSize cfg),
             MaxSessionUses := (if MaxSessionUses cfg \<le> 0 then 50 else MaxSessionUses cfg)\<rparr>))"

definition ErrFetcherClosed :: go_error where
  "ErrFetcherClosed = ErrorString ''playwright fetcher: closed''"

definition ErrBrowserUnavailable :: go_error where
  "ErrBrowserUnavailable = ErrorString ''playwright fetcher: browser unavailable (launch backoff)''"

definition maxLaunchBackoff :: duration where
  "maxLaunchBackoff = 30 * Second"

subsection \<open>Profiles\<close>

definition upper_char :: "char \<Rightarrow> char" where
  "upper_char c = (if 97 \<le> byte c \<and> byte c \<le> 122 then char_of (byte c - 32) else c)"

definition localeTag :: "string \<Rightarrow> string \<Rightarrow> string" where
  "localeTag language country =
     (if language = '''' then '''' else if country = '''' then language
      else language @ ''-'' @ map upper_char country)"

record deviceProfile =
  dp_name :: string
  dp_width :: int
  dp_height :: int
  dp_scale :: rat
  dp_mobile :: bool
  dp_touch :: bool

definition deviceProfileFor :: "string \<Rightarrow> deviceProfile" where
  "deviceProfileFor device =
     (if ToLower device = ''mobile''
      then \<lparr>dp_name = ''mobile'', dp_width = 412, dp_height = 915, dp_scale = 2625 / 1000, dp_mobile = True, dp_touch = True\<rparr>
      else if ToLower device = ''tablet''
      then \<lparr>dp_name = ''tablet'', dp_width = 820, dp_height = 1180, dp_scale = 2, dp_mobile = True, dp_touch = True\<rparr>
      else \<lparr>dp_name = ''desktop'', dp_width = 1366, dp_height = 768, dp_scale = 1, dp_mobile = False, dp_touch = False\<rparr>)"

definition sessionKey :: "request \<Rightarrow> string" where
  "sessionKey req = join [ProxyURL req, UserAgent req, localeTag (Language req) (Country req),
     dp_name (deviceProfileFor (Device req))] [CHR 0x00]"

subsection \<open>The pool\<close>

record browser_session =
  ses_key :: string
  ses_browser :: nat
  ses_uses :: int
  ses_crashed :: bool
  ses_closed :: bool

record browser_pool =
  bp_slots :: nat
  bp_browser :: "nat option"
  bp_alive :: "nat list"
  bp_idle :: "nat list"
  bp_open :: int
  bp_closed :: bool
  launchFailures :: int
  nextLaunch :: instant
  lastLaunchErr :: "go_error option"
  bp_met :: browser
  bp_sessions :: "browser_session list"
  bp_launched :: nat

definition IsConnected :: "browser_pool \<Rightarrow> nat \<Rightarrow> bool" where
  "IsConnected st b \<longleftrightarrow> b \<in> set (bp_alive st)"

definition launch_backoff :: "int \<Rightarrow> duration" where
  "launch_backoff failures =
     (let backoff = Second * 2 ^ nat (min (failures - 1) 5)
      in if maxLaunchBackoff < backoff then maxLaunchBackoff else backoff)"

text \<open>Idle sessions of the browser \<open>b\<close>, which is gone, are dropped.\<close>

definition drop_dead :: "nat \<Rightarrow> browser_pool \<Rightarrow> browser_pool" where
  "drop_dead b st =
     (let dead = filter (\<lambda>s. ses_browser (bp_sessions st ! s) = b) (bp_idle st)
      in st\<lparr>bp_idle := filter (\<lambda>s. ses_browser (bp_sessions st ! s) \<noteq> b) (bp_idle st),
            bp_open := bp_open st - int (length dead),
            bp_met := AddSessionsOpen (- of_nat (length dead)) (bp_met st)\<rparr>)"

definition browserLocked :: "(nat \<Rightarrow> instant) \<Rightarrow> go_error option \<Rightarrow> browser_pool \<Rightarrow> (go_error + nat) \<times> browser_pool" where
  "browserLocked now launchErr st =
     (if bp_browser st \<noteq> None \<and> IsConnected st (the (bp_browser st)) then (Inr (the (bp_browser st)), st)
      else if bp_closed st then (Inl ErrFetcherClosed, st)
      else if now 0 < nextLaunch st then (Inl (Wrapped ''last launch error'' ErrBrowserUnavailable), st)
      else let st = (case bp_browser st of None \<Rightarrow> st | Some b \<Rightarrow> drop_dead b st) in
        case launchErr of
          Some e \<Rightarrow>
            (let failures = launchFailures st + 1
             in (Inl (Wrapped ''playwright fetcher: launch chromium'' e),
                 st\<lparr>launchFailures := failures, nextLaunch := now 1 + launch_backoff failures,
                    lastLaunchErr := Some e, bp_met := IncLaunchFailures (bp_met st)\<rparr>))
        | None \<Rightarrow>
            (let b = bp_launched st
             in (Inr b, st\<lparr>launchFailures := 0, nextLaunch := 0, lastLaunchErr := None, bp_browser := Some b,
                   bp_alive := bp_alive st @ [b], bp_launched := b + 1, bp_met := IncLaunches (bp_met st)\<rparr>)))"

fun scan_idle :: "browser_session list \<Rightarrow> string \<Rightarrow> nat \<Rightarrow> nat list \<Rightarrow> nat list \<times> nat option \<times> nat list \<Rightarrow>
    nat list \<times> nat option \<times> nat list" where
  "scan_idle ses key b [] acc = acc"
| "scan_idle ses key b (s # idle) (stale, reuse, kept) =
     scan_idle ses key b idle
       (if ses_crashed (ses ! s) \<or> ses_closed (ses ! s) then (stale @ [s], reuse, kept)
        else if reuse = None \<and> ses_key (ses ! s) = key \<and> ses_browser (ses ! s) = b then (stale, Some s, kept)
        else (stale, reuse, kept @ [s]))"

text \<open>
  The locked section of \<open>acquire\<close>: the sessions to close and either the session to reuse or the
  browser to open one in.
\<close>

datatype grant = Reuse nat | Reserve nat

definition acquire_locked :: "playwright_config \<Rightarrow> string \<Rightarrow> (nat \<Rightarrow> instant) \<Rightarrow> go_error option \<Rightarrow> browser_pool \<Rightarrow>
    (go_error + nat list \<times> grant) \<times> browser_pool" where
  "acquire_locked cfg key now launchErr st =
     (case browserLocked now launchErr st of
        (Inl e, st) \<Rightarrow> (Inl e, st)
      | (Inr b, st) \<Rightarrow>
          (let (stale, reuse, kept) = scan_idle (bp_sessions st) key b (bp_idle st) ([], None, []);
               st = st\<lparr>bp_idle := kept, bp_open := bp_open st - int (length stale)\<rparr>
           in case reuse of
                Some s \<Rightarrow> (Inr (stale, Reuse s), st)
              | None \<Rightarrow>
                  if PoolSize cfg \<le> bp_open st \<and> bp_idle st \<noteq> []
                  then (Inr (stale @ [hd (bp_idle st)], Reserve b), st\<lparr>bp_idle := tl (bp_idle st)\<rparr>)
                  else (Inr (stale, Reserve b), st\<lparr>bp_open := bp_open st + 1\<rparr>)))"

text \<open>Eviction takes one from \<open>open\<close> and the reservation puts it back.\<close>

definition closeSession :: "nat \<Rightarrow> browser_pool \<Rightarrow> browser_pool" where
  "closeSession s st = st\<lparr>bp_sessions := (bp_sessions st)[s := (bp_sessions st ! s)\<lparr>ses_closed := True\<rparr>],
     bp_met := AddSessionsOpen (- 1) (bp_met st)\<rparr>"

definition newSession :: "nat \<Rightarrow> string \<Rightarrow> browser_pool \<Rightarrow> nat \<times> browser_pool" where
  "newSession b key st = (length (bp_sessions st),
     st\<lparr>bp_sessions := bp_sessions st @ [\<lparr>ses_key = key, ses_browser = b, ses_uses = 0, ses_crashed = False, ses_closed = False\<rparr>],
        bp_met := AddSessionsOpen 1 (bp_met st)\<rparr>)"

text \<open>\<open>release\<close> up to the end of its locked section; the result says whether the session is kept.\<close>

definition release_locked :: "playwright_config \<Rightarrow> nat \<Rightarrow> bool \<Rightarrow> browser_pool \<Rightarrow> bool \<times> browser_pool" where
  "release_locked cfg s healthy st =
     (let ses = (bp_sessions st ! s)\<lparr>ses_uses := ses_uses (bp_sessions st ! s) + 1\<rparr>;
          st = st\<lparr>bp_met := AddSessionsInUse (- 1) (bp_met st), bp_sessions := (bp_sessions st)[s := ses]\<rparr>;
          keep = (healthy \<and> \<not> bp_closed st \<and> \<not> ses_crashed ses \<and> ses_uses ses < MaxSessionUses cfg \<and>
                  bp_browser st = Some (ses_browser ses) \<and> IsConnected st (ses_browser ses))
      in if keep then (True, st\<lparr>bp_idle := bp_idle st @ [s]\<rparr>) else (False, st\<lparr>bp_open := bp_open st - 1\<rparr>))"

definition onPageCrash :: "nat \<Rightarrow> browser_pool \<Rightarrow> browser_pool" where
  "onPageCrash s st = st\<lparr>bp_sessions := (bp_sessions st)[s := (bp_sessions st ! s)\<lparr>ses_crashed := True\<rparr>],
     bp_met := IncPageCrashes (bp_met st)\<rparr>"

definition onDisconnected :: "nat \<Rightarrow> browser_pool \<Rightarrow> browser_pool" where
  "onDisconnected b st = st\<lparr>bp_alive := filter (\<lambda>x. x \<noteq> b) (bp_alive st),
     bp_met := (if \<not> bp_closed st then IncDisconnects (bp_met st) else bp_met st)\<rparr>"

definition new_pool :: "browser \<Rightarrow> browser_pool" where
  "new_pool met = \<lparr>bp_slots = 0, bp_browser = None, bp_alive = [], bp_idle = [], bp_open = 0, bp_closed = False,
     launchFailures = 0, nextLaunch = 0, lastLaunchErr = None, bp_met = met, bp_sessions = [], bp_launched = 0\<rparr>"


subsection \<open>Fetches and Close as threads\<close>

text \<open>
  Where a fetch is: before its slot (with the key of its session), past the slot, past the check
  for closing, closing sessions before it goes on, rendering, about to give the slot back, done.
\<close>

datatype after = AUse nat | AOpen nat string | ALeave

datatype fetch_pc = FWait string | FSlot string | FChecked string | FClosing "nat list" after | FUsing nat
  | FGiveBack | FDone

datatype close_pc = CNot | CFlagged | CClosing "nat list" | CDrain nat | CDone nat

record fetch_system =
  fs_pool :: browser_pool
  fs_threads :: "fetch_pc list"
  fs_closer :: close_pc

datatype act =
    TakeSlot nat
  | GiveUp nat
  | CheckClosed nat
  | Lock nat "nat \<Rightarrow> instant" "go_error option"
  | CloseOne nat
  | Go nat "go_error option"
  | Rendered nat bool
  | GiveBack nat
  | Crash nat
  | PageClosed nat
  | Disconnect nat
  | CloseStart
  | CloseIdle
  | CloseNext
  | DrainSlot
  | DrainEnd

definition goto :: "nat \<Rightarrow> fetch_pc \<Rightarrow> browser_pool \<Rightarrow> fetch_system \<Rightarrow> fetch_system" where
  "goto i pc st s = s\<lparr>fs_pool := st, fs_threads := (fs_threads s)[i := pc]\<rparr>"

definition at_pc :: "nat \<Rightarrow> fetch_system \<Rightarrow> fetch_pc" where
  "at_pc i s = (if i < length (fs_threads s) then fs_threads s ! i else FDone)"

fun pool_act :: "playwright_config \<Rightarrow> act \<Rightarrow> fetch_system \<Rightarrow> fetch_system option" where
  "pool_act cfg (TakeSlot i) s = (case at_pc i s of
       FWait key \<Rightarrow> if int (bp_slots (fs_pool s)) < PoolSize cfg
         then Some (goto i (FSlot key) ((fs_pool s)\<lparr>bp_slots := bp_slots (fs_pool s) + 1\<rparr>) s) else None
     | _ \<Rightarrow> None)"
| "pool_act cfg (GiveUp i) s = (case at_pc i s of
       FWait key \<Rightarrow> Some (goto i FDone (fs_pool s) s)
     | _ \<Rightarrow> None)"
| "pool_act cfg (CheckClosed i) s = (case at_pc i s of
       FSlot key \<Rightarrow> Some (goto i (if bp_closed (fs_pool s) then FGiveBack else FChecked key) (fs_pool s) s)
     | _ \<Rightarrow> None)"
| "pool_act cfg (Lock i now launchErr) s = (case at_pc i s of
       FChecked key \<Rightarrow>
         (case acquire_locked cfg key now launchErr (fs_pool s) of
            (Inl e, st) \<Rightarrow> Some (goto i FGiveBack st s)
          | (Inr (stale, Reuse x), st) \<Rightarrow> Some (goto i (FClosing stale (AUse x)) st s)
          | (Inr (stale, Reserve b), st) \<Rightarrow> Some (goto i (FClosing stale (AOpen b key)) st s))
     | _ \<Rightarrow> None)"
| "pool_act cfg (CloseOne i) s = (case at_pc i s of
       FClosing (x # xs) a \<Rightarrow> Some (goto i (FClosing xs a) (closeSession x (fs_pool s)) s)
     | _ \<Rightarrow> None)"
| "pool_act cfg (Go i err) s = (case at_pc i s of
       FClosing [] (AUse x) \<Rightarrow> Some (goto i (FUsing x) ((fs_pool s)\<lparr>bp_met := AddSessionsInUse 1 (bp_met (fs_pool s))\<rparr>) s)
     | FClosing [] (AOpen b key) \<Rightarrow>
         (case err of
            Some e \<Rightarrow> Some (goto i FGiveBack ((fs_pool s)\<lparr>bp_open := bp_open (fs_pool s) - 1\<rparr>) s)
          | None \<Rightarrow> (let (x, st) = newSession b key (fs_pool s)
                in Some (goto i (FUsing x) (st\<lparr>bp_met := AddSessionsInUse 1 (bp_met st)\<rparr>) s)))
     | FClosing [] ALeave \<Rightarrow> Some (goto i FGiveBack (fs_pool s) s)
     | _ \<Rightarrow> None)"
| "pool_act cfg (Rendered i healthy) s = (case at_pc i s of
       FUsing x \<Rightarrow> (let (keep, st) = release_locked cfg x healthy (fs_pool s)
         in Some (goto i (if keep then FGiveBack else FClosing [x] ALeave) st s))
     | _ \<Rightarrow> None)"
| "pool_act cfg (GiveBack i) s = (case at_pc i s of
       FGiveBack \<Rightarrow> Some (goto i FDone ((fs_pool s)\<lparr>bp_slots := bp_slots (fs_pool s) - 1\<rparr>) s)
     | _ \<Rightarrow> None)"
| "pool_act cfg (Crash x) s = (if x < length (bp_sessions (fs_pool s))
     then Some (s\<lparr>fs_pool := onPageCrash x (fs_pool s)\<rparr>) else None)"
| "pool_act cfg (PageClosed x) s = (if x < length (bp_sessions (fs_pool s))
     then Some (s\<lparr>fs_pool := (fs_pool s)\<lparr>bp_sessions := (bp_sessions (fs_pool s))
            [x := (bp_sessions (fs_pool s) ! x)\<lparr>ses_closed := True\<rparr>]\<rparr>\<rparr>) else None)"
| "pool_act cfg (Disconnect b) s = Some (s\<lparr>fs_pool := onDisconnected b (fs_pool s)\<rparr>)"
| "pool_act cfg CloseStart s = (if fs_closer s = CNot
     then Some (s\<lparr>fs_pool := (fs_pool s)\<lparr>bp_closed := True\<rparr>, fs_closer := CFlagged\<rparr>) else None)"
| "pool_act cfg CloseIdle s = (if fs_closer s = CFlagged
     then Some (s\<lparr>fs_pool := (fs_pool s)\<lparr>bp_idle := [], bp_open := bp_open (fs_pool s) - int (length (bp_idle (fs_pool s)))\<rparr>,
            fs_closer := CClosing (bp_idle (fs_pool s))\<rparr>) else None)"
| "pool_act cfg CloseNext s = (case fs_closer s of
       CClosing (x # xs) \<Rightarrow> Some (s\<lparr>fs_pool := closeSession x (fs_pool s), fs_closer := CClosing xs\<rparr>)
     | CClosing [] \<Rightarrow> Some (s\<lparr>fs_closer := CDrain 0\<rparr>)
     | _ \<Rightarrow> None)"
| "pool_act cfg DrainSlot s = (case fs_closer s of
       CDrain n \<Rightarrow> if int n < PoolSize cfg \<and> int (bp_slots (fs_pool s)) < PoolSize cfg
         then Some (s\<lparr>fs_pool := (fs_pool s)\<lparr>bp_slots := bp_slots (fs_pool s) + 1\<rparr>, fs_closer := CDrain (n + 1)\<rparr>) else None
     | _ \<Rightarrow> None)"
| "pool_act cfg DrainEnd s = (case fs_closer s of
       CDrain n \<Rightarrow> Some (s\<lparr>fs_closer := CDone n, fs_pool := (case bp_browser (fs_pool s) of
           None \<Rightarrow> fs_pool s | Some b \<Rightarrow> onDisconnected b (fs_pool s))\<rparr>)
     | _ \<Rightarrow> None)"

definition pool_step :: "playwright_config \<Rightarrow> fetch_system \<Rightarrow> fetch_system \<Rightarrow> bool" where
  "pool_step cfg s t \<longleftrightarrow> (\<exists>a. pool_act cfg a s = Some t)"

definition pool_start :: "browser \<Rightarrow> string list \<Rightarrow> fetch_system" where
  "pool_start met keys = \<lparr>fs_pool = new_pool met, fs_threads = map FWait keys, fs_closer = CNot\<rparr>"

fun pool_run :: "playwright_config \<Rightarrow> act list \<Rightarrow> fetch_system \<Rightarrow> fetch_system option" where
  "pool_run cfg [] s = Some s"
| "pool_run cfg (a # as) s = (case pool_act cfg a s of None \<Rightarrow> None | Some t \<Rightarrow> pool_run cfg as t)"


subsection \<open>The invariant\<close>

fun holds_slot :: "fetch_pc \<Rightarrow> nat" where
  "holds_slot (FWait k) = 0"
| "holds_slot FDone = 0"
| "holds_slot _ = 1"

fun holds_open :: "fetch_pc \<Rightarrow> nat" where
  "holds_open (FClosing xs ALeave) = 0"
| "holds_open (FClosing xs a) = 1"
| "holds_open (FUsing x) = 1"
| "holds_open _ = 0"

fun holds :: "fetch_pc \<Rightarrow> nat multiset" where
  "holds (FClosing xs (AUse x)) = mset xs + {#x#}"
| "holds (FClosing xs a) = mset xs"
| "holds (FUsing x) = {#x#}"
| "holds _ = {#}"

fun using_one :: "fetch_pc \<Rightarrow> nat" where
  "using_one (FUsing x) = 1"
| "using_one _ = 0"

fun drained :: "close_pc \<Rightarrow> nat" where
  "drained (CDrain n) = n"
| "drained (CDone n) = n"
| "drained _ = 0"

fun closer_holds :: "close_pc \<Rightarrow> nat multiset" where
  "closer_holds (CClosing xs) = mset xs"
| "closer_holds _ = {#}"

text \<open>Every session that is open: idle, held by a fetch, or about to be closed by \<open>Close\<close>.\<close>

definition owned :: "fetch_system \<Rightarrow> nat multiset" where
  "owned s = mset (bp_idle (fs_pool s)) + sum_list (map holds (fs_threads s)) + closer_holds (fs_closer s)"

definition gauges :: "browser_pool \<Rightarrow> (64 word \<times> 64 word) option" where
  "gauges st = map_option (\<lambda>m. (SessionsOpen m, SessionsInUse m)) (bp_met st)"

definition idle_ok :: "playwright_config \<Rightarrow> browser_pool \<Rightarrow> bool" where
  "idle_ok cfg st \<longleftrightarrow> (\<forall>x\<in>set (bp_idle st). bp_browser st = Some (ses_browser (bp_sessions st ! x)) \<and>
     ses_uses (bp_sessions st ! x) < MaxSessionUses cfg)"

definition slots_ok :: "playwright_config \<Rightarrow> fetch_system \<Rightarrow> bool" where
  "slots_ok cfg s \<longleftrightarrow> bp_slots (fs_pool s) = sum_list (map holds_slot (fs_threads s)) + drained (fs_closer s) \<and>
     int (bp_slots (fs_pool s)) \<le> PoolSize cfg"

definition open_ok :: "playwright_config \<Rightarrow> fetch_system \<Rightarrow> bool" where
  "open_ok cfg s \<longleftrightarrow> bp_open (fs_pool s) = int (length (bp_idle (fs_pool s)) + sum_list (map holds_open (fs_threads s))) \<and>
     bp_open (fs_pool s) \<le> PoolSize cfg"

definition owned_ok :: "fetch_system \<Rightarrow> bool" where
  "owned_ok s \<longleftrightarrow> (\<forall>x. count (owned s) x \<le> 1) \<and> (\<forall>x\<in>#owned s. x < length (bp_sessions (fs_pool s)))"

definition gauges_ok :: "fetch_system \<Rightarrow> bool" where
  "gauges_ok s \<longleftrightarrow> (case gauges (fs_pool s) of None \<Rightarrow> True
     | Some (o', u) \<Rightarrow> o' = of_nat (size (owned s)) \<and> u = of_nat (sum_list (map using_one (fs_threads s))))"

definition pool_inv :: "playwright_config \<Rightarrow> fetch_system \<Rightarrow> bool" where
  "pool_inv cfg s \<longleftrightarrow> slots_ok cfg s \<and> open_ok cfg s \<and> owned_ok s \<and> idle_ok cfg (fs_pool s) \<and> gauges_ok s"

lemmas pool_inv_defs = pool_inv_def slots_ok_def open_ok_def owned_ok_def gauges_ok_def

subsection \<open>The critical sections\<close>

definition mset_opt :: "'a option \<Rightarrow> 'a multiset" where
  "mset_opt r = (case r of None \<Rightarrow> {#} | Some x \<Rightarrow> {#x#})"

lemma mset_opt_simps [simp]: "mset_opt None = {#}" "mset_opt (Some x) = {#x#}"
  by (simp_all add: mset_opt_def)

lemma scan_idle_mset:
  "scan_idle ses key b idle (stale, reuse, kept) = (stale', reuse', kept') \<Longrightarrow>
   mset stale' + mset_opt reuse' + mset kept' = mset stale + mset_opt reuse + mset kept + mset idle"
proof (induction idle arbitrary: stale reuse kept)
  case (Cons s idle)
  then show ?case by (auto split: if_splits)
qed simp

text \<open>
  How a critical section of the pool changes it: \<open>gone\<close> are the idle sessions it dropped with a
  dead browser, \<open>out\<close> those it handed to its caller.
\<close>

definition pool_change :: "browser_pool \<Rightarrow> nat multiset \<Rightarrow> nat multiset \<Rightarrow> browser_pool \<Rightarrow> bool" where
  "pool_change st gone out st' \<longleftrightarrow> mset (bp_idle st) = gone + out + mset (bp_idle st') \<and>
     bp_slots st' = bp_slots st \<and> bp_sessions st' = bp_sessions st \<and>
     gauges st' = map_option (\<lambda>(o', u). (o' - of_nat (size gone), u)) (gauges st)"

lemma drop_dead_section:
  "\<exists>gone. pool_change st gone {#} (drop_dead b st) \<and> bp_open (drop_dead b st) = bp_open st - int (size gone)"
proof (intro exI conjI)
  let ?dead = "mset (filter (\<lambda>s. ses_browser (bp_sessions st ! s) = b) (bp_idle st))"
  have "mset (bp_idle st) = ?dead + mset (filter (\<lambda>s. ses_browser (bp_sessions st ! s) \<noteq> b) (bp_idle st))"
    by (simp add: multiset_partition [symmetric])
  then show "pool_change st ?dead {#} (drop_dead b st)"
    by (auto simp: pool_change_def drop_dead_def gauges_def Let_def AddSessionsOpen_def option.map_comp comp_def
        simp flip: size_mset)
  show "bp_open (drop_dead b st) = bp_open st - int (size ?dead)"
    unfolding size_mset by (simp add: drop_dead_def Let_def)
qed


lemma pool_change_refl: "pool_change st {#} {#} st"
  by (cases "gauges st") (auto simp: pool_change_def)

lemma drop_dead_idle: "idle_ok cfg st \<Longrightarrow> bp_browser st = Some b \<Longrightarrow> bp_idle (drop_dead b st) = []"
  by (auto simp: idle_ok_def drop_dead_def Let_def)

lemma browserLocked_change:
  assumes "browserLocked now le st = (r, st')" "idle_ok cfg st"
  shows "\<exists>gone. pool_change st gone {#} st' \<and> bp_open st' = bp_open st - int (size gone) \<and> idle_ok cfg st' \<and>
    (\<forall>b. r = Inr b \<longrightarrow> bp_browser st' = Some b)"
proof (cases "bp_browser st \<noteq> None \<and> IsConnected st (the (bp_browser st)) \<or> bp_closed st \<or> now 0 < nextLaunch st")
  case True
  then have "st' = st" "\<forall>b. r = Inr b \<longrightarrow> bp_browser st' = Some b"
    using assms(1) by (auto simp: browserLocked_def split: if_splits)
  then show ?thesis using assms(2) pool_change_refl by (intro exI [of _ "{#}"]) simp
next
  case False
  define st1 where "st1 = (case bp_browser st of None \<Rightarrow> st | Some b \<Rightarrow> drop_dead b st)"
  have "\<exists>gone. pool_change st gone {#} st1 \<and> bp_open st1 = bp_open st - int (size gone)"
    using drop_dead_section [of st] pool_change_refl [of st] by (cases "bp_browser st") (auto simp: st1_def intro: exI [of _ "{#}"])
  then obtain gone where g: "pool_change st gone {#} st1" "bp_open st1 = bp_open st - int (size gone)" by blast
  have idle: "bp_idle st1 = []"
  proof (cases "bp_browser st")
    case None
    then have "bp_idle st = []" using assms(2) by (cases "bp_idle st") (auto simp: idle_ok_def)
    then show ?thesis by (simp add: st1_def None)
  next
    case (Some b)
    then show ?thesis using drop_dead_idle [OF assms(2) Some] by (simp add: st1_def)
  qed
  have "\<not> (bp_browser st \<noteq> None \<and> IsConnected st (the (bp_browser st)))" "\<not> bp_closed st" "\<not> now 0 < nextLaunch st"
    using False by blast+
  then have res: "(r, st') = (case le of
          Some e \<Rightarrow>
            (let failures = launchFailures st1 + 1
             in (Inl (Wrapped ''playwright fetcher: launch chromium'' e),
                 st1\<lparr>launchFailures := failures, nextLaunch := now 1 + launch_backoff failures,
                    lastLaunchErr := Some e, bp_met := IncLaunchFailures (bp_met st1)\<rparr>))
        | None \<Rightarrow>
            (let b = bp_launched st1
             in (Inr b, st1\<lparr>launchFailures := 0, nextLaunch := 0, lastLaunchErr := None, bp_browser := Some b,
                   bp_alive := bp_alive st1 @ [b], bp_launched := b + 1, bp_met := IncLaunches (bp_met st1)\<rparr>)))"
    unfolding assms(1) [symmetric] browserLocked_def st1_def by (simp only: if_False Let_def)
  have st': "bp_idle st' = bp_idle st1" "bp_open st' = bp_open st1" "bp_slots st' = bp_slots st1"
    "bp_sessions st' = bp_sessions st1" "gauges st' = gauges st1" "\<forall>b. r = Inr b \<longrightarrow> bp_browser st' = Some b"
    using res by (cases le; simp add: Let_def gauges_def IncLaunches_def IncLaunchFailures_def option.map_comp comp_def)+
  then show ?thesis using g idle by (intro exI [of _ gone]) (simp add: pool_change_def idle_ok_def)
qed

lemma acquire_locked_change:
  assumes "acquire_locked cfg key now le st = (r, st')" "idle_ok cfg st" "bp_open st \<le> PoolSize cfg"
  obtains gone out where "pool_change st gone out st'" "idle_ok cfg st'" "bp_open st' \<le> PoolSize cfg \<or> bp_idle st' = []"
    "r = Inl e \<Longrightarrow> out = {#} \<and> bp_open st' = bp_open st - int (size gone)"
    "r = Inr (cs, Reuse x) \<Longrightarrow> out = mset cs + {#x#} \<and> bp_open st' = bp_open st - int (size gone + length cs)"
    "r = Inr (cs, Reserve b) \<Longrightarrow> out = mset cs \<and> bp_open st' = bp_open st - int (size gone + length cs) + 1"
proof -
  obtain r1 st1 where bl: "browserLocked now le st = (r1, st1)" by force
  from browserLocked_change [OF bl assms(2)] obtain gone where
    g: "pool_change st gone {#} st1" "bp_open st1 = bp_open st - int (size gone)" "idle_ok cfg st1"
    by blast
  show thesis
  proof (cases r1)
    case (Inl e)
    then have "st' = st1" "r = Inl e" using assms(1) bl by (simp_all add: acquire_locked_def)
    then show thesis using that [of gone "{#}"] g assms(3) by auto
  next
    case (Inr bb)
    obtain stale reuse kept where sc: "scan_idle (bp_sessions st1) key bb (bp_idle st1) ([], None, []) = (stale, reuse, kept)"
      by (metis prod_cases3)
    have ms: "mset (bp_idle st1) = mset stale + mset_opt reuse + mset kept"
      using scan_idle_mset [OF sc] by simp
    have sub: "set kept \<subseteq> set (bp_idle st1)" using ms by (metis mset_subset_eqD mset_subset_eq_add_right set_mset_mset subsetI)
    define st2 where "st2 = st1\<lparr>bp_idle := kept, bp_open := bp_open st1 - int (length stale)\<rparr>"
    have ch: "pool_change st gone (mset stale + mset_opt reuse) st2"
      using g(1) ms by (simp add: pool_change_def st2_def gauges_def)
    have ok: "idle_ok cfg st2" using g(3) sub by (auto simp: idle_ok_def st2_def)
    have op: "bp_open st2 = bp_open st - int (size gone + length stale)" "bp_open st2 \<le> PoolSize cfg"
      using g(2) assms(3) by (simp_all add: st2_def)
    have res: "(r, st') = (case reuse of
          Some s \<Rightarrow> (Inr (stale, Reuse s), st2)
        | None \<Rightarrow> if PoolSize cfg \<le> bp_open st2 \<and> bp_idle st2 \<noteq> []
            then (Inr (stale @ [hd (bp_idle st2)], Reserve bb), st2\<lparr>bp_idle := tl (bp_idle st2)\<rparr>)
            else (Inr (stale, Reserve bb), st2\<lparr>bp_open := bp_open st2 + 1\<rparr>))"
      unfolding assms(1) [symmetric] acquire_locked_def bl prod.case Inr sum.case sc Let_def st2_def [symmetric] ..
    show thesis
    proof (cases reuse)
      case (Some s)
      then show thesis using that [of gone "mset stale + {#s#}"] ch ok op res by auto
    next
      case None
      show thesis
      proof (cases "PoolSize cfg \<le> bp_open st2 \<and> bp_idle st2 \<noteq> []")
        case True
        then obtain h t where ht: "bp_idle st2 = h # t" by (cases "bp_idle st2") auto
        have "pool_change st gone (mset (stale @ [h])) (st2\<lparr>bp_idle := t\<rparr>)"
          using ch None ht by (simp add: pool_change_def gauges_def)
        moreover have "idle_ok cfg (st2\<lparr>bp_idle := t\<rparr>)" using ok ht by (auto simp: idle_ok_def)
        ultimately show thesis
          by (intro that [of gone "mset (stale @ [h])"]) (use True None ht op res in auto)
      next
        case False
        have "pool_change st gone (mset stale) (st2\<lparr>bp_open := bp_open st2 + 1\<rparr>)"
          using ch None by (simp add: pool_change_def gauges_def)
        moreover have "idle_ok cfg (st2\<lparr>bp_open := bp_open st2 + 1\<rparr>)" using ok by (simp add: idle_ok_def)
        ultimately show thesis using that [of gone "mset stale"] False None op res by auto
      qed
    qed
  qed
qed


subsection \<open>Every step keeps the invariant\<close>

lemma goto_sums:
  fixes f :: "fetch_pc \<Rightarrow> 'b :: comm_monoid_add"
  assumes "at_pc i s = pc" "pc \<noteq> FDone"
  shows "sum_list (map f (fs_threads (goto i pc' st s))) + f pc = sum_list (map f (fs_threads s)) + f pc'"
proof -
  have i: "i < length (fs_threads s)" "fs_threads s ! i = pc" using assms by (auto simp: at_pc_def split: if_splits)
  show ?thesis using sum_list_map_update [OF i(1), of f pc'] i(2) by (simp add: goto_def)
qed

lemma goto_simps [simp]: "fs_pool (goto i pc st s) = st" "fs_closer (goto i pc st s) = fs_closer s"
  by (simp_all add: goto_def)

text \<open>
  A fetch moves from one position to another: what has to be shown of the change it makes to the
  pool. \<open>gone\<close> are the sessions closed or dropped by the step, \<open>fresh\<close> those it opened.
\<close>

lemma inv_goto:
  assumes inv: "pool_inv cfg s" and pc: "at_pc i s = pc" "pc \<noteq> FDone"
    and slots: "bp_slots st + holds_slot pc = bp_slots (fs_pool s) + holds_slot pc'" "int (bp_slots st) \<le> PoolSize cfg"
    and opens: "bp_open st - int (length (bp_idle st) + holds_open pc') =
        bp_open (fs_pool s) - int (length (bp_idle (fs_pool s)) + holds_open pc)" "bp_open st \<le> PoolSize cfg"
    and own: "mset (bp_idle st) + holds pc' + gone = mset (bp_idle (fs_pool s)) + holds pc + fresh"
    and fresh: "\<forall>x\<in>#fresh. length (bp_sessions (fs_pool s)) \<le> x \<and> x < length (bp_sessions st)" "\<forall>x. count fresh x \<le> 1"
    and ses: "length (bp_sessions (fs_pool s)) \<le> length (bp_sessions st)"
    and idle: "idle_ok cfg st"
    and gauge: "gauges st = map_option (\<lambda>(o', u). (o' + of_nat (size fresh) - of_nat (size gone),
        u + of_nat (using_one pc') - of_nat (using_one pc))) (gauges (fs_pool s))"
  shows "pool_inv cfg (goto i pc' st s)"
proof -
  let ?t = "goto i pc' st s"
  note sums = goto_sums [OF pc, where pc' = pc' and st = st]
  have "slots_ok cfg ?t"
    using inv slots sums [of holds_slot] by (simp add: pool_inv_defs)
  moreover have "open_ok cfg ?t"
    using inv opens sums [of holds_open] by (simp add: pool_inv_defs)
  moreover have ow: "owned ?t + gone = owned s + fresh"
  proof -
    have "owned ?t + gone + holds pc = mset (bp_idle st) + (sum_list (map holds (fs_threads ?t)) + holds pc) + closer_holds (fs_closer s) + gone"
      by (simp add: owned_def ac_simps)
    also have "\<dots> = sum_list (map holds (fs_threads s)) + closer_holds (fs_closer s) + (mset (bp_idle st) + holds pc' + gone)"
      unfolding sums [of holds] by (simp add: ac_simps)
    also have "\<dots> = owned s + fresh + holds pc" unfolding own by (simp add: owned_def ac_simps)
    finally show ?thesis by simp
  qed
  have "owned_ok ?t"
  proof -
    have cnt: "count (owned ?t) x + count gone x = count (owned s) x + count fresh x" for x
      using ow by (metis count_union)
    have old: "\<forall>x. count (owned s) x \<le> 1" "\<forall>x\<in>#owned s. x < length (bp_sessions (fs_pool s))"
      using inv by (simp_all add: pool_inv_defs)
    have "count (owned ?t) x \<le> 1" for x
    proof (cases "x \<in># fresh")
      case True
      then have "x \<notin># owned s" using fresh(1) old(2) by fastforce
      then show ?thesis using cnt [of x] fresh(2) by (simp add: not_in_iff) (metis add_leE)
    next
      case False
      then show ?thesis using cnt [of x] old(1) by (simp add: not_in_iff) (metis add_leE)
    qed
    moreover have "x < length (bp_sessions st)" if "x \<in># owned ?t" for x
    proof -
      have "x \<in># owned s + fresh" using that unfolding ow [symmetric] by simp
      then show ?thesis using fresh(1) old(2) ses by fastforce
    qed
    ultimately show ?thesis by (simp add: owned_ok_def)
  qed
  moreover have "gauges_ok ?t"
  proof -
    have "size (owned ?t) + size gone = size (owned s) + size fresh" using ow by (metis size_union)
    then have "of_nat (size (owned ?t)) = (of_nat (size (owned s)) + of_nat (size fresh) - of_nat (size gone) :: 64 word)"
      by (metis add_diff_cancel_right' of_nat_add)
    moreover have "of_nat (sum_list (map using_one (fs_threads ?t))) =
        (of_nat (sum_list (map using_one (fs_threads s))) + of_nat (using_one pc') - of_nat (using_one pc) :: 64 word)"
      using sums [of using_one] by (metis add_diff_cancel_right' of_nat_add)
    ultimately show ?thesis using inv gauge by (auto simp: pool_inv_defs split: option.splits)
  qed
  ultimately show ?thesis using idle by (simp add: pool_inv_def)
qed


lemma holds_slot_pos:
  assumes "pool_inv cfg s" "at_pc i s = pc" "holds_slot pc = 1"
  shows "0 < bp_slots (fs_pool s)" "bp_open (fs_pool s) - int (length (bp_idle (fs_pool s)) + holds_open pc) < PoolSize cfg"
proof -
  have i: "i < length (fs_threads s)" "fs_threads s ! i = pc" using assms(2,3) by (auto simp: at_pc_def split: if_splits)
  have le: "sum_list (map holds_open (fs_threads s)) + holds_slot pc \<le> sum_list (map holds_slot (fs_threads s)) + holds_open pc"
    if "i < length ts" "ts ! i = pc" "ts = fs_threads s" for ts
  proof -
    have each: "holds_open q \<le> holds_slot q" for q by (cases q rule: holds_open.cases) auto
    have "sum_list (map holds_open (ts[i := FDone])) \<le> sum_list (map holds_slot (ts[i := FDone]))"
      by (rule sum_list_mono) (rule each)
    then show ?thesis
      using sum_list_map_update [OF that(1), of holds_open FDone] sum_list_map_update [OF that(1), of holds_slot FDone] that
      by simp
  qed
  have "sum_list (map holds_open (fs_threads s)) + 1 \<le> sum_list (map holds_slot (fs_threads s)) + holds_open pc"
    using le [OF i refl] assms(3) by simp
  moreover have "holds_slot pc \<le> sum_list (map holds_slot (fs_threads s))"
    using elem_le_sum_list [of i "map holds_slot (fs_threads s)"] i by simp
  ultimately show "0 < bp_slots (fs_pool s)"
    "bp_open (fs_pool s) - int (length (bp_idle (fs_pool s)) + holds_open pc) < PoolSize cfg"
    using assms(1,3) by (auto simp: pool_inv_defs)
qed

lemma inv_same_pool:
  assumes "pool_inv cfg s" "at_pc i s = pc" "pc \<noteq> FDone" "holds_slot pc' = holds_slot pc" "holds_open pc' = holds_open pc"
    "holds pc' = holds pc" "using_one pc' = using_one pc"
  shows "pool_inv cfg (goto i pc' (fs_pool s) s)"
  by (rule inv_goto [where gone = "{#}" and fresh = "{#}", OF assms(1-3)])
     (use assms in \<open>auto simp: pool_inv_defs option.map_ident split: option.splits\<close>)

lemma inv_Lock:
  assumes "pool_inv cfg s" "pool_act cfg (Lock i now le) s = Some t"
  shows "pool_inv cfg t"
proof -
  obtain key where pc: "at_pc i s = FChecked key" using assms(2) by (auto split: fetch_pc.splits)
  obtain r st where aq: "acquire_locked cfg key now le (fs_pool s) = (r, st)" by force
  have ok: "idle_ok cfg (fs_pool s)" "bp_open (fs_pool s) \<le> PoolSize cfg" "int (bp_slots (fs_pool s)) \<le> PoolSize cfg"
    using assms(1) by (simp_all add: pool_inv_defs)
  have room: "bp_open (fs_pool s) - int (length (bp_idle (fs_pool s))) < PoolSize cfg"
    using holds_slot_pos(2) [OF assms(1) pc] by simp
  consider e where "r = Inl e" | cs x where "r = Inr (cs, Reuse x)" | cs b where "r = Inr (cs, Reserve b)"
    by (metis grant.exhaust old.sum.exhaust surj_pair)
  then show ?thesis
  proof cases
    case (1 e)
    then have t: "t = goto i FGiveBack st s" using assms(2) pc aq by simp
    show ?thesis unfolding t
    proof (rule acquire_locked_change [OF aq ok(1,2)])
      fix gone out
      assume ch: "pool_change (fs_pool s) gone out st" "idle_ok cfg st" and o: "r = Inl e \<Longrightarrow> out = {#} \<and> bp_open st = bp_open (fs_pool s) - int (size gone)"
      have "length (bp_idle (fs_pool s)) = size gone + length (bp_idle st)"
        using ch(1) o [OF 1] unfolding pool_change_def by (metis add.right_neutral size_mset size_union)
      then show "pool_inv cfg (goto i FGiveBack st s)"
        using ch o [OF 1] ok
        by (intro inv_goto [where gone = gone and fresh = "{#}", OF assms(1) pc]) (auto simp: pool_change_def ac_simps)
    qed
  next
    case (2 cs x)
    then have t: "t = goto i (FClosing cs (AUse x)) st s" using assms(2) pc aq by simp
    show ?thesis unfolding t
    proof (rule acquire_locked_change [OF aq ok(1,2)])
      fix gone out
      assume ch: "pool_change (fs_pool s) gone out st" "idle_ok cfg st"
        and o: "r = Inr (cs, Reuse x) \<Longrightarrow> out = mset cs + {#x#} \<and> bp_open st = bp_open (fs_pool s) - int (size gone + length cs)"
      have "length (bp_idle (fs_pool s)) = size gone + (length cs + 1) + length (bp_idle st)"
        using arg_cong [where f = size, OF ch(1) [unfolded pool_change_def, THEN conjunct1]] o [OF 2] by simp
      then show "pool_inv cfg (goto i (FClosing cs (AUse x)) st s)"
        using ch o [OF 2] ok
        by (intro inv_goto [where gone = gone and fresh = "{#}", OF assms(1) pc]) (auto simp: pool_change_def ac_simps)
    qed
  next
    case (3 cs b)
    then have t: "t = goto i (FClosing cs (AOpen b key)) st s" using assms(2) pc aq by simp
    show ?thesis unfolding t
    proof (rule acquire_locked_change [OF aq ok(1,2)])
      fix gone out
      assume ch: "pool_change (fs_pool s) gone out st" "idle_ok cfg st" and cap: "bp_open st \<le> PoolSize cfg \<or> bp_idle st = []"
        and o: "r = Inr (cs, Reserve b) \<Longrightarrow> out = mset cs \<and> bp_open st = bp_open (fs_pool s) - int (size gone + length cs) + 1"
      have len: "length (bp_idle (fs_pool s)) = size gone + length cs + length (bp_idle st)"
        using arg_cong [where f = size, OF ch(1) [unfolded pool_change_def, THEN conjunct1]] o [OF 3] by simp
      then have "bp_open st \<le> PoolSize cfg" using cap o [OF 3] room by auto
      then show "pool_inv cfg (goto i (FClosing cs (AOpen b key)) st s)"
        using ch o [OF 3] ok len
        by (intro inv_goto [where gone = gone and fresh = "{#}", OF assms(1) pc]) (auto simp: pool_change_def ac_simps)
    qed
  qed
qed


lemma gauges_add [simp]:
  "gauges (st\<lparr>bp_met := AddSessionsInUse d (bp_met st)\<rparr>) = map_option (\<lambda>(o', u). (o', u + d)) (gauges st)"
  "gauges (st\<lparr>bp_met := AddSessionsOpen d (bp_met st)\<rparr>) = map_option (\<lambda>(o', u). (o' + d, u)) (gauges st)"
  by (simp_all add: gauges_def AddSessionsInUse_def AddSessionsOpen_def option.map_comp comp_def)

lemma gauges_keep [simp]:
  "gauges (st\<lparr>bp_slots := n\<rparr>) = gauges st" "gauges (st\<lparr>bp_open := k\<rparr>) = gauges st"
  "gauges (st\<lparr>bp_sessions := ses\<rparr>) = gauges st" "gauges (st\<lparr>bp_idle := ids\<rparr>) = gauges st"
  "gauges (st\<lparr>bp_closed := c\<rparr>) = gauges st"
  by (simp_all add: gauges_def)

lemma closeSession_simps [simp]:
  "bp_slots (closeSession x st) = bp_slots st" "bp_open (closeSession x st) = bp_open st"
  "bp_idle (closeSession x st) = bp_idle st" "length (bp_sessions (closeSession x st)) = length (bp_sessions st)"
  "gauges (closeSession x st) = map_option (\<lambda>(o', u). (o' - 1, u)) (gauges st)"
  by (simp_all add: closeSession_def gauges_def AddSessionsOpen_def option.map_comp comp_def)

lemma idle_ok_update:
  "idle_ok cfg st \<Longrightarrow> ses_browser y = ses_browser (bp_sessions st ! x) \<Longrightarrow> ses_uses y = ses_uses (bp_sessions st ! x) \<Longrightarrow>
   idle_ok cfg (st\<lparr>bp_sessions := (bp_sessions st)[x := y], bp_met := m\<rparr>)"
  by (cases "x < length (bp_sessions st)") (auto simp: idle_ok_def nth_list_update list_update_beyond)

lemma idle_ok_cong:
  "bp_idle st' = bp_idle st \<Longrightarrow> bp_browser st' = bp_browser st \<Longrightarrow> bp_sessions st' = bp_sessions st \<Longrightarrow>
   idle_ok cfg st' = idle_ok cfg st"
  by (simp add: idle_ok_def)

lemma inv_CloseOne:
  assumes "pool_inv cfg s" "at_pc i s = FClosing (x # xs) a"
  shows "pool_inv cfg (goto i (FClosing xs a) (closeSession x (fs_pool s)) s)"
proof -
  have "idle_ok cfg (closeSession x (fs_pool s))"
    using assms(1) unfolding closeSession_def by (intro idle_ok_update) (auto simp: pool_inv_def)
  then show ?thesis
    using assms(1)
    by (intro inv_goto [where gone = "{#x#}" and fresh = "{#}", OF assms]; cases a) (auto simp: pool_inv_defs)
qed

lemma inv_Go_use:
  assumes "pool_inv cfg s" "at_pc i s = FClosing [] (AUse x)"
  shows "pool_inv cfg (goto i (FUsing x) ((fs_pool s)\<lparr>bp_met := AddSessionsInUse 1 (bp_met (fs_pool s))\<rparr>) s)"
  using assms(1)
  by (intro inv_goto [where gone = "{#}" and fresh = "{#}", OF assms]) (auto simp: pool_inv_defs idle_ok_def)

lemma inv_Go_fail:
  assumes "pool_inv cfg s" "at_pc i s = FClosing [] (AOpen b key)"
  shows "pool_inv cfg (goto i FGiveBack ((fs_pool s)\<lparr>bp_open := bp_open (fs_pool s) - 1\<rparr>) s)"
  using assms(1)
  by (intro inv_goto [where gone = "{#}" and fresh = "{#}", OF assms])
     (auto simp: pool_inv_defs idle_ok_def option.map_ident split: option.splits)

lemma inv_Go_new:
  assumes "pool_inv cfg s" "at_pc i s = FClosing [] (AOpen b key)" "newSession b key (fs_pool s) = (x, st)"
  shows "pool_inv cfg (goto i (FUsing x) (st\<lparr>bp_met := AddSessionsInUse 1 (bp_met st)\<rparr>) s)"
proof -
  have x: "x = length (bp_sessions (fs_pool s))" and st: "bp_slots st = bp_slots (fs_pool s)" "bp_open st = bp_open (fs_pool s)"
    "bp_idle st = bp_idle (fs_pool s)" "length (bp_sessions st) = Suc x" "bp_browser st = bp_browser (fs_pool s)"
    "gauges st = map_option (\<lambda>(o', u). (o' + 1, u)) (gauges (fs_pool s))"
    "\<forall>y<x. bp_sessions st ! y = bp_sessions (fs_pool s) ! y"
    using assms(3) by (auto simp: newSession_def gauges_def AddSessionsOpen_def option.map_comp comp_def nth_append)
  have "y < x" if "y \<in> set (bp_idle (fs_pool s))" for y
    using assms(1) that unfolding x by (auto simp: pool_inv_def owned_ok_def owned_def)
  then have "idle_ok cfg st" using assms(1) st by (auto simp: pool_inv_def idle_ok_def)
  then show ?thesis
    using assms(1) st x
    by (intro inv_goto [where gone = "{#}" and fresh = "{#x#}", OF assms(1,2)])
       (auto simp: pool_inv_defs idle_ok_def option.map_comp comp_def case_prod_unfold)
qed

lemma inv_Rendered:
  assumes "pool_inv cfg s" "at_pc i s = FUsing x" "release_locked cfg x healthy (fs_pool s) = (keep, st)"
  shows "pool_inv cfg (goto i (if keep then FGiveBack else FClosing [x] ALeave) st s)"
proof -
  define ses where "ses = (bp_sessions (fs_pool s) ! x)\<lparr>ses_uses := ses_uses (bp_sessions (fs_pool s) ! x) + 1\<rparr>"
  have xi: "x \<notin> set (bp_idle (fs_pool s))" and xl: "x < length (bp_sessions (fs_pool s))"
  proof -
    have i: "i < length (fs_threads s)" "fs_threads s ! i = FUsing x" using assms(2) by (auto simp: at_pc_def split: if_splits)
    have "sum_list (map holds ((fs_threads s)[i := FDone])) + {#x#} = sum_list (map holds (fs_threads s))"
      using sum_list_map_update [OF i(1), of holds FDone] i(2) by simp
    then have o: "owned s = mset (bp_idle (fs_pool s)) + (sum_list (map holds ((fs_threads s)[i := FDone])) + {#x#}) + closer_holds (fs_closer s)"
      by (simp add: owned_def)
    have "count (owned s) x \<le> 1" "\<forall>y\<in>#owned s. y < length (bp_sessions (fs_pool s))"
      using assms(1) by (simp_all add: pool_inv_defs)
    then show "x \<notin> set (bp_idle (fs_pool s))" "x < length (bp_sessions (fs_pool s))"
      unfolding o by (auto simp: count_mset_gt_0 simp flip: count_greater_zero_iff)
  qed
  have k: "keep \<Longrightarrow> bp_browser (fs_pool s) = Some (ses_browser ses) \<and> ses_uses ses < MaxSessionUses cfg"
    and st: "bp_slots st = bp_slots (fs_pool s)" "bp_sessions st = (bp_sessions (fs_pool s))[x := ses]"
    "bp_browser st = bp_browser (fs_pool s)" "bp_idle st = (if keep then bp_idle (fs_pool s) @ [x] else bp_idle (fs_pool s))"
    "bp_open st = (if keep then bp_open (fs_pool s) else bp_open (fs_pool s) - 1)"
    "gauges st = map_option (\<lambda>(o', u). (o', u - 1)) (gauges (fs_pool s))"
    using assms(3)
    by (auto simp: release_locked_def ses_def Let_def gauges_def AddSessionsInUse_def option.map_comp comp_def split: if_splits)
  have "bp_sessions st ! y = bp_sessions (fs_pool s) ! y" if "y \<in> set (bp_idle (fs_pool s))" for y
    using that xi st(2) by (metis nth_list_update_neq)
  then have "idle_ok cfg st"
    using assms(1) k xl by (auto simp: pool_inv_def idle_ok_def st split: if_splits)
  then show ?thesis
    using assms(1) st
    by (intro inv_goto [where gone = "{#}" and fresh = "{#}", OF assms(1,2)]; cases keep) (auto simp: pool_inv_defs)
qed


text \<open>Steps that move no fetch: events of the browser and of \<open>Close\<close>.\<close>

lemma inv_event:
  assumes "pool_inv cfg s" "bp_slots st = bp_slots (fs_pool s)" "bp_open st = bp_open (fs_pool s)"
    "bp_idle st = bp_idle (fs_pool s)" "length (bp_sessions st) = length (bp_sessions (fs_pool s))"
    "gauges st = gauges (fs_pool s)" "idle_ok cfg st"
  shows "pool_inv cfg (s\<lparr>fs_pool := st\<rparr>)"
  using assms by (auto simp: pool_inv_defs owned_def split: option.splits)

lemma inv_Crash: "pool_inv cfg s \<Longrightarrow> pool_inv cfg (s\<lparr>fs_pool := onPageCrash x (fs_pool s)\<rparr>)"
  unfolding onPageCrash_def
  by (intro inv_event idle_ok_update) (auto simp: pool_inv_def gauges_def IncPageCrashes_def option.map_comp comp_def)

lemma inv_PageClosed:
  "pool_inv cfg s \<Longrightarrow> pool_inv cfg (s\<lparr>fs_pool := (fs_pool s)\<lparr>bp_sessions := (bp_sessions (fs_pool s))
     [x := (bp_sessions (fs_pool s) ! x)\<lparr>ses_closed := True\<rparr>]\<rparr>\<rparr>)"
  using idle_ok_update [of cfg "fs_pool s" _ x "bp_met (fs_pool s)"]
  by (intro inv_event) (auto simp: pool_inv_def)

lemma inv_Disconnect: "pool_inv cfg s \<Longrightarrow> pool_inv cfg (s\<lparr>fs_pool := onDisconnected b (fs_pool s)\<rparr>)"
  unfolding onDisconnected_def
  by (intro inv_event) (auto simp: pool_inv_def idle_ok_def gauges_def IncDisconnects_def option.map_comp comp_def)

lemma inv_closer:
  assumes "pool_inv cfg s" "drained c = drained (fs_closer s)" "closer_holds c = closer_holds (fs_closer s)"
  shows "pool_inv cfg (s\<lparr>fs_closer := c\<rparr>)"
  using assms by (auto simp: pool_inv_defs owned_def split: option.splits)

lemma inv_CloseIdle:
  assumes "pool_inv cfg s" "fs_closer s = CFlagged"
  shows "pool_inv cfg (s\<lparr>fs_pool := (fs_pool s)\<lparr>bp_idle := [], bp_open := bp_open (fs_pool s) - int (length (bp_idle (fs_pool s)))\<rparr>,
    fs_closer := CClosing (bp_idle (fs_pool s))\<rparr>)"
  using assms by (auto simp: pool_inv_defs owned_def idle_ok_def ac_simps split: option.splits)

lemma inv_CloseNext:
  assumes "pool_inv cfg s" "fs_closer s = CClosing (x # xs)"
  shows "pool_inv cfg (s\<lparr>fs_pool := closeSession x (fs_pool s), fs_closer := CClosing xs\<rparr>)"
proof -
  let ?t = "s\<lparr>fs_pool := closeSession x (fs_pool s), fs_closer := CClosing xs\<rparr>"
  have ow: "owned s = owned ?t + {#x#}" using assms(2) by (simp add: owned_def)
  have "idle_ok cfg (closeSession x (fs_pool s))"
    using assms(1) unfolding closeSession_def by (intro idle_ok_update) (auto simp: pool_inv_def)
  moreover have "owned_ok ?t"
  proof -
    have "count (owned ?t) y \<le> count (owned s) y" for y unfolding ow by simp
    then show ?thesis
      using assms(1) unfolding pool_inv_def owned_ok_def by (auto intro: order_trans simp: ow)
  qed
  moreover have "gauges_ok ?t" using assms(1) unfolding pool_inv_def gauges_ok_def ow by (auto split: option.splits)
  ultimately show ?thesis using assms by (auto simp: pool_inv_def slots_ok_def open_ok_def)
qed

lemma inv_DrainSlot:
  assumes "pool_inv cfg s" "fs_closer s = CDrain n" "int (bp_slots (fs_pool s)) < PoolSize cfg"
  shows "pool_inv cfg (s\<lparr>fs_pool := (fs_pool s)\<lparr>bp_slots := bp_slots (fs_pool s) + 1\<rparr>, fs_closer := CDrain (n + 1)\<rparr>)"
  using assms by (auto simp: pool_inv_defs owned_def idle_ok_def split: option.splits)

lemma pool_inv_act:
  assumes "pool_inv cfg s" "pool_act cfg a s = Some t"
  shows "pool_inv cfg t"
proof (cases a)
  case (TakeSlot i)
  then obtain key where pc: "at_pc i s = FWait key" and c: "int (bp_slots (fs_pool s)) < PoolSize cfg"
    and t: "t = goto i (FSlot key) ((fs_pool s)\<lparr>bp_slots := bp_slots (fs_pool s) + 1\<rparr>) s"
    using assms(2) by (auto split: fetch_pc.splits if_splits)
  show ?thesis unfolding t
    using assms(1) c by (intro inv_goto [where gone = "{#}" and fresh = "{#}", OF assms(1) pc])
      (auto simp: pool_inv_defs idle_ok_def option.map_ident split: option.splits)
next
  case (GiveUp i)
  then show ?thesis using assms inv_same_pool [OF assms(1)] by (auto split: fetch_pc.splits)
next
  case (CheckClosed i)
  then show ?thesis using assms inv_same_pool [OF assms(1)] by (auto split: fetch_pc.splits)
next
  case (Lock i now le)
  then show ?thesis using inv_Lock assms by blast
next
  case (CloseOne i)
  then show ?thesis using assms inv_CloseOne by (auto split: fetch_pc.splits list.splits)
next
  case (Go i err)
  then show ?thesis
    using assms inv_Go_use inv_Go_fail inv_Go_new inv_same_pool [OF assms(1)]
    by (auto split: fetch_pc.splits list.splits after.splits option.splits prod.splits)
next
  case (Rendered i healthy)
  then show ?thesis using assms inv_Rendered by (auto split: fetch_pc.splits prod.splits)
next
  case (GiveBack i)
  then have pc: "at_pc i s = FGiveBack" and t: "t = goto i FDone ((fs_pool s)\<lparr>bp_slots := bp_slots (fs_pool s) - 1\<rparr>) s"
    using assms(2) by (auto split: fetch_pc.splits)
  show ?thesis unfolding t
    using assms(1) holds_slot_pos(1) [OF assms(1) pc]
    by (intro inv_goto [where gone = "{#}" and fresh = "{#}", OF assms(1) pc])
      (auto simp: pool_inv_defs idle_ok_def option.map_ident split: option.splits)
next
  case (Crash x)
  then show ?thesis using assms inv_Crash by (auto split: if_splits)
next
  case (PageClosed x)
  then show ?thesis using assms inv_PageClosed by (auto split: if_splits)
next
  case (Disconnect b)
  then show ?thesis using assms inv_Disconnect by auto
next
  case CloseStart
  then show ?thesis using assms by (auto simp: pool_inv_defs owned_def idle_ok_def split: if_splits option.splits)
next
  case CloseIdle
  then show ?thesis using assms inv_CloseIdle by (auto split: if_splits)
next
  case CloseNext
  then show ?thesis using assms inv_CloseNext inv_closer by (auto split: close_pc.splits list.splits)
next
  case DrainSlot
  then show ?thesis using assms inv_DrainSlot by (auto split: close_pc.splits if_splits)
next
  case DrainEnd
  then obtain n where n: "fs_closer s = CDrain n" using assms(2) by (auto split: close_pc.splits)
  have "pool_inv cfg (s\<lparr>fs_closer := CDone n\<rparr>)" using inv_closer assms(1) n by simp
  from this inv_Disconnect [OF this] show ?thesis using DrainEnd assms(2) n by (auto split: option.splits)
qed


subsection \<open>What the pool promises\<close>

definition clean_metrics :: "browser \<Rightarrow> bool" where
  "clean_metrics met = pred_option (\<lambda>m. SessionsOpen m = 0 \<and> SessionsInUse m = 0) met"

lemma start_sums [simp]:
  "sum_list (map holds_slot (map FWait keys)) = 0" "sum_list (map holds_open (map FWait keys)) = 0"
  "sum_list (map using_one (map FWait keys)) = 0" "sum_list (map holds (map FWait keys)) = {#}"
  by (induction keys) simp_all

lemma pool_inv_start: "0 \<le> PoolSize cfg \<Longrightarrow> clean_metrics met \<Longrightarrow> pool_inv cfg (pool_start met keys)"
  by (auto simp: pool_inv_defs pool_start_def new_pool_def owned_def idle_ok_def gauges_def clean_metrics_def
      simp del: map_map split: option.splits)

interpretation sessions: invariant_system
    "\<lambda>s. \<exists>met keys. s = pool_start met keys \<and> clean_metrics met \<and> 0 \<le> PoolSize cfg" "pool_step cfg" "pool_inv cfg" for cfg
  by unfold_locales (auto simp: pool_step_def intro: pool_inv_start pool_inv_act)

lemma pool_reachable_inv:
  "(pool_step cfg)\<^sup>*\<^sup>* (pool_start met keys) s \<Longrightarrow> clean_metrics met \<Longrightarrow> 0 \<le> PoolSize cfg \<Longrightarrow> pool_inv cfg s"
  using sessions.inv_reach [of "pool_start met keys"] by blast

lemma holds_two:
  assumes "i < length ts" "k < length ts" "i \<noteq> k"
  shows "\<exists>M. sum_list (map holds ts) = holds (ts ! i) + holds (ts ! k) + M"
proof -
  have "sum_list (map holds (ts[i := FDone])) + holds (ts ! i) = sum_list (map holds ts)"
    using sum_list_map_update [OF assms(1), of holds FDone] by simp
  moreover have "sum_list (map holds (ts[i := FDone, k := FDone])) + holds (ts ! k) = sum_list (map holds (ts[i := FDone]))"
    using sum_list_map_update [of k "ts[i := FDone]" holds FDone] assms by simp
  ultimately show ?thesis by (metis add.commute add.assoc)
qed

lemma owned_exclusive:
  assumes "owned_ok s" "at_pc i s = FUsing x"
  shows "x \<notin> set (bp_idle (fs_pool s))" "at_pc k s = FUsing x \<Longrightarrow> k = i"
proof -
  have i: "i < length (fs_threads s)" "fs_threads s ! i = FUsing x" using assms(2) by (auto simp: at_pc_def split: if_splits)
  have le: "count (owned s) x \<le> 1" using assms(1) by (simp add: owned_ok_def)
  have "sum_list (map holds ((fs_threads s)[i := FDone])) + {#x#} = sum_list (map holds (fs_threads s))"
    using sum_list_map_update [OF i(1), of holds FDone] i(2) by simp
  then have "1 \<le> count (sum_list (map holds (fs_threads s))) x" by (metis count_union le_add2 count_single)
  then have "count (mset (bp_idle (fs_pool s))) x = 0" using le unfolding owned_def count_union by linarith
  then show "x \<notin> set (bp_idle (fs_pool s))" by (metis not_in_iff set_mset_mset)
  assume "at_pc k s = FUsing x"
  then have k: "k < length (fs_threads s)" "fs_threads s ! k = FUsing x" by (auto simp: at_pc_def split: if_splits)
  show "k = i"
  proof (rule ccontr)
    assume "k \<noteq> i"
    then obtain M where "sum_list (map holds (fs_threads s)) = holds (FUsing x) + holds (FUsing x) + M"
      using holds_two [OF i(1) k(1)] i(2) k(2) by auto
    then have "2 \<le> count (owned s) x" by (simp add: owned_def)
    then show False using le by simp
  qed
qed


lemma pool_run_reach: "pool_run cfg as s = Some t \<Longrightarrow> (pool_step cfg)\<^sup>*\<^sup>* s t"
proof (induction as arbitrary: s)
  case (Cons a as)
  then obtain u where "pool_act cfg a s = Some u" "pool_run cfg as u = Some t" by (auto split: option.splits)
  then show ?case using Cons.IH by (meson converse_rtranclp_into_rtranclp pool_step_def)
qed simp


text \<open>A run for the witnesses: two fetches with one profile, a third with another, two slots.\<close>

definition two_slots :: playwright_config where
  "two_slots = \<lparr>pc_Endpoint = ''http://g'', pc_Timeout = Second, PoolSize = 2, MaxSessionUses = 50,
     pc_WaitSelector = '''', pc_Generic = False\<rparr>"

definition opens :: "nat \<Rightarrow> act list" where
  "opens i = [TakeSlot i, CheckClosed i, Lock i (\<lambda>k. 1) None, Go i None]"

definition crowded :: "fetch_system option" where
  "crowded = pool_run two_slots (opens 0 @ opens 1 @ [Rendered 0 False, Rendered 1 True, GiveBack 1] @ opens 2)
     (pool_start (Some zero_browser) [''k'', ''k'', ''m''])"

lemma crowded_run:
  "map_option (\<lambda>s. (fs_threads s, bp_open (fs_pool s), map_option SessionsOpen (bp_met (fs_pool s)))) crowded =
     Some ([FClosing [0] ALeave, FDone, FUsing 2], 2, Some 3)"
  by code_simp

lemma crowded_obtain:
  obtains s where "(pool_step two_slots)\<^sup>*\<^sup>* (pool_start (Some zero_browser) [''k'', ''k'', ''m'']) s"
    "fs_threads s = [FClosing [0] ALeave, FDone, FUsing 2]" "map_option SessionsOpen (bp_met (fs_pool s)) = Some 3"
proof -
  obtain s where s: "crowded = Some s" "fs_threads s = [FClosing [0] ALeave, FDone, FUsing 2]"
    "map_option SessionsOpen (bp_met (fs_pool s)) = Some 3" using crowded_run by auto
  show thesis by (rule that [OF _ s(2,3)]) (rule pool_run_reach [OF s(1) [unfolded crowded_def]])
qed

lemma clean_zero: "clean_metrics (Some zero_browser)"
  by (simp add: clean_metrics_def zero_browser_def)


text \<open>
  The number of sessions that exist is not bounded by \<open>PoolSize\<close>: a session that is being
  closed no longer counts, so that with two slots three can be open at the same time.
\<close>

theorem session_cap_exceeded:
  "\<exists>s. (pool_step two_slots)\<^sup>*\<^sup>* (pool_start (Some zero_browser) [''k'', ''k'', ''m'']) s \<and>
     map_option SessionsOpen (bp_met (fs_pool s)) = Some 3 \<and> PoolSize two_slots = 2"
  by (rule crowded_obtain) (auto simp: two_slots_def)


subsection \<open>Closing\<close>

fun past_idle :: "close_pc \<Rightarrow> bool" where
  "past_idle CNot = False"
| "past_idle CFlagged = False"
| "past_idle _ = True"

definition shut_ok :: "fetch_system \<Rightarrow> bool" where
  "shut_ok s \<longleftrightarrow> (fs_closer s \<noteq> CNot \<longrightarrow> bp_closed (fs_pool s)) \<and>
     (past_idle (fs_closer s) \<longrightarrow> bp_idle (fs_pool s) = [])"

lemma browserLocked_closed: "browserLocked now le st = (r, st') \<Longrightarrow> bp_closed st' = bp_closed st"
  by (auto simp: browserLocked_def drop_dead_def Let_def split: if_splits option.splits)

lemma acquire_locked_closed: "acquire_locked cfg key now le st = (r, st') \<Longrightarrow> bp_closed st' = bp_closed st"
  by (auto simp: acquire_locked_def Let_def split: prod.splits sum.splits option.splits if_splits dest!: browserLocked_closed)

lemma acquire_locked_empty:
  assumes "acquire_locked cfg key now le st = (r, st')" "idle_ok cfg st" "bp_open st \<le> PoolSize cfg" "bp_idle st = []"
  shows "bp_idle st' = []"
  by (rule acquire_locked_change [OF assms(1-3)]) (use assms(4) in \<open>auto simp: pool_change_def\<close>)

lemma release_locked_closed:
  "release_locked cfg x h st = (k, st') \<Longrightarrow> bp_closed st' = bp_closed st \<and> (bp_closed st \<longrightarrow> bp_idle st' = bp_idle st)"
  by (auto simp: release_locked_def Let_def split: if_splits)

lemma shut_goto: "shut_ok s \<Longrightarrow> bp_closed st = bp_closed (fs_pool s) \<Longrightarrow>
    (bp_closed (fs_pool s) \<Longrightarrow> bp_idle (fs_pool s) = [] \<Longrightarrow> bp_idle st = []) \<Longrightarrow> shut_ok (goto i pc st s)"
  by (auto simp: shut_ok_def)

lemma shut_Lock:
  assumes "pool_inv cfg s" "shut_ok s" "pool_act cfg (Lock i now le) s = Some t"
  shows "shut_ok t"
proof -
  obtain key where pc: "at_pc i s = FChecked key" using assms(3) by (auto split: fetch_pc.splits)
  obtain r st where aq: "acquire_locked cfg key now le (fs_pool s) = (r, st)" by force
  obtain pc' where t: "t = goto i pc' st s"
    using assms(3) pc aq by (auto split: sum.splits grant.splits)
  show ?thesis unfolding t
    using assms(1) acquire_locked_empty [OF aq] acquire_locked_closed [OF aq]
    by (intro shut_goto [OF assms(2)]) (auto simp: pool_inv_defs)
qed

lemma shut_act:
  assumes "pool_inv cfg s" "shut_ok s" "pool_act cfg a s = Some t"
  shows "shut_ok t"
proof (cases a)
  case (Lock i now le)
  then show ?thesis using shut_Lock assms by blast
next
  case (Rendered i h)
  then obtain x keep st where "release_locked cfg x h (fs_pool s) = (keep, st)"
    "t = goto i (if keep then FGiveBack else FClosing [x] ALeave) st s"
    using assms(3) by (auto split: fetch_pc.splits prod.splits)
  then show ?thesis using release_locked_closed [of cfg x h "fs_pool s" keep st] by (auto intro!: shut_goto [OF assms(2)])
next
  case (Go i err)
  then show ?thesis
    using assms(2,3)
    by (auto simp: newSession_def split: fetch_pc.splits list.splits after.splits option.splits intro!: shut_goto)
qed (use assms(2,3) in \<open>auto simp: shut_ok_def closeSession_def onPageCrash_def onDisconnected_def Let_def
      split: fetch_pc.splits list.splits close_pc.splits if_splits option.splits\<close>)

interpretation closing: invariant_system
    "\<lambda>s. \<exists>met keys. s = pool_start met keys \<and> clean_metrics met \<and> 0 \<le> PoolSize cfg" "pool_step cfg"
    "\<lambda>s. pool_inv cfg s \<and> shut_ok s" for cfg
proof unfold_locales
  show "pool_inv cfg s \<and> shut_ok s" if "\<exists>met keys. s = pool_start met keys \<and> clean_metrics met \<and> 0 \<le> PoolSize cfg" for s
    using that pool_inv_start by (auto simp: shut_ok_def pool_start_def new_pool_def)
  show "pool_inv cfg t \<and> shut_ok t" if "pool_inv cfg s \<and> shut_ok s" "pool_step cfg s t" for s t
    using that pool_inv_act shut_act by (auto simp: pool_step_def)
qed


definition closed_run :: "fetch_system option" where
  "closed_run = pool_run two_slots (opens 0 @ [Rendered 0 True, GiveBack 0, CloseStart, CloseIdle, CloseNext, CloseNext,
     DrainSlot, DrainSlot, DrainEnd]) (pool_start (Some zero_browser) [''k'', ''k''])"

lemma closed_run_ends: "map_option (\<lambda>s. (fs_closer s, fs_threads s)) closed_run = Some (CDone 2, [FDone, FWait ''k''])"
  by code_simp


subsection \<open>Launching\<close>

text \<open>
  The \<open>n\<close>-th failed launch in a row keeps every fetch from launching again for
  \<open>min (30, 2 ^ (n - 1))\<close> seconds: until then a fetch fails at once and changes nothing.
\<close>

theorem launch_backoff_schedule:
  assumes "browserLocked now (Some e) st = (r, st')" "bp_browser st = None \<or> \<not> IsConnected st (the (bp_browser st))"
    and "\<not> bp_closed st" "\<not> now 0 < nextLaunch st" "launchFailures st = int n"
  shows "nextLaunch st' = now 1 + min (30 * Second) (2 ^ n * Second) \<and> launchFailures st' = int (Suc n) \<and>
    (\<forall>now' le. now' 0 < nextLaunch st' \<longrightarrow>
       browserLocked now' le st' = (Inl (Wrapped ''last launch error'' ErrBrowserUnavailable), st'))"
proof -
  define st1 where "st1 = (case bp_browser st of None \<Rightarrow> st | Some b \<Rightarrow> drop_dead b st)"
  have st1: "launchFailures st1 = int n" "bp_browser st1 = bp_browser st" "bp_alive st1 = bp_alive st" "bp_closed st1 = bp_closed st"
    using assms(5) by (simp_all add: st1_def drop_dead_def Let_def split: option.splits)
  have st': "st' = st1\<lparr>launchFailures := launchFailures st1 + 1, nextLaunch := now 1 + launch_backoff (launchFailures st1 + 1),
      lastLaunchErr := Some e, bp_met := IncLaunchFailures (bp_met st1)\<rparr>"
    using assms(1-4) unfolding browserLocked_def st1_def [symmetric] by (auto simp: Let_def split: if_splits)
  have "launch_backoff (int n + 1) = min (30 * Second) (2 ^ n * Second)"
  proof (cases "n \<le> 5")
    case True
    then show ?thesis by (auto simp: launch_backoff_def maxLaunchBackoff_def Let_def min_def Second_def nat_le_iff)
  next
    case False
    have "(2 :: int) ^ 5 \<le> 2 ^ n" using False by (intro power_increasing) auto
    then show ?thesis using False by (simp add: launch_backoff_def maxLaunchBackoff_def Let_def min_def Second_def)
  qed
  then show ?thesis
    using assms(2,3) st1 by (auto simp: st' browserLocked_def IsConnected_def)
qed

theorem launch_backoff_schedule_witness:
  "nextLaunch (snd (browserLocked (\<lambda>i. 7) (Some ErrFetcherClosed) ((new_pool None)\<lparr>launchFailures := 2\<rparr>))) = 7 + 4 * Second"
proof -
  obtain r st' where b: "browserLocked (\<lambda>i. 7) (Some ErrFetcherClosed) ((new_pool None)\<lparr>launchFailures := 2\<rparr>) = (r, st')" by force
  from launch_backoff_schedule [OF b, of 2] b show ?thesis by (simp add: new_pool_def Second_def)
qed

end
