(* ===== verification/Browser_Render.thy ===== *)
theory Browser_Render
  imports Browser_Pool
begin

text \<open>
  Rendering one page in a browser session, \<open>render\<close> of \<open>internal/fetcher/playwright.go\<close>: the
  navigation, the consent step, the checks for block pages and statuses, and the selector to wait
  for. What the page does is the record \<open>page_ops\<close>, on a world \<open>'w\<close> that holds the page's state;
  a response may be nil, and a header that cannot be read is \<open>None\<close>.
\<close>

subsection \<open>Parameters\<close>

type_synonym nav_response = "(int \<times> (string \<Rightarrow> string option)) option"

record 'w page_ops =
  po_Goto :: "string \<Rightarrow> duration \<Rightarrow> 'w \<Rightarrow> (go_error + nav_response) \<times> 'w"
  po_Content :: "'w \<Rightarrow> go_error + string"
  po_URL :: "'w \<Rightarrow> string"
  po_RejectButtons :: "'w \<Rightarrow> nat option"
  po_ClickReject :: "duration \<Rightarrow> 'w \<Rightarrow> (go_error + nav_response) \<times> 'w"
  po_WaitForSelector :: "string \<Rightarrow> duration \<Rightarrow> 'w \<Rightarrow> go_error option \<times> 'w"
  po_Now :: "'w \<Rightarrow> instant"
  po_ErrorText :: "go_error \<Rightarrow> string"
  po_ParseTime :: "string \<Rightarrow> instant option"
  po_Query :: "url \<Rightarrow> form_values"
  po_String :: "url \<Rightarrow> string"

subsection \<open>Steps of a rendering\<close>

definition searchURL :: "'d page_api \<Rightarrow> 'w page_ops \<Rightarrow> string \<Rightarrow> request \<Rightarrow> go_error + string" where
  "searchURL pa ops endpoint req = (case pa_Parse pa endpoint of
       None \<Rightarrow> Inl (Wrapped ''playwright fetcher: invalid endpoint'' (ErrorString ''parse''))
     | Some u \<Rightarrow>
         (let q = values_Set ''q'' (Query req) (po_Query ops u);
              q = (if Country req \<noteq> '''' then values_Set ''gl'' (Country req) q else q);
              q = (if Language req \<noteq> '''' then values_Set ''hl'' (Language req) q else q)
          in Inr (po_String ops (u\<lparr>RawQuery := Encode q\<rparr>))))"

definition navigationError :: "'w page_ops \<Rightarrow> go_error \<Rightarrow> browser \<Rightarrow> go_error \<times> browser" where
  "navigationError ops err met =
     (if errors_Is err PlaywrightTimeout
      then (Wrapped ''playwright fetcher: navigation timed out'' err, IncNavigationTimeouts met)
      else if Contains (po_ErrorText ops err) ''net::ERR_''
      then (TransportError (Wrapped ''playwright fetcher: navigation failed'' err), met)
      else (Wrapped ''playwright fetcher: navigation failed'' err, met))"

definition render_classify :: "'d page_api \<Rightarrow> playwright_config \<Rightarrow> string \<Rightarrow> int \<Rightarrow> string \<Rightarrow> pageKind" where
  "render_classify pa cfg pageURL status html =
     (if pc_Generic cfg then classifyGenericPage pa pageURL status html else classifyPage pa pageURL html)"

text \<open>\<open>remainingMS\<close>, in milliseconds and at least one.\<close>

definition remainingMS :: "'w page_ops \<Rightarrow> instant \<Rightarrow> 'w \<Rightarrow> duration" where
  "remainingMS ops deadline w =
     (let d = deadline - po_Now ops w;
          ms = (if 0 \<le> d then d div Millisecond else - (- d div Millisecond))
      in if ms < 1 then 1 else ms)"

definition submitRejectConsent :: "'w page_ops \<Rightarrow> duration \<Rightarrow> 'w \<Rightarrow> (go_error + nav_response option) \<times> 'w" where
  "submitRejectConsent ops timeout w =
     (if po_RejectButtons ops w = None \<or> po_RejectButtons ops w = Some 0 then (Inr None, w)
      else case po_ClickReject ops timeout w of
          (Inl e, w) \<Rightarrow> (Inl e, w)
        | (Inr resp, w) \<Rightarrow> (Inr (Some resp), w))"

definition nav_status :: "nav_response \<Rightarrow> int" where
  "nav_status resp = (case resp of None \<Rightarrow> 0 | Some (status, _) \<Rightarrow> status)"

definition nav_header :: "nav_response \<Rightarrow> string \<Rightarrow> string" where
  "nav_header resp h = (case resp of None \<Rightarrow> '''' | Some (_, hdr) \<Rightarrow> (case hdr h of None \<Rightarrow> '''' | Some v \<Rightarrow> v))"

definition content_error :: "go_error \<Rightarrow> go_error" where
  "content_error e = Wrapped ''playwright fetcher: read page content'' e"

text \<open>From the classified page to the result.\<close>

definition render_finish :: "'w page_ops \<Rightarrow> playwright_config \<Rightarrow> request \<Rightarrow> instant \<Rightarrow> string \<Rightarrow> nav_response \<Rightarrow> string \<Rightarrow>
    pageKind \<Rightarrow> 'w \<Rightarrow> browser \<Rightarrow> (go_error + response) \<times> 'w \<times> browser" where
  "render_finish ops cfg req start contentType resp html kind w met =
     (let status = nav_status resp in
      case blockedErrorFor kind (po_URL ops w) status html of
        Some b \<Rightarrow> (Inl (BlockedError b), w, IncBlocked (Reason b) met)
      | None \<Rightarrow>
          if status = 429 then
            (Inl (RateLimitError \<lparr>rl_StatusCode = status,
               RetryAfter = fst (parseRetryAfter (po_ParseTime ops) (po_Now ops w) (nav_header resp ''retry-after'')),
               rl_Body = Fetch_Outcome.truncate html 512\<rparr>), w, met)
          else if 400 \<le> status then (Inl (StatusError status), w, met)
          else (let sel = (if WaitSelector req \<noteq> '''' then WaitSelector req else pc_WaitSelector cfg);
                    (html, w) =
                      (if sel = '''' then (Inr html, w)
                       else case po_WaitForSelector ops sel (remainingMS ops (start + pc_Timeout cfg) w) w of
                           (Some e, w) \<Rightarrow> (Inr html, w)
                         | (None, w) \<Rightarrow> (po_Content ops w, w))
                in case html of
                     Inl e \<Rightarrow> (Inl (content_error e), w, met)
                   | Inr html \<Rightarrow>
                       (Inr \<lparr>StatusCode = (if status = 0 then 200 else status), Body = take maxBodyBytes html,
                          Latency = po_Now ops w - start, ContentType = contentType, FinalURL = po_URL ops w\<rparr>, w, met)))"

definition render_page :: "'d page_api \<Rightarrow> 'w page_ops \<Rightarrow> playwright_config \<Rightarrow> request \<Rightarrow> instant \<Rightarrow> string \<Rightarrow> 'w \<Rightarrow> browser \<Rightarrow>
    (go_error + response) \<times> 'w \<times> browser" where
  "render_page pa ops cfg req start target w met =
     (case po_Goto ops target (remainingMS ops (start + pc_Timeout cfg) w) w of
        (Inl e, w) \<Rightarrow> (let (e, met) = navigationError ops e met in (Inl e, w, met))
      | (Inr resp, w) \<Rightarrow>
          (case po_Content ops w of
             Inl e \<Rightarrow> (Inl (content_error e), w, met)
           | Inr html \<Rightarrow>
               (let contentType = nav_header resp ''content-type'';
                    kind = render_classify pa cfg (po_URL ops w) (nav_status resp) html
                in if kind \<noteq> pageConsent then render_finish ops cfg req start contentType resp html kind w met
                   else case submitRejectConsent ops (remainingMS ops (start + pc_Timeout cfg) w) w of
                       (Inl e, w) \<Rightarrow> (let (e, met) = navigationError ops e met in (Inl e, w, met))
                     | (Inr None, w) \<Rightarrow>
                         (Inl (BlockedError (the (blockedErrorFor pageConsent (po_URL ops w) (nav_status resp) html))), w,
                          IncBlocked ''consent'' met)
                     | (Inr (Some resp), w) \<Rightarrow>
                         (let met = IncConsentHandled met in
                          case po_Content ops w of
                            Inl e \<Rightarrow> (Inl (content_error e), w, met)
                          | Inr html \<Rightarrow>
                              render_finish ops cfg req start contentType resp html
                                (render_classify pa cfg (po_URL ops w) (nav_status resp) html) w met))))"

definition render :: "'d page_api \<Rightarrow> 'w page_ops \<Rightarrow> playwright_config \<Rightarrow> request \<Rightarrow> 'w \<Rightarrow> browser \<Rightarrow>
    (go_error + response) \<times> 'w \<times> browser" where
  "render pa ops cfg req w met =
     (let start = po_Now ops w in
      if req_URL req \<noteq> '''' then render_page pa ops cfg req start (req_URL req) w met
      else if pc_Endpoint cfg = ''''
      then (Inl (ErrorString ''playwright fetcher: request has no URL and the fetcher no endpoint''), w, met)
      else case searchURL pa ops (pc_Endpoint cfg) req of
          Inl e \<Rightarrow> (Inl e, w, met)
        | Inr target \<Rightarrow> render_page pa ops cfg req start target w met)"


subsection \<open>What a rendering reports\<close>

definition well_reported :: "'d page_api \<Rightarrow> 'w page_ops \<Rightarrow> playwright_config \<Rightarrow> browser \<Rightarrow>
    (go_error + response) \<times> 'w \<times> browser \<Rightarrow> bool" where
  "well_reported pa ops cfg met r \<longleftrightarrow>
     (\<forall>resp. fst r = Inr resp \<longrightarrow> StatusCode resp < 400 \<and> length (Body resp) \<le> maxBodyBytes \<and> snd (snd r) = met \<and>
        (\<exists>w1 status html. po_Content ops w1 = Inr html \<and> render_classify pa cfg (po_URL ops w1) status html = pageNormal)) \<and>
     (\<forall>b. fst r = Inl (BlockedError b) \<longrightarrow> snd (snd r) = IncBlocked (Reason b) met)"

lemma blockedErrorFor_None: "blockedErrorFor kind u st body = None \<longleftrightarrow> kind = pageNormal"
  by (cases kind) (simp_all add: blockedErrorFor_def block_reason_def)

lemma render_finish_reports:
  assumes "po_Content ops w = Inr html" "kind = render_classify pa cfg (po_URL ops w) (nav_status resp) html"
  shows "well_reported pa ops cfg met (render_finish ops cfg req start ct resp html kind w met)"
proof (cases "blockedErrorFor kind (po_URL ops w) (nav_status resp) html")
  case (Some b)
  then show ?thesis by (simp add: render_finish_def well_reported_def Let_def)
next
  case None
  then have normal: "render_classify pa cfg (po_URL ops w) (nav_status resp) html = pageNormal"
    using assms(2) by (simp add: blockedErrorFor_None)
  then have "\<exists>w1 status html. po_Content ops w1 = Inr html \<and> render_classify pa cfg (po_URL ops w1) status html = pageNormal"
    using assms(1) by blast
  then show ?thesis
    using None
    by (auto simp: render_finish_def well_reported_def content_error_def Let_def case_prod_unfold
        split: if_splits option.splits sum.splits)
qed

lemma navigationError_shape: "fst (navigationError ops e met) \<noteq> BlockedError b"
  by (simp add: navigationError_def)

lemma render_page_reports:
  "well_reported pa ops cfg met (render_page pa ops cfg req start target w met) \<or>
   well_reported pa ops cfg (IncConsentHandled met) (render_page pa ops cfg req start target w met)"
proof -
  obtain r1 w1 where g: "po_Goto ops target (remainingMS ops (start + pc_Timeout cfg) w) w = (r1, w1)" by force
  show ?thesis
  proof (cases r1)
    case (Inl e)
    then show ?thesis
      using navigationError_shape [of ops e met] by (simp add: render_page_def g well_reported_def case_prod_unfold Let_def)
  next
    case (Inr resp)
    show ?thesis
    proof (cases "po_Content ops w1")
      case (Inl e)
      then show ?thesis using Inr by (simp add: render_page_def g well_reported_def content_error_def)
    next
      case html: (Inr html)
      let ?kind = "render_classify pa cfg (po_URL ops w1) (nav_status resp) html"
      show ?thesis
      proof (cases "?kind = pageConsent")
        case False
        then show ?thesis using Inr html by (simp add: render_page_def g Let_def render_finish_reports [OF html refl])
      next
        case True
        obtain r2 w2 where c: "submitRejectConsent ops (remainingMS ops (start + pc_Timeout cfg) w1) w1 = (r2, w2)" by force
        consider e where "r2 = Inl e" | "r2 = Inr None" | resp2 where "r2 = Inr (Some resp2)"
          by (metis not_None_eq old.sum.exhaust)
        then show ?thesis
        proof cases
          case (1 e)
          then show ?thesis using Inr html True c navigationError_shape [of ops e met]
            by (simp add: render_page_def g well_reported_def case_prod_unfold Let_def)
        next
          case 2
          then show ?thesis using Inr html True c
            by (simp add: render_page_def g well_reported_def blockedErrorFor_def block_reason_def Let_def)
        next
          case (3 resp2)
          then show ?thesis
          proof (cases "po_Content ops w2")
            case (Inl e)
            then show ?thesis using Inr html True c 3 by (simp add: render_page_def g well_reported_def content_error_def)
          next
            case html2: (Inr html2)
            then show ?thesis using Inr html True c 3
              by (simp add: render_page_def g Let_def render_finish_reports [OF html2 refl])
          qed
        qed
      qed
    qed
  qed
qed


text \<open>A page for the witness: the world is the text of the page, and a captcha is recognised.\<close>

definition toy_page :: "string page_ops" where
  "toy_page = \<lparr>po_Goto = (\<lambda>t d w. (Inr (Some (200, \<lambda>h. None)), w)), po_Content = Inr, po_URL = (\<lambda>w. ''u''),
     po_RejectButtons = (\<lambda>w. None), po_ClickReject = (\<lambda>d w. (Inr None, w)), po_WaitForSelector = (\<lambda>s d w. (None, w)),
     po_Now = (\<lambda>w. 0), po_ErrorText = (\<lambda>e. ''''), po_ParseTime = (\<lambda>s. None), po_Query = (\<lambda>u. []), po_String = Path\<rparr>"

definition visit_u :: request where
  "visit_u = (ask '''')\<lparr>req_URL := ''u''\<rparr>"

lemma toy_render_evals:
  "fst (render plain_page_api toy_page two_slots visit_u ''hello'' (Some zero_browser)) =
     Inr \<lparr>StatusCode = 200, Body = ''hello'', Latency = 0, ContentType = '''', FinalURL = ''u''\<rparr>"
  "\<exists>b. fst (render plain_page_api toy_page two_slots visit_u ''captcha'' (Some zero_browser)) = Inl (BlockedError b) \<and> Reason b = ''captcha''"
  by (simp_all add: render_def render_page_def render_finish_def toy_page_def visit_u_def ask_def two_slots_def
      render_classify_def classifyPage_def plain_page_api_def nav_status_def nav_header_def blockedErrorFor_def block_reason_def
      maxBodyBytes_def captcha_selector_def HasPrefix_def Let_def)


end
