(* ===== verification/Browser_Session.thy ===== *)
theory Browser_Session
  imports Browser_Pool
begin

text \<open>
  Opening a browser session, \<open>newSession\<close> and \<open>proxySettings\<close> of
  \<open>internal/fetcher/playwright.go\<close>: the options of the browser context a request asks for, and the
  three calls of the driver that may fail. The pool hands a session to every request with the same
  \<open>sessionKey\<close>; the theorem here is that such requests ask for the same context, proxy included.
\<close>

subsection \<open>Context options\<close>

text \<open>What \<open>url.Parse\<close> gives of a proxy URL: scheme, host and user, the latter with an optional password.\<close>

record proxy_url =
  px_Scheme :: string
  px_Host :: string
  px_User :: "(string \<times> string option) option"

record proxy_options =
  Server :: string
  Username :: "string option"
  Password :: "string option"

definition proxySettings :: "(string \<Rightarrow> proxy_url option) \<Rightarrow> string \<Rightarrow> go_error + proxy_options" where
  "proxySettings parse proxyURL = (case parse proxyURL of
       None \<Rightarrow> Inl (ErrorString ''playwright fetcher: invalid proxy url'')
     | Some u \<Rightarrow>
         if px_Host u = '''' then Inl (ErrorString ''playwright fetcher: invalid proxy url'')
         else Inr \<lparr>Server = px_Scheme u @ ''://'' @ px_Host u, Username = map_option fst (px_User u),
                Password = Option.bind (px_User u) snd\<rparr>)"

record context_options =
  Viewport :: "int \<times> int"
  IsMobile :: bool
  HasTouch :: bool
  DeviceScaleFactor :: rat
  co_UserAgent :: "string option"
  co_Locale :: "string option"
  Proxy :: "proxy_options option"

definition set_if :: "string \<Rightarrow> string option" where
  "set_if s = (if s \<noteq> '''' then Some s else None)"

definition context_options :: "(string \<Rightarrow> proxy_url option) \<Rightarrow> request \<Rightarrow> go_error + context_options" where
  "context_options parse req =
     (let d = deviceProfileFor (Device req);
          opts = \<lparr>Viewport = (dp_width d, dp_height d), IsMobile = dp_mobile d, HasTouch = dp_touch d,
                  DeviceScaleFactor = dp_scale d, co_UserAgent = set_if (UserAgent req),
                  co_Locale = set_if (localeTag (Language req) (Country req)), Proxy = None\<rparr>
      in if ProxyURL req = '''' then Inr opts
         else case proxySettings parse (ProxyURL req) of
             Inl e \<Rightarrow> Inl e
           | Inr p \<Rightarrow> Inr (opts\<lparr>Proxy := Some p\<rparr>))"

subsection \<open>Opening\<close>

text \<open>
  The driver on a world \<open>'w\<close>: a context is a number, and \<open>dr_Live\<close> reads the open ones.
\<close>

record 'w driver_ops =
  dr_NewContext :: "context_options \<Rightarrow> 'w \<Rightarrow> (go_error + nat) \<times> 'w"
  dr_AddConsentCookie :: "nat \<Rightarrow> string \<Rightarrow> 'w \<Rightarrow> go_error option \<times> 'w"
  dr_NewPage :: "nat \<Rightarrow> 'w \<Rightarrow> (go_error + nat) \<times> 'w"
  dr_Close :: "nat \<Rightarrow> 'w \<Rightarrow> 'w"
  dr_Live :: "'w \<Rightarrow> nat list"

definition open_session :: "(string \<Rightarrow> proxy_url option) \<Rightarrow> 'w driver_ops \<Rightarrow> playwright_config \<Rightarrow> request \<Rightarrow> 'w \<Rightarrow>
    (go_error + nat \<times> nat) \<times> 'w" where
  "open_session parse ops cfg req w = (case context_options parse req of
       Inl e \<Rightarrow> (Inl e, w)
     | Inr opts \<Rightarrow>
         (case dr_NewContext ops opts w of
            (Inl e, w) \<Rightarrow> (Inl (Wrapped ''playwright fetcher: new browser context'' e), w)
          | (Inr c, w) \<Rightarrow>
              (case (if \<not> pc_Generic cfg \<and> pc_Endpoint cfg \<noteq> '''' then dr_AddConsentCookie ops c (pc_Endpoint cfg) w else (None, w)) of
                 (Some e, w) \<Rightarrow> (Inl (Wrapped ''playwright fetcher: seed consent cookie'' e), dr_Close ops c w)
               | (None, w) \<Rightarrow>
                   (case dr_NewPage ops c w of
                      (Inl e, w) \<Rightarrow> (Inl (Wrapped ''playwright fetcher: new page'' e), dr_Close ops c w)
                    | (Inr page, w) \<Rightarrow> (Inr (c, page), w)))))"

definition driver_laws :: "'w driver_ops \<Rightarrow> bool" where
  "driver_laws ops \<longleftrightarrow>
     (\<forall>opts w. case dr_NewContext ops opts w of
        (Inl _, w') \<Rightarrow> dr_Live ops w' = dr_Live ops w
      | (Inr c, w') \<Rightarrow> c \<notin> set (dr_Live ops w) \<and> dr_Live ops w' = c # dr_Live ops w) \<and>
     (\<forall>c endpoint w. dr_Live ops (snd (dr_AddConsentCookie ops c endpoint w)) = dr_Live ops w) \<and>
     (\<forall>c w. dr_Live ops (snd (dr_NewPage ops c w)) = dr_Live ops w) \<and>
     (\<forall>c w. dr_Live ops (dr_Close ops c w) = removeAll c (dr_Live ops w))"

subsection \<open>Properties\<close>

text \<open>A session that could not be opened leaves no browser context behind.\<close>

lemma open_session_live:
  assumes "driver_laws ops" "open_session parse ops cfg req w = (r, w')"
  shows "case r of Inl _ \<Rightarrow> dr_Live ops w' = dr_Live ops w | Inr (c, _) \<Rightarrow> dr_Live ops w' = c # dr_Live ops w"
proof (cases "context_options parse req")
  case (Inl e)
  then show ?thesis using assms(2) by (auto simp: open_session_def)
next
  case opts: (Inr opts)
  obtain n w1 where n: "dr_NewContext ops opts w = (n, w1)" by fastforce
  have new: "case n of Inl _ \<Rightarrow> dr_Live ops w1 = dr_Live ops w
      | Inr c \<Rightarrow> c \<notin> set (dr_Live ops w) \<and> dr_Live ops w1 = c # dr_Live ops w"
    using assms(1) [unfolded driver_laws_def, THEN conjunct1, THEN spec, THEN spec, of w opts] by (simp add: n split: sum.splits)
  have keeps: "dr_Live ops (snd (dr_AddConsentCookie ops c u v)) = dr_Live ops v"
    "dr_Live ops (snd (dr_NewPage ops c v)) = dr_Live ops v" "dr_Live ops (dr_Close ops c v) = removeAll c (dr_Live ops v)" for c u v
    using assms(1) by (simp_all add: driver_laws_def)
  show ?thesis
  proof (cases n)
    case (Inl e)
    then show ?thesis using assms(2) opts n new by (auto simp: open_session_def)
  next
    case (Inr c)
    obtain k w2 where k: "(if \<not> pc_Generic cfg \<and> pc_Endpoint cfg \<noteq> '''' then dr_AddConsentCookie ops c (pc_Endpoint cfg) w1 else (None, w1)) = (k, w2)"
      by fastforce
    have live2: "dr_Live ops w2 = c # dr_Live ops w" "c \<notin> set (dr_Live ops w)"
      using k keeps(1) [of c "pc_Endpoint cfg" w1] new Inr by (auto split: if_splits)
    obtain p w3 where p: "dr_NewPage ops c w2 = (p, w3)" by fastforce
    have "dr_Live ops w3 = c # dr_Live ops w" using keeps(2) [of c w2] p live2 by simp
    then show ?thesis using assms(2) opts n Inr k p live2 keeps(3)
      by (cases k; cases p) (auto simp: open_session_def)
  qed
qed

lemma split_at_first:
  "c \<notin> set a \<Longrightarrow> c \<notin> set b \<Longrightarrow> a @ c # x = b @ c # y \<Longrightarrow> a = b \<and> x = y"
proof (induction a arbitrary: b)
  case Nil
  then show ?case by (cases b) auto
next
  case (Cons z a)
  then show ?case by (cases b) auto
qed

lemma split_at_last:
  assumes "c \<notin> set x" "c \<notin> set y" "a @ c # x = b @ c # y"
  shows "a = b \<and> x = y"
  using split_at_first [of c "rev x" "rev y" "rev a" "rev b"] assms(1,2) arg_cong [OF assms(3), of rev] by simp

lemma device_name_determines:
  "dp_name (deviceProfileFor a) = dp_name (deviceProfileFor b) \<Longrightarrow> deviceProfileFor a = deviceProfileFor b"
  by (auto simp: deviceProfileFor_def split: if_splits)

lemma device_name_plain: "CHR 0x00 \<notin> set (dp_name (deviceProfileFor d))"
  by (simp add: deviceProfileFor_def)

text \<open>
  C35. Reuse by key is sound. Two requests with the same session key ask for the same browser
  context, the same proxy and credentials included, provided proxy URL and User-Agent hold no NUL
  byte; so a session taken from the pool never shows a request under another egress, locale, device
  or User-Agent than its own.
\<close>

theorem session_key_sound:
  assumes "CHR 0x00 \<notin> set (ProxyURL r1) \<union> set (UserAgent r1) \<union> set (ProxyURL r2) \<union> set (UserAgent r2)"
    and "sessionKey r1 = sessionKey r2"
  shows "context_options parse r1 = context_options parse r2"
proof -
  let ?tag = "\<lambda>r. localeTag (Language r) (Country r)" and ?dev = "\<lambda>r. dp_name (deviceProfileFor (Device r))"
  let ?rest = "\<lambda>r. ?tag r @ CHR 0x00 # ?dev r"
  have "ProxyURL r1 @ CHR 0x00 # UserAgent r1 @ CHR 0x00 # ?rest r1 = ProxyURL r2 @ CHR 0x00 # UserAgent r2 @ CHR 0x00 # ?rest r2"
    using assms(2) by (simp add: sessionKey_def)
  then have px: "ProxyURL r1 = ProxyURL r2" and "UserAgent r1 @ CHR 0x00 # ?rest r1 = UserAgent r2 @ CHR 0x00 # ?rest r2"
    using split_at_first [of "CHR 0x00" "ProxyURL r1" "ProxyURL r2"] assms(1) by auto
  then have ua: "UserAgent r1 = UserAgent r2" and "?rest r1 = ?rest r2"
    using split_at_first [of "CHR 0x00" "UserAgent r1" "UserAgent r2"] assms(1) by auto
  then have tag: "?tag r1 = ?tag r2" and dev: "deviceProfileFor (Device r1) = deviceProfileFor (Device r2)"
    using split_at_last [OF device_name_plain device_name_plain] device_name_determines by blast+
  show ?thesis unfolding context_options_def px ua tag dev ..
qed

definition ask_as :: "string \<Rightarrow> string \<Rightarrow> string \<Rightarrow> request" where
  "ask_as country device query = \<lparr>Query = query, req_URL = '''', UserAgent = ''ua'', ProxyURL = ''http://p:1'', Country = country,
     Language = ''en'', Device = device, WaitSelector = ''''\<rparr>"

definition one_proxy :: "string \<Rightarrow> proxy_url option" where
  "one_proxy u = Some \<lparr>px_Scheme = ''http'', px_Host = ''p:1'', px_User = Some (''me'', None)\<rparr>"

theorem session_key_sound_witness:
  "sessionKey (ask_as ''us'' ''phone'' ''a'') = sessionKey (ask_as ''US'' ''desktop'' ''b'') \<and>
   context_options one_proxy (ask_as ''us'' ''phone'' ''a'') = context_options one_proxy (ask_as ''US'' ''desktop'' ''b'')"
proof -
  have key: "sessionKey (ask_as ''us'' ''phone'' ''a'') = sessionKey (ask_as ''US'' ''desktop'' ''b'')" by code_simp
  have "CHR 0x00 \<notin> set (ProxyURL (ask_as c d q)) \<union> set (UserAgent (ask_as c d q))" for c d q by (simp add: ask_as_def)
  then show ?thesis using session_key_sound [OF _ key, of one_proxy] key by blast
qed

end
