(* ===== verification/Job_Queue.thy ===== *)
theory Job_Queue
  imports Worker_Pool "HOL-Library.Multiset"
begin

text \<open>
  The job sources of \<open>internal/queue\<close>: the in-memory source of \<open>queue.go\<close>, and the Redis stream of
  \<open>redis_stream.go\<close> that many consumers share. The goroutines of \<open>Jobs\<close> are step relations. Redis
  is outside: its commands are the record \<open>redis_ops\<close> on a server state \<open>'r\<close>, and the documented
  behaviour of streams and consumer groups that the code relies on is the predicate \<open>redis_laws\<close>
  over three views of the server: the entries of the stream, those not yet delivered to the group
  and the group's pending ones.

  The interface \<open>queue.Producer\<close> is the locale \<open>producer\<close>, interpreted on \<open>PushJob\<close>.
\<close>

subsection \<open>The in-memory source\<close>

definition query_job :: "string \<Rightarrow> job" where
  "query_job q = \<lparr>job_Query = q, job_RunID = '''', job_Locale = '''', job_Device = ''''\<rparr>"

record memory_source =
  ms_left :: "string list"
  ms_buffer :: nat
  ms_chan :: "job list"
  ms_received :: "job list"
  ms_closed :: bool
  ms_ctxDone :: bool

text \<open>
  \<open>hand\<close> is a send that meets a waiting receiver, the only send an unbuffered channel has.
\<close>

inductive memory_step :: "memory_source \<Rightarrow> memory_source \<Rightarrow> bool" where
  send: "\<not> ms_closed s \<Longrightarrow> ms_left s = q # qs \<Longrightarrow> length (ms_chan s) < ms_buffer s \<Longrightarrow>
    memory_step s (s\<lparr>ms_left := qs, ms_chan := ms_chan s @ [query_job q]\<rparr>)"
| hand: "\<not> ms_closed s \<Longrightarrow> ms_left s = q # qs \<Longrightarrow> ms_chan s = [] \<Longrightarrow>
    memory_step s (s\<lparr>ms_left := qs, ms_received := ms_received s @ [query_job q]\<rparr>)"
| receive: "ms_chan s = j # js \<Longrightarrow> memory_step s (s\<lparr>ms_chan := js, ms_received := ms_received s @ [j]\<rparr>)"
| finish: "\<not> ms_closed s \<Longrightarrow> ms_left s = [] \<Longrightarrow> memory_step s (s\<lparr>ms_closed := True\<rparr>)"
| stop: "\<not> ms_closed s \<Longrightarrow> ms_left s \<noteq> [] \<Longrightarrow> ms_ctxDone s \<Longrightarrow> memory_step s (s\<lparr>ms_closed := True\<rparr>)"
| cancel: "memory_step s (s\<lparr>ms_ctxDone := True\<rparr>)"

inductive_cases memory_stepE: "memory_step s t"

definition memory_Jobs :: "string list \<Rightarrow> nat \<Rightarrow> memory_source" where
  "memory_Jobs queries buffer = \<lparr>ms_left = queries, ms_buffer = buffer, ms_chan = [], ms_received = [],
     ms_closed = False, ms_ctxDone = False\<rparr>"

definition memory_inv :: "string list \<Rightarrow> nat \<Rightarrow> memory_source \<Rightarrow> bool" where
  "memory_inv qs n s \<longleftrightarrow> ms_received s @ ms_chan s @ map query_job (ms_left s) = map query_job qs \<and>
     ms_buffer s = n \<and> length (ms_chan s) \<le> n \<and> (ms_closed s \<longrightarrow> ms_left s = [] \<or> ms_ctxDone s)"

interpretation memory: invariant_system "\<lambda>s. s = memory_Jobs qs n" memory_step "memory_inv qs n" for qs n
  by unfold_locales (auto simp: memory_inv_def memory_Jobs_def elim!: memory_stepE)

text \<open>The receiver gets the queries in order, without loss, all of them unless the context ended.\<close>

lemma memory_in_order:
  assumes "memory_step\<^sup>*\<^sup>* (memory_Jobs qs n) s"
  shows "(\<exists>rest. ms_received s @ rest = map query_job qs) \<and>
    (ms_closed s \<and> ms_chan s = [] \<and> \<not> ms_ctxDone s \<longrightarrow> ms_received s = map query_job qs)"
  using memory.inv_reach [OF refl assms] by (auto simp: memory_inv_def)

subsection \<open>Redis\<close>

type_synonym fields = "(string \<times> string) list"
type_synonym msg = "string \<times> fields"

record 'r redis_ops =
  rd_XGroupCreateMkStream :: "string \<Rightarrow> string \<Rightarrow> string \<Rightarrow> 'r \<Rightarrow> go_error option \<times> 'r"
  rd_XAdd :: "string \<Rightarrow> fields \<Rightarrow> 'r \<Rightarrow> go_error option \<times> 'r"
  rd_XReadGroup :: "string \<Rightarrow> string \<Rightarrow> string \<Rightarrow> nat \<Rightarrow> duration \<Rightarrow> 'r \<Rightarrow> (go_error + msg list list) \<times> 'r"
  rd_XAck :: "string \<Rightarrow> string \<Rightarrow> string \<Rightarrow> 'r \<Rightarrow> 'r"
  rd_Nil :: go_error
  rd_ErrorText :: "go_error \<Rightarrow> string"
  rd_Entries :: "string \<Rightarrow> 'r \<Rightarrow> msg list"
  rd_New :: "string \<Rightarrow> string \<Rightarrow> 'r \<Rightarrow> msg list"
  rd_Pending :: "string \<Rightarrow> string \<Rightarrow> 'r \<Rightarrow> msg list"

record redis_source =
  Stream :: string
  Group :: string
  BlockFor :: duration

text \<open>
  \<open>XADD\<close> appends one entry under a fresh id; a command that reports an error may still have been
  carried out. \<open>XREADGROUP\<close> with the id \<open>>\<close> delivers at most \<open>count\<close> of the new entries in order and
  makes them pending; after an error the reply may be lost. \<open>XACK\<close> takes an entry off the pending
  list, or fails, which the code ignores.
\<close>

definition appended :: "'r redis_ops \<Rightarrow> redis_source \<Rightarrow> fields \<Rightarrow> 'r \<Rightarrow> 'r \<Rightarrow> bool" where
  "appended ops src f r r' \<longleftrightarrow> (\<exists>i. i \<notin> fst ` set (rd_Entries ops (Stream src) r) \<and>
     rd_Entries ops (Stream src) r' = rd_Entries ops (Stream src) r @ [(i, f)] \<and>
     rd_New ops (Stream src) (Group src) r' = rd_New ops (Stream src) (Group src) r @ [(i, f)] \<and>
     rd_Pending ops (Stream src) (Group src) r' = rd_Pending ops (Stream src) (Group src) r)"

definition delivered :: "'r redis_ops \<Rightarrow> redis_source \<Rightarrow> nat \<Rightarrow> 'r \<Rightarrow> 'r \<Rightarrow> bool" where
  "delivered ops src k r r' \<longleftrightarrow>
     rd_Entries ops (Stream src) r' = rd_Entries ops (Stream src) r \<and>
     rd_New ops (Stream src) (Group src) r' = drop k (rd_New ops (Stream src) (Group src) r) \<and>
     rd_Pending ops (Stream src) (Group src) r' =
       rd_Pending ops (Stream src) (Group src) r @ take k (rd_New ops (Stream src) (Group src) r)"

definition acknowledged :: "'r redis_ops \<Rightarrow> redis_source \<Rightarrow> string \<Rightarrow> 'r \<Rightarrow> 'r \<Rightarrow> bool" where
  "acknowledged ops src i r r' \<longleftrightarrow>
     rd_Entries ops (Stream src) r' = rd_Entries ops (Stream src) r \<and>
     rd_New ops (Stream src) (Group src) r' = rd_New ops (Stream src) (Group src) r \<and>
     (rd_Pending ops (Stream src) (Group src) r' = filter (\<lambda>m. fst m \<noteq> i) (rd_Pending ops (Stream src) (Group src) r) \<or>
      rd_Pending ops (Stream src) (Group src) r' = rd_Pending ops (Stream src) (Group src) r)"

definition redis_laws :: "'r redis_ops \<Rightarrow> redis_source \<Rightarrow> bool" where
  "redis_laws ops src \<longleftrightarrow>
     (\<forall>f r r'. rd_XAdd ops (Stream src) f r = (None, r') \<longrightarrow> appended ops src f r r') \<and>
     (\<forall>f r e r'. rd_XAdd ops (Stream src) f r = (Some e, r') \<longrightarrow> delivered ops src 0 r r' \<or> appended ops src f r r') \<and>
     (\<forall>c n b r ms r'. rd_XReadGroup ops (Stream src) (Group src) c n b r = (Inr ms, r') \<longrightarrow>
        (\<exists>k\<le>n. concat ms = take k (rd_New ops (Stream src) (Group src) r) \<and> delivered ops src k r r')) \<and>
     (\<forall>c n b r e r'. rd_XReadGroup ops (Stream src) (Group src) c n b r = (Inl e, r') \<longrightarrow> (\<exists>k\<le>n. delivered ops src k r r')) \<and>
     (\<forall>i r. acknowledged ops src i r (rd_XAck ops (Stream src) (Group src) i r))"

subsection \<open>Producing\<close>

definition EnsureGroup :: "'r redis_ops \<Rightarrow> redis_source \<Rightarrow> 'r \<Rightarrow> go_error option \<times> 'r" where
  "EnsureGroup ops src r = (case rd_XGroupCreateMkStream ops (Stream src) (Group src) ''0'' r of
       (None, r) \<Rightarrow> (None, r)
     | (Some e, r) \<Rightarrow>
         if \<not> Contains (rd_ErrorText ops e) ''BUSYGROUP''
         then (Some (Wrapped ''queue: create consumer group'' e), r) else (None, r))"

definition job_fields :: "job \<Rightarrow> fields" where
  "job_fields j = [(''query'', job_Query j), (''run_id'', job_RunID j), (''locale'', job_Locale j), (''device'', job_Device j)]"

definition PushJob :: "'r redis_ops \<Rightarrow> redis_source \<Rightarrow> job \<Rightarrow> 'r \<Rightarrow> go_error option \<times> 'r" where
  "PushJob ops src j r = (case rd_XAdd ops (Stream src) (job_fields j) r of
       (None, r) \<Rightarrow> (None, r)
     | (Some e, r) \<Rightarrow> (Some (Wrapped ''queue: push job'' e), r))"

definition PushQuery :: "'r redis_ops \<Rightarrow> redis_source \<Rightarrow> string \<Rightarrow> 'r \<Rightarrow> go_error option \<times> 'r" where
  "PushQuery ops src query r = PushJob ops src (query_job query) r"

subsection \<open>Consuming\<close>

text \<open>A field that is missing reads as the empty string.\<close>

definition field :: "string \<Rightarrow> fields \<Rightarrow> string" where
  "field k f = (case map_of f k of None \<Rightarrow> '''' | Some v \<Rightarrow> v)"

definition msg_job :: "fields \<Rightarrow> job" where
  "msg_job f = \<lparr>job_Query = field ''query'' f, job_RunID = field ''run_id'' f, job_Locale = field ''locale'' f,
     job_Device = field ''device'' f\<rparr>"

definition jobs_block :: "redis_source \<Rightarrow> duration" where
  "jobs_block src = (if BlockFor src \<le> 0 then 2 * Second else BlockFor src)"

datatype jobs_pc = Reading | Backoff | Handing "msg list" | Acking string "msg list" | JobsDone

record consumer =
  co_name :: string
  co_pc :: jobs_pc
  co_ctxDone :: bool

record 'r stream_system =
  ss_redis :: 'r
  ss_consumers :: "consumer list"
  ss_handed :: "(string \<times> job) list"

definition set_consumer :: "nat \<Rightarrow> (consumer \<Rightarrow> consumer) \<Rightarrow> 'r stream_system \<Rightarrow> 'r stream_system" where
  "set_consumer i f s = s\<lparr>ss_consumers := (ss_consumers s)[i := f (ss_consumers s ! i)]\<rparr>"

definition goto_pc :: "nat \<Rightarrow> jobs_pc \<Rightarrow> 'r stream_system \<Rightarrow> 'r stream_system" where
  "goto_pc i pc s = set_consumer i (\<lambda>c. c\<lparr>co_pc := pc\<rparr>) s"

definition at_jobs :: "nat \<Rightarrow> 'r stream_system \<Rightarrow> jobs_pc \<Rightarrow> bool" where
  "at_jobs i s pc \<longleftrightarrow> i < length (ss_consumers s) \<and> co_pc (ss_consumers s ! i) = pc"

abbreviation ctx_done :: "nat \<Rightarrow> 'r stream_system \<Rightarrow> bool" where
  "ctx_done i s \<equiv> co_ctxDone (ss_consumers s ! i)"

text \<open>
  The goroutines of any number of consumers of one group, in any interleaving with each other and
  with producers. A context may end at any time, also between the check and the read.
\<close>

inductive jobs_step :: "'r redis_ops \<Rightarrow> redis_source \<Rightarrow> 'r stream_system \<Rightarrow> 'r stream_system \<Rightarrow> bool"
  for ops src where
  stop: "at_jobs i s Reading \<Longrightarrow> ctx_done i s \<Longrightarrow> jobs_step ops src s (goto_pc i JobsDone s)"
| read: "at_jobs i s Reading \<Longrightarrow>
    rd_XReadGroup ops (Stream src) (Group src) (co_name (ss_consumers s ! i)) 10 (jobs_block src) (ss_redis s) = (Inr ms, r) \<Longrightarrow>
    jobs_step ops src s (goto_pc i (Handing (concat ms)) (s\<lparr>ss_redis := r\<rparr>))"
| read_error: "at_jobs i s Reading \<Longrightarrow>
    rd_XReadGroup ops (Stream src) (Group src) (co_name (ss_consumers s ! i)) 10 (jobs_block src) (ss_redis s) = (Inl e, r) \<Longrightarrow>
    jobs_step ops src s (goto_pc i (if errors_Is e (rd_Nil ops) \<or> ctx_done i s then Reading else Backoff) (s\<lparr>ss_redis := r\<rparr>))"
| backed_off: "at_jobs i s Backoff \<Longrightarrow> jobs_step ops src s (goto_pc i Reading s)"
| backoff_stop: "at_jobs i s Backoff \<Longrightarrow> ctx_done i s \<Longrightarrow> jobs_step ops src s (goto_pc i JobsDone s)"
| hand: "at_jobs i s (Handing (m # ms)) \<Longrightarrow>
    jobs_step ops src s (goto_pc i (Acking (fst m) ms) (s\<lparr>ss_handed := ss_handed s @ [(fst m, msg_job (snd m))]\<rparr>))"
| hand_stop: "at_jobs i s (Handing (m # ms)) \<Longrightarrow> ctx_done i s \<Longrightarrow> jobs_step ops src s (goto_pc i JobsDone s)"
| handed: "at_jobs i s (Handing []) \<Longrightarrow> jobs_step ops src s (goto_pc i Reading s)"
| ack: "at_jobs i s (Acking k ms) \<Longrightarrow>
    jobs_step ops src s (goto_pc i (Handing ms) (s\<lparr>ss_redis := rd_XAck ops (Stream src) (Group src) k (ss_redis s)\<rparr>))"
| cancel: "i < length (ss_consumers s) \<Longrightarrow> jobs_step ops src s (set_consumer i (\<lambda>c. c\<lparr>co_ctxDone := True\<rparr>) s)"
| push: "jobs_step ops src s (s\<lparr>ss_redis := snd (PushJob ops src j (ss_redis s))\<rparr>)"

inductive_cases jobs_stepE: "jobs_step ops src s t"

definition stream_start :: "'r \<Rightarrow> string list \<Rightarrow> 'r stream_system" where
  "stream_start r names = \<lparr>ss_redis = r,
     ss_consumers = map (\<lambda>n. \<lparr>co_name = n, co_pc = Reading, co_ctxDone = False\<rparr>) names, ss_handed = []\<rparr>"

subsection \<open>The interface to producers\<close>

text \<open>
  What \<open>queue.Producer\<close> promises its clients, the API and the scheduler: a job whose push succeeded
  is the last one queued; a push that failed added it or did nothing. \<open>lawful\<close> is what the
  implementation needs of the server behind it.
\<close>

locale producer =
  fixes lawful :: bool and push :: "job \<Rightarrow> 's \<Rightarrow> go_error option \<times> 's" and queued :: "'s \<Rightarrow> job list"
  assumes push_ok: "lawful \<Longrightarrow> push j s = (None, s') \<Longrightarrow> queued s' = queued s @ [j]"
    and push_failed: "lawful \<Longrightarrow> push j s = (Some e, s') \<Longrightarrow> queued s' = queued s \<or> queued s' = queued s @ [j]"

definition stream_jobs :: "'r redis_ops \<Rightarrow> redis_source \<Rightarrow> 'r \<Rightarrow> job list" where
  "stream_jobs ops src r = map (msg_job \<circ> snd) (rd_Entries ops (Stream src) r)"

lemma msg_job_fields [simp]: "msg_job (job_fields j) = j"
  by (simp add: msg_job_def job_fields_def field_def)

lemma redis_lawsD:
  assumes "redis_laws ops src"
  shows XAdd_ok: "rd_XAdd ops (Stream src) f r = (None, r') \<Longrightarrow> appended ops src f r r'"
    and XAdd_error: "rd_XAdd ops (Stream src) f r = (Some e, r') \<Longrightarrow> delivered ops src 0 r r' \<or> appended ops src f r r'"
    and XReadGroup_ok: "rd_XReadGroup ops (Stream src) (Group src) c n b r = (Inr ms, r') \<Longrightarrow>
      \<exists>k\<le>n. concat ms = take k (rd_New ops (Stream src) (Group src) r) \<and> delivered ops src k r r'"
    and XReadGroup_error: "rd_XReadGroup ops (Stream src) (Group src) c n b r = (Inl e, r') \<Longrightarrow> \<exists>k\<le>n. delivered ops src k r r'"
    and XAck: "acknowledged ops src i r (rd_XAck ops (Stream src) (Group src) i r)"
  using assms by (simp_all add: redis_laws_def)

lemma PushJob_appends:
  assumes "redis_laws ops src" "PushJob ops src j r = (e, r')"
  shows "appended ops src (job_fields j) r r' \<or> e \<noteq> None \<and> delivered ops src 0 r r'"
  using assms(2) XAdd_ok [OF assms(1), of "job_fields j" r] XAdd_error [OF assms(1), of "job_fields j" r]
  by (auto simp: PushJob_def split: prod.splits option.splits)

lemma stream_jobs_appended: "appended ops src f r r' \<Longrightarrow> stream_jobs ops src r' = stream_jobs ops src r @ [msg_job f]"
  by (auto simp: appended_def stream_jobs_def)

lemma stream_jobs_delivered: "delivered ops src k r r' \<Longrightarrow> stream_jobs ops src r' = stream_jobs ops src r"
  by (simp add: delivered_def stream_jobs_def)

interpretation redis: producer "redis_laws ops src" "PushJob ops src" "stream_jobs ops src" for ops src
  by unfold_locales (auto dest!: PushJob_appends stream_jobs_appended stream_jobs_delivered)

subsection \<open>Delivery\<close>

fun carried :: "jobs_pc \<Rightarrow> msg list" where
  "carried (Handing ms) = ms"
| "carried (Acking k ms) = ms"
| "carried _ = []"

definition in_flight :: "'r stream_system \<Rightarrow> msg multiset" where
  "in_flight s = sum_list (map (\<lambda>c. mset (carried (co_pc c))) (ss_consumers s))"

definition distinct_ids :: "msg list \<Rightarrow> bool" where
  "distinct_ids es \<longleftrightarrow> distinct (map fst es)"

lemma distinct_ids_snoc: "distinct_ids (es @ [(i, f)]) \<longleftrightarrow> distinct_ids es \<and> i \<notin> fst ` set es"
  by (auto simp: distinct_ids_def)

definition handed_ids :: "'r stream_system \<Rightarrow> string list" where
  "handed_ids s = map fst (ss_handed s)"

text \<open>
  \<open>D\<close> are the entries delivered to the group so far: those handed over and those a consumer still
  carries are among them, once each; an entry that is not pending any more has been handed over.
\<close>

definition delivery_ok :: "'r redis_ops \<Rightarrow> redis_source \<Rightarrow> msg list \<Rightarrow> 'r stream_system \<Rightarrow> bool" where
  "delivery_ok ops src D s \<longleftrightarrow>
     rd_Entries ops (Stream src) (ss_redis s) = D @ rd_New ops (Stream src) (Group src) (ss_redis s) \<and>
     distinct_ids (rd_Entries ops (Stream src) (ss_redis s)) \<and>
     mset (handed_ids s) + image_mset fst (in_flight s) \<subseteq># mset (map fst D) \<and>
     set_mset (in_flight s) \<subseteq> set D \<and>
     (\<forall>i k ms. at_jobs i s (Acking k ms) \<longrightarrow> k \<in> set (handed_ids s)) \<and>
     (\<forall>m\<in>set D. m \<in> set (rd_Pending ops (Stream src) (Group src) (ss_redis s)) \<or> fst m \<in> set (handed_ids s)) \<and>
     (\<forall>(k, j)\<in>set (ss_handed s). \<exists>f. (k, f) \<in> set D \<and> j = msg_job f)"

definition stream_inv :: "'r redis_ops \<Rightarrow> redis_source \<Rightarrow> 'r stream_system \<Rightarrow> bool" where
  "stream_inv ops src s \<longleftrightarrow> (\<exists>D. delivery_ok ops src D s)"

lemma in_flight_goto:
  assumes "at_jobs i s pc"
  shows "in_flight (goto_pc i pc' s) + mset (carried pc) = in_flight s + mset (carried pc')"
  using sum_list_map_update [of i "ss_consumers s" "\<lambda>c. mset (carried (co_pc c))" "(ss_consumers s ! i)\<lparr>co_pc := pc'\<rparr>"] assms
  by (simp add: in_flight_def goto_pc_def set_consumer_def at_jobs_def)

lemma at_jobs_goto: "at_jobs k (goto_pc i pc s) p \<Longrightarrow> k = i \<and> p = pc \<or> at_jobs k s p"
  by (cases "k = i") (auto simp: at_jobs_def goto_pc_def set_consumer_def)

lemma goto_pc_simps [simp]:
  "ss_redis (goto_pc i pc s) = ss_redis s" "ss_handed (goto_pc i pc s) = ss_handed s" "handed_ids (goto_pc i pc s) = handed_ids s"
  "at_jobs i (s\<lparr>ss_redis := r\<rparr>) = at_jobs i s" "in_flight (s\<lparr>ss_redis := r\<rparr>) = in_flight s" "handed_ids (s\<lparr>ss_redis := r\<rparr>) = handed_ids s"
  "at_jobs i (s\<lparr>ss_handed := h\<rparr>) = at_jobs i s" "in_flight (s\<lparr>ss_handed := h\<rparr>) = in_flight s" "handed_ids (s\<lparr>ss_handed := h\<rparr>) = map fst h"
  by (simp_all add: goto_pc_def set_consumer_def handed_ids_def in_flight_def at_jobs_def fun_eq_iff)

text \<open>A consumer that moves without taking messages: it may drop what it carries.\<close>

lemma delivery_goto:
  assumes "delivery_ok ops src D s" "at_jobs i s pc" "mset (carried pc') \<subseteq># mset (carried pc)"
    and "\<And>k ms. pc' = Acking k ms \<Longrightarrow> k \<in> set (handed_ids s)"
  shows "delivery_ok ops src D (goto_pc i pc' s)"
proof -
  have "in_flight (goto_pc i pc' s) + mset (carried pc) \<subseteq># in_flight s + mset (carried pc)"
    using in_flight_goto [OF assms(2), of pc'] assms(3) by simp
  then have fl: "in_flight (goto_pc i pc' s) \<subseteq># in_flight s" by simp
  then have "mset (handed_ids s) + image_mset fst (in_flight (goto_pc i pc' s)) \<subseteq># mset (handed_ids s) + image_mset fst (in_flight s)"
    by (simp add: image_mset_subseteq_mono)
  moreover have "set_mset (in_flight (goto_pc i pc' s)) \<subseteq> set_mset (in_flight s)" using fl by (rule set_mset_mono)
  moreover have "\<forall>a k ms. at_jobs a (goto_pc i pc' s) (Acking k ms) \<longrightarrow> k \<in> set (handed_ids s)"
    using assms(1,4) at_jobs_goto [of _ i pc' s] unfolding delivery_ok_def by metis
  ultimately show ?thesis using assms(1) unfolding delivery_ok_def goto_pc_simps
    by (meson subset_mset.order_trans subset_trans)
qed

text \<open>The four ways the server's state changes.\<close>

lemma delivery_delivered:
  assumes "delivery_ok ops src D s" "delivered ops src k (ss_redis s) r"
  shows "delivery_ok ops src (D @ take k (rd_New ops (Stream src) (Group src) (ss_redis s))) (s\<lparr>ss_redis := r\<rparr>)"
proof -
  have "mset (handed_ids s) + image_mset fst (in_flight s) \<subseteq># mset (map fst D) + X" for X
    using assms(1) unfolding delivery_ok_def by (simp add: subset_mset.add_increasing2)
  then show ?thesis using assms unfolding delivery_ok_def delivered_def goto_pc_simps by auto
qed

lemma delivery_read:
  assumes "delivery_ok ops src D s" "delivered ops src k (ss_redis s) r" "at_jobs i s Reading"
    and ms: "ms = take k (rd_New ops (Stream src) (Group src) (ss_redis s))"
  shows "delivery_ok ops src (D @ ms) (goto_pc i (Handing ms) (s\<lparr>ss_redis := r\<rparr>))"
proof -
  let ?s = "s\<lparr>ss_redis := r\<rparr>"
  have ok: "delivery_ok ops src (D @ ms) ?s" unfolding ms by (rule delivery_delivered [OF assms(1,2)])
  have fl: "in_flight (goto_pc i (Handing ms) ?s) = in_flight s + mset ms"
    using in_flight_goto [of i ?s Reading "Handing ms"] assms(3) by simp
  have "mset (handed_ids s) + image_mset fst (in_flight s) \<subseteq># mset (map fst D)" "set_mset (in_flight s) \<subseteq> set D"
    using assms(1) by (simp_all add: delivery_ok_def)
  then have "mset (handed_ids s) + image_mset fst (in_flight s + mset ms) \<subseteq># mset (map fst (D @ ms))"
    "set_mset (in_flight s + mset ms) \<subseteq> set (D @ ms)" by (auto simp: add.assoc [symmetric])
  moreover have "at_jobs a (goto_pc i (Handing ms) ?s) (Acking q l) \<Longrightarrow> at_jobs a s (Acking q l)" for a q l
    using at_jobs_goto [of a i "Handing ms" ?s] by auto
  ultimately show ?thesis using ok unfolding delivery_ok_def fl goto_pc_simps by blast
qed

lemma delivery_acknowledged:
  assumes "delivery_ok ops src D s" "acknowledged ops src k (ss_redis s) r" "k \<in> set (handed_ids s)"
  shows "delivery_ok ops src D (s\<lparr>ss_redis := r\<rparr>)"
  using assms unfolding delivery_ok_def acknowledged_def goto_pc_simps by auto

lemma delivery_appended:
  assumes "delivery_ok ops src D s" "appended ops src f (ss_redis s) r"
  shows "delivery_ok ops src D (s\<lparr>ss_redis := r\<rparr>)"
  using assms unfolding delivery_ok_def appended_def goto_pc_simps
  by (auto simp: distinct_ids_snoc simp flip: append_assoc)

lemma delivery_hand:
  assumes "delivery_ok ops src D s" "at_jobs i s (Handing (m # ms))"
  shows "delivery_ok ops src D (goto_pc i (Acking (fst m) ms) (s\<lparr>ss_handed := ss_handed s @ [(fst m, msg_job (snd m))]\<rparr>))"
    (is "delivery_ok ops src D ?t")
proof -
  let ?s = "s\<lparr>ss_handed := ss_handed s @ [(fst m, msg_job (snd m))]\<rparr>"
  have fl: "in_flight s = add_mset m (in_flight ?t)"
    using in_flight_goto [of i ?s "Handing (m # ms)" "Acking (fst m) ms"] assms(2) by simp
  have ids: "handed_ids ?t = handed_ids s @ [fst m]" and log: "ss_handed ?t = ss_handed s @ [(fst m, msg_job (snd m))]"
    and red: "ss_redis ?t = ss_redis s" by (simp_all add: handed_ids_def)
  note ok = assms(1) [unfolded delivery_ok_def fl]
  have "m \<in> set D" using ok by simp
  then have "\<exists>f. (fst m, f) \<in> set D \<and> msg_job (snd m) = msg_job f" by (metis prod.collapse)
  then have "\<forall>(k, j)\<in>set (ss_handed ?t). \<exists>f. (k, f) \<in> set D \<and> j = msg_job f" using ok by (simp add: log)
  moreover have "k \<in> set (handed_ids ?t)" if "at_jobs a ?t (Acking k l)" for a k l
  proof -
    have "Acking k l = Acking (fst m) ms \<or> at_jobs a s (Acking k l)" using at_jobs_goto [OF that] by (auto simp only: goto_pc_simps)
    moreover have "k \<in> set (handed_ids s)" if "at_jobs a s (Acking k l)" using that ok by blast
    ultimately show ?thesis unfolding ids by auto
  qed
  moreover have "mset (handed_ids ?t) + image_mset fst (in_flight ?t) \<subseteq># mset (map fst D)" unfolding ids using ok by simp
  moreover have "\<forall>q\<in>set D. q \<in> set (rd_Pending ops (Stream src) (Group src) (ss_redis s)) \<or> fst q \<in> set (handed_ids ?t)"
    unfolding ids using ok by auto
  moreover have "set_mset (in_flight ?t) \<subseteq> set D" using ok by simp
  ultimately show ?thesis using ok unfolding delivery_ok_def red by blast
qed

lemma delivery_cancel: "delivery_ok ops src D (set_consumer i (\<lambda>c. c\<lparr>co_ctxDone := b\<rparr>) s) = delivery_ok ops src D s"
proof -
  let ?t = "set_consumer i (\<lambda>c. c\<lparr>co_ctxDone := b\<rparr>) s"
  have pcs: "map co_pc (ss_consumers ?t) = map co_pc (ss_consumers s)"
    by (cases "i < length (ss_consumers s)") (simp_all add: set_consumer_def map_update list_update_same_conv list_update_beyond)
  have "in_flight ?t = in_flight s" using arg_cong [OF pcs, of "\<lambda>l. sum_list (map (\<lambda>p. mset (carried p)) l)"]
    by (simp add: in_flight_def comp_def)
  moreover have "at_jobs a ?t = at_jobs a s" for a
    using arg_cong [OF pcs, of length] arg_cong [OF pcs, of "\<lambda>l. l ! a"] by (auto simp: at_jobs_def fun_eq_iff)
  ultimately show ?thesis by (simp add: delivery_ok_def handed_ids_def set_consumer_def)
qed

lemma stream_inv_step:
  assumes laws: "redis_laws ops src" and inv: "stream_inv ops src s" and step: "jobs_step ops src s t"
  shows "stream_inv ops src t"
proof -
  obtain D where D: "delivery_ok ops src D s" using inv by (auto simp: stream_inv_def)
  have move: "stream_inv ops src (goto_pc i pc' s)"
    if "at_jobs i s pc" "carried pc' = []" "\<And>k ms. pc' \<noteq> Acking k ms" for i pc pc'
    using delivery_goto [OF D that(1), of pc'] that(2,3) unfolding stream_inv_def by auto
  show ?thesis
    using step
  proof cases
    case (read i ms r)
    then obtain k where "concat ms = take k (rd_New ops (Stream src) (Group src) (ss_redis s))" "delivered ops src k (ss_redis s) r"
      using XReadGroup_ok [OF laws] by blast
    then show ?thesis using delivery_read [OF D _ read(2)] read(1) unfolding stream_inv_def by metis
  next
    case (read_error i e r)
    then obtain k where "delivered ops src k (ss_redis s) r" using XReadGroup_error [OF laws] by blast
    then have "delivery_ok ops src (D @ take k (rd_New ops (Stream src) (Group src) (ss_redis s))) (s\<lparr>ss_redis := r\<rparr>)"
      by (rule delivery_delivered [OF D])
    then have "delivery_ok ops src (D @ take k (rd_New ops (Stream src) (Group src) (ss_redis s)))
        (goto_pc i (if errors_Is e (rd_Nil ops) \<or> ctx_done i s then Reading else Backoff) (s\<lparr>ss_redis := r\<rparr>))"
      by (rule delivery_goto [where pc = Reading]) (use read_error(2) in \<open>auto split: if_splits\<close>)
    then show ?thesis unfolding read_error(1) stream_inv_def by blast
  next
    case (hand i m ms)
    then show ?thesis using delivery_hand [OF D] unfolding stream_inv_def by blast
  next
    case (ack i k ms)
    then have "k \<in> set (handed_ids s)" using D unfolding delivery_ok_def by blast
    then have "delivery_ok ops src D (s\<lparr>ss_redis := rd_XAck ops (Stream src) (Group src) k (ss_redis s)\<rparr>)"
      using delivery_acknowledged [OF D XAck [OF laws]] by blast
    then have "delivery_ok ops src D (goto_pc i (Handing ms) (s\<lparr>ss_redis := rd_XAck ops (Stream src) (Group src) k (ss_redis s)\<rparr>))"
      by (rule delivery_goto [where pc = "Acking k ms"]) (use ack(2) in auto)
    then show ?thesis unfolding ack(1) stream_inv_def by blast
  next
    case (cancel i)
    then show ?thesis using D by (auto simp: stream_inv_def delivery_cancel)
  next
    case (push j)
    obtain e r where p: "PushJob ops src j (ss_redis s) = (e, r)" by fastforce
    have "delivery_ok ops src D (s\<lparr>ss_redis := r\<rparr>)"
      using PushJob_appends [OF laws p] delivery_appended [OF D] delivery_delivered [OF D, of 0 r] by auto
    then show ?thesis using push p by (auto simp: stream_inv_def)
  qed (auto intro!: move)
qed

definition fresh_group :: "'r redis_ops \<Rightarrow> redis_source \<Rightarrow> 'r \<Rightarrow> bool" where
  "fresh_group ops src r \<longleftrightarrow> distinct_ids (rd_Entries ops (Stream src) r) \<and>
     rd_New ops (Stream src) (Group src) r = rd_Entries ops (Stream src) r"

lemma stream_inv_start: "fresh_group ops src r \<Longrightarrow> stream_inv ops src (stream_start r names)"
proof -
  assume "fresh_group ops src r"
  moreover have "in_flight (stream_start r names) = {#}" by (induction names) (simp_all add: in_flight_def stream_start_def)
  moreover have "\<not> at_jobs i (stream_start r names) (Acking k ms)" for i k ms
    by (auto simp: at_jobs_def stream_start_def)
  ultimately have "delivery_ok ops src [] (stream_start r names)"
    by (simp add: delivery_ok_def fresh_group_def handed_ids_def) (simp add: stream_start_def)
  then show ?thesis by (auto simp: stream_inv_def)
qed

interpretation stream: invariant_system
  "\<lambda>s. \<exists>r names. fresh_group ops src r \<and> s = stream_start r names" "jobs_step ops src"
  "\<lambda>s. redis_laws ops src \<longrightarrow> stream_inv ops src s" for ops src
  by unfold_locales (auto intro: stream_inv_start stream_inv_step)

lemma distinct_submset:
  assumes "mset xs \<subseteq># mset ys" "distinct ys" shows "distinct xs"
proof -
  have "count (mset xs) a = (if a \<in> set xs then 1 else 0)" for a
    using mset_subset_eq_count [OF assms(1), of a] assms(2) by (auto simp: distinct_count_atmost_1 count_mset_0_iff le_Suc_eq split: if_splits)
  then show ?thesis by (simp add: distinct_count_atmost_1)
qed


text \<open>A server with one stream and one group: its entries, how many are delivered, and the pending ones.\<close>

type_synonym one_stream = "msg list \<times> nat \<times> msg list"

definition fresh_id :: "msg list \<Rightarrow> string" where
  "fresh_id es = CHR ''0'' # concat (map fst es)"

lemma fresh_id: "fresh_id es \<notin> fst ` set es"
proof
  assume "fresh_id es \<in> fst ` set es"
  then obtain m where m: "m \<in> set es" "fresh_id es = fst m" by auto
  then have "length (fst m) \<le> length (concat (map fst es))"
    by (metis (no_types, lifting) image_eqI length_concat list.set_map member_le_sum_list zero_le)
  with m(2) show False by (metis fresh_id_def impossible_Cons)
qed

definition one_redis :: "one_stream redis_ops" where
  "one_redis = \<lparr>
     rd_XGroupCreateMkStream = (\<lambda>_ _ _ r. (None, r)),
     rd_XAdd = (\<lambda>_ f (es, n, p). (None, (es @ [(fresh_id es, f)], min n (length es), p))),
     rd_XReadGroup = (\<lambda>_ _ _ k _ (es, n, p).
        if drop n es = [] then (Inl (ErrorString ''redis: nil''), (es, n, p))
        else (Inr [take k (drop n es)], (es, n + k, p @ take k (drop n es)))),
     rd_XAck = (\<lambda>_ _ i (es, n, p). (es, n, filter (\<lambda>m. fst m \<noteq> i) p)),
     rd_Nil = ErrorString ''redis: nil'', rd_ErrorText = (\<lambda>_. ''''),
     rd_Entries = (\<lambda>_ (es, n, p). es), rd_New = (\<lambda>_ _ (es, n, p). drop n es), rd_Pending = (\<lambda>_ _ (es, n, p). p)\<rparr>"

lemma one_redis_laws: "redis_laws one_redis src"
proof -
  have "acknowledged one_redis src i r (rd_XAck one_redis (Stream src) (Group src) i r)" for i r
    by (cases r) (simp add: acknowledged_def one_redis_def)
  moreover have "appended one_redis src f r r'" if "rd_XAdd one_redis (Stream src) f r = (None, r')" for f r r'
    using that fresh_id by (cases r) (auto simp: one_redis_def appended_def min_def)
  moreover have "\<exists>k\<le>n. concat ms = take k (rd_New one_redis (Stream src) (Group src) r) \<and> delivered one_redis src k r r'"
    if "rd_XReadGroup one_redis (Stream src) (Group src) c n b r = (Inr ms, r')" for c n b r ms r'
    using that by (cases r) (auto simp: one_redis_def delivered_def add.commute split: if_splits)
  moreover have "\<exists>k\<le>n. delivered one_redis src k r r'"
    if "rd_XReadGroup one_redis (Stream src) (Group src) c n b r = (Inl e, r')" for c n b r e r'
    using that by (cases r) (auto simp: one_redis_def delivered_def split: if_splits)
  moreover have "fst (rd_XAdd one_redis (Stream src) f r) = None" for f r by (cases r) (simp add: one_redis_def)
  ultimately show ?thesis unfolding redis_laws_def by (metis fst_conv option.distinct(1))
qed

definition jobs_stream :: redis_source where
  "jobs_stream = \<lparr>Stream = ''jobs'', Group = ''harvesters'', BlockFor = 0\<rparr>"

definition one_handed :: "one_stream stream_system" where
  "one_handed = \<lparr>ss_redis = ([(''0'', job_fields (query_job ''go''))], 10, []),
     ss_consumers = [\<lparr>co_name = ''w1'', co_pc = Handing [], co_ctxDone = False\<rparr>], ss_handed = [(''0'', query_job ''go'')]\<rparr>"

lemma one_handed_reachable: "(jobs_step one_redis jobs_stream)\<^sup>*\<^sup>* (stream_start ([], 0, []) [''w1'']) one_handed"
proof -
  let ?m = "(''0'', job_fields (query_job ''go''))"
  let ?at = "\<lambda>r pc h. \<lparr>ss_redis = r, ss_consumers = [\<lparr>co_name = ''w1'', co_pc = pc, co_ctxDone = False\<rparr>], ss_handed = h\<rparr> :: one_stream stream_system"
  let ?s1 = "?at ([?m], 0, []) Reading []" and ?s2 = "?at ([?m], 10, [?m]) (Handing [?m]) []"
  let ?s3 = "?at ([?m], 10, [?m]) (Acking ''0'' []) [(''0'', query_job ''go'')]"
  note step_simps = one_redis_def jobs_stream_def goto_pc_def set_consumer_def at_jobs_def one_handed_def stream_start_def
    PushJob_def fresh_id_def jobs_block_def
  have 1: "jobs_step one_redis jobs_stream (stream_start ([], 0, []) [''w1'']) ?s1"
    using jobs_step.push [of one_redis jobs_stream "stream_start ([], 0, []) [''w1'']" "query_job ''go''"] by (simp add: step_simps)
  have 2: "jobs_step one_redis jobs_stream ?s1 ?s2"
    using jobs_step.read [of 0 ?s1 one_redis jobs_stream "[[?m]]" "([?m], 10, [?m])"] by (simp add: step_simps)
  have 3: "jobs_step one_redis jobs_stream ?s2 ?s3"
    using jobs_step.hand [of 0 ?s2 ?m "[]" one_redis jobs_stream] by (simp add: step_simps)
  have 4: "jobs_step one_redis jobs_stream ?s3 one_handed"
    using jobs_step.ack [of 0 ?s3 "''0''" "[]" one_redis jobs_stream] by (simp add: step_simps)
  show ?thesis by (meson 1 2 3 4 converse_rtranclp_into_rtranclp rtranclp.rtrancl_refl)
qed


end
