(* ===== verification/Job_Submit.thy ===== *)
theory Job_Submit
  imports Job_Queue "HOL-Library.Sublist"
begin

text \<open>
  The two clients of \<open>queue.Producer\<close>: the HTTP API of \<open>internal/api/server.go\<close>, which accepts a list
  of queries as one run and reports on runs, and the cron scheduler of
  \<open>internal/scheduler/scheduler.go\<close>. What they rely on is the locale \<open>producer\<close>, in which their
  lemmas are proved; the properties use its interpretation on the Redis stream. The JSON decoder,
  \<open>crypto/rand\<close> and the counter of results are arguments.
\<close>

subsection \<open>Run identifiers and locales\<close>

definition hexdigit :: "nat \<Rightarrow> char" where
  "hexdigit n = char_of (if n < 10 then 48 + n else 87 + n)"

definition EncodeToString :: "string \<Rightarrow> string" where
  "EncodeToString bs = concat (map (\<lambda>c. [hexdigit (byte c div 16), hexdigit (byte c mod 16)]) bs)"

definition api_newRunID :: "go_error + string \<Rightarrow> go_error + string" where
  "api_newRunID rand = (case rand of Inl e \<Rightarrow> Inl e | Inr b \<Rightarrow> Inr (''run-'' @ EncodeToString b))"

definition sched_newRunID :: "go_error + string \<Rightarrow> go_error + string" where
  "sched_newRunID rand = (case rand of Inl e \<Rightarrow> Inl e | Inr b \<Rightarrow> Inr (''sched-'' @ EncodeToString b))"

definition locale_of :: "string \<Rightarrow> string \<Rightarrow> string" where
  "locale_of country language = (if country \<noteq> '''' \<or> language \<noteq> '''' then country @ ''-'' @ language else '''')"

subsection \<open>The API\<close>

record createJobRequest =
  cq_Queries :: "string list"
  cq_Country :: string
  cq_Language :: string
  cq_Device :: string

record jobStatusResponse =
  js_RunID :: string
  js_Submitted :: int
  js_Completed :: int
  js_Known :: bool
  js_SubmittedKnown :: bool

datatype api_reply =
    ApiError int string
  | JobAccepted string int
  | JobStatus jobStatusResponse

record 's api_server =
  sv_queue :: 's
  sv_submitted :: "(string \<times> int) list"

definition NewServer :: "'s \<Rightarrow> 's api_server" where
  "NewServer s = \<lparr>sv_queue = s, sv_submitted = []\<rparr>"

fun push_all :: "(job \<Rightarrow> 's \<Rightarrow> go_error option \<times> 's) \<Rightarrow> job list \<Rightarrow> 's \<Rightarrow> go_error option \<times> 's" where
  "push_all push [] s = (None, s)"
| "push_all push (j # js) s = (case push j s of
       (Some e, s) \<Rightarrow> (Some e, s)
     | (None, s) \<Rightarrow> push_all push js s)"

definition run_jobs :: "string \<Rightarrow> createJobRequest \<Rightarrow> job list" where
  "run_jobs runID req = map (\<lambda>q. \<lparr>job_Query = q, job_RunID = runID,
     job_Locale = locale_of (cq_Country req) (cq_Language req), job_Device = cq_Device req\<rparr>) (cq_Queries req)"

definition handleCreateJob :: "(job \<Rightarrow> 's \<Rightarrow> go_error option \<times> 's) \<Rightarrow> go_error + createJobRequest \<Rightarrow> go_error + string \<Rightarrow>
    's api_server \<Rightarrow> api_reply \<times> 's api_server" where
  "handleCreateJob push body rand sv = (case body of
       Inl e \<Rightarrow> (ApiError 400 ''invalid JSON body'', sv)
     | Inr req \<Rightarrow>
         if cq_Queries req = [] then (ApiError 400 ''queries must be a non-empty array'', sv)
         else case api_newRunID rand of
             Inl e \<Rightarrow> (ApiError 500 ''failed to generate run ID'', sv)
           | Inr runID \<Rightarrow>
               (case push_all push (run_jobs runID req) (sv_queue sv) of
                  (Some e, s) \<Rightarrow> (ApiError 502 ''failed to enqueue job'', sv\<lparr>sv_queue := s\<rparr>)
                | (None, s) \<Rightarrow>
                    (JobAccepted runID (int (length (cq_Queries req))),
                     sv\<lparr>sv_queue := s,
                        sv_submitted := AList.update runID (int (length (cq_Queries req))) (sv_submitted sv)\<rparr>)))"

definition handleJobStatus :: "(string \<Rightarrow> go_error + int) option \<Rightarrow> string \<Rightarrow> 's api_server \<Rightarrow> api_reply" where
  "handleJobStatus counter path sv =
     (let runID = TrimSpace path in
      if runID = '''' then ApiError 400 ''run_id is required''
      else let known = map_of (sv_submitted sv) runID;
               resp = \<lparr>js_RunID = runID, js_Submitted = (case known of None \<Rightarrow> 0 | Some n \<Rightarrow> n), js_Completed = - 1,
                       js_Known = False, js_SubmittedKnown = (known \<noteq> None)\<rparr>
           in case counter of
                None \<Rightarrow> JobStatus resp
              | Some countByRunID \<Rightarrow>
                  (case countByRunID runID of
                     Inl e \<Rightarrow> ApiError 500 ''failed to count results''
                   | Inr n \<Rightarrow> JobStatus (resp\<lparr>js_Completed := n, js_Known := True\<rparr>)))"

subsection \<open>The scheduler\<close>

record harvest =
  hv_Name :: string
  hv_CronExpr :: string
  hv_Queries :: "string list"
  hv_Country :: string
  hv_Language :: string
  hv_Device :: string

fun push_each :: "(job \<Rightarrow> 's \<Rightarrow> go_error option \<times> 's) \<Rightarrow> job list \<Rightarrow> nat \<Rightarrow> 's \<Rightarrow> nat \<times> 's" where
  "push_each push [] pushed s = (pushed, s)"
| "push_each push (j # js) pushed s = (case push j s of
       (Some e, s) \<Rightarrow> push_each push js pushed s
     | (None, s) \<Rightarrow> push_each push js (pushed + 1) s)"

definition harvest_jobs :: "string \<Rightarrow> harvest \<Rightarrow> job list" where
  "harvest_jobs runID h = map (\<lambda>q. \<lparr>job_Query = q, job_RunID = runID,
     job_Locale = locale_of (hv_Country h) (hv_Language h), job_Device = hv_Device h\<rparr>) (hv_Queries h)"

text \<open>The first component is the number of queries the log line reports, \<open>None\<close> when no run started.\<close>

definition runOnce :: "(job \<Rightarrow> 's \<Rightarrow> go_error option \<times> 's) \<Rightarrow> go_error + string \<Rightarrow> harvest \<Rightarrow> 's \<Rightarrow> nat option \<times> 's" where
  "runOnce push rand h s = (case sched_newRunID rand of
       Inl e \<Rightarrow> (None, s)
     | Inr runID \<Rightarrow> map_prod Some id (push_each push (harvest_jobs runID h) 0 s))"

definition AddHarvest :: "(string \<Rightarrow> go_error option) \<Rightarrow> harvest \<Rightarrow> harvest list \<Rightarrow> go_error option \<times> harvest list" where
  "AddHarvest parseCron h hs = (case parseCron (hv_CronExpr h) of
       Some e \<Rightarrow> (Some (Wrapped ''scheduler: invalid cron expression'' e), hs)
     | None \<Rightarrow> (None, hs @ [h]))"

subsection \<open>Clients of a producer\<close>

context producer
begin

lemma push_all_ok: "lawful \<Longrightarrow> push_all push js s = (None, s') \<Longrightarrow> queued s' = queued s @ js"
proof (induction js arbitrary: s)
  case (Cons j js)
  then show ?case using push_ok [of j s] by (auto split: prod.splits option.splits)
qed simp

text \<open>A push that failed leaves a prefix of the jobs in the queue.\<close>

lemma push_all_failed: "lawful \<Longrightarrow> push_all push js s = (Some e, s') \<Longrightarrow> \<exists>k\<le>length js. queued s' = queued s @ take k js"
proof (induction js arbitrary: s)
  case (Cons j js)
  obtain x s1 where x: "push j s = (x, s1)" by fastforce
  show ?case
  proof (cases x)
    case None
    then obtain k where "k \<le> length js" "queued s' = queued s1 @ take k js" using Cons x by auto
    then show ?thesis using push_ok [OF Cons.prems(1)] x None by (intro exI [of _ "Suc k"]) simp
  next
    case (Some a)
    then have "queued s' = queued s \<or> queued s' = queued s @ [j]" using push_failed [OF Cons.prems(1)] x Cons.prems(2) by simp
    then show ?thesis by (metis One_nat_def append.right_neutral length_Cons less_eq_nat.simps(1) not_less_eq_eq take0 take_Suc_Cons)
  qed
qed simp

text \<open>What the scheduler queues is a subsequence of the harvest, at least as long as it reports.\<close>

lemma push_each_queued: "lawful \<Longrightarrow> push_each push js n s = (n', s') \<Longrightarrow>
    \<exists>js'. subseq js' js \<and> queued s' = queued s @ js' \<and> n' \<le> n + length js' \<and> (n' = n + length js \<longrightarrow> js' = js)"
proof (induction js arbitrary: n s)
  case (Cons j js)
  obtain x s1 where x: "push j s = (x, s1)" by fastforce
  let ?m = "case x of None \<Rightarrow> n + 1 | Some _ \<Rightarrow> n"
  have "push_each push js ?m s1 = (n', s')" using Cons.prems(2) x by (simp split: option.splits)
  from Cons.IH [OF Cons.prems(1) this] obtain js' where
    js': "subseq js' js" "queued s' = queued s1 @ js'" "n' \<le> ?m + length js'" "n' = ?m + length js \<longrightarrow> js' = js" by blast
  have len: "length js' \<le> length js" using js'(1) by (rule list_emb_length)
  have q1: "queued s1 = queued s @ [j] \<or> x \<noteq> None \<and> queued s1 = queued s"
    using push_ok [OF Cons.prems(1), of j s s1] push_failed [OF Cons.prems(1), of j s _ s1] x by (cases x) auto
  then show ?case
  proof (elim disjE conjE)
    assume "queued s1 = queued s @ [j]"
    then show ?thesis using js' len by (intro exI [of _ "j # js'"]) (auto split: option.splits)
  next
    assume "x \<noteq> None" "queued s1 = queued s"
    then show ?thesis using js' len by (intro exI [of _ js']) (auto split: option.splits)
  qed
qed simp

end

subsection \<open>Submitting through the Redis stream\<close>

text \<open>
  C17. A submission is queued as a whole or reported as failed. On success the queue holds exactly
  one job per query of the request, in order and after everything queued before, and the run is
  recorded with that number. A request that is refused changes nothing; when the queue fails the run
  is not recorded, and what was queued of it is a prefix of its jobs.
\<close>

theorem create_job_outcomes:
  assumes "redis_laws ops src" "handleCreateJob (PushJob ops src) body rand sv = (reply, sv')"
  shows "case reply of
      JobAccepted runID n \<Rightarrow> (\<exists>req. body = Inr req \<and> api_newRunID rand = Inr runID \<and> n = int (length (cq_Queries req)) \<and> 0 < n \<and>
        stream_jobs ops src (sv_queue sv') = stream_jobs ops src (sv_queue sv) @ run_jobs runID req \<and>
        map_of (sv_submitted sv') = (map_of (sv_submitted sv))(runID \<mapsto> n))
    | ApiError code _ \<Rightarrow> sv_submitted sv' = sv_submitted sv \<and> (code \<noteq> 502 \<longrightarrow> sv' = sv) \<and>
        (code = 502 \<longrightarrow> (\<exists>req runID k. body = Inr req \<and> api_newRunID rand = Inr runID \<and>
           stream_jobs ops src (sv_queue sv') = stream_jobs ops src (sv_queue sv) @ take k (run_jobs runID req)))
    | JobStatus _ \<Rightarrow> False"
proof (cases "\<exists>req runID. body = Inr req \<and> cq_Queries req \<noteq> [] \<and> api_newRunID rand = Inr runID")
  case False
  then show ?thesis using assms(2) by (auto simp: handleCreateJob_def split: sum.splits if_splits)
next
  case True
  then obtain req runID where req: "body = Inr req" "cq_Queries req \<noteq> []" "api_newRunID rand = Inr runID" by blast
  obtain e s where p: "push_all (PushJob ops src) (run_jobs runID req) (sv_queue sv) = (e, s)" by fastforce
  show ?thesis
  proof (cases e)
    case None
    then have "stream_jobs ops src s = stream_jobs ops src (sv_queue sv) @ run_jobs runID req"
      using redis.push_all_ok [OF assms(1)] p by blast
    then show ?thesis using assms(2) req p None by (auto simp: handleCreateJob_def AList.update_conv')
  next
    case (Some x)
    then obtain k where "stream_jobs ops src s = stream_jobs ops src (sv_queue sv) @ take k (run_jobs runID req)"
      using redis.push_all_failed [OF assms(1)] p by blast
    then show ?thesis using assms(2) req p Some by (auto simp: handleCreateJob_def)
  qed
qed

definition two_queries :: createJobRequest where
  "two_queries = \<lparr>cq_Queries = [''go'', ''isabelle''], cq_Country = ''US'', cq_Language = ''en'', cq_Device = ''mobile''\<rparr>"

definition submit_two :: "api_reply \<times> one_stream api_server" where
  "submit_two = handleCreateJob (PushJob one_redis jobs_stream) (Inr two_queries) (Inr ''abcdefgh'') (NewServer ([], 0, []))"

lemma submit_two_reply: "fst submit_two = JobAccepted ''run-6162636465666768'' 2"
  by code_simp

theorem create_job_outcomes_witness:
  "fst submit_two = JobAccepted ''run-6162636465666768'' 2 \<and>
   map job_Query (stream_jobs one_redis jobs_stream (sv_queue (snd submit_two))) = [''go'', ''isabelle'']"
proof -
  have "stream_jobs one_redis jobs_stream (sv_queue (NewServer ([], 0, []))) = []"
    by (simp add: stream_jobs_def one_redis_def NewServer_def)
  then show ?thesis
    using create_job_outcomes [OF one_redis_laws submit_two_def [symmetric, THEN trans, OF prod.collapse [symmetric]]]
    by (simp add: submit_two_reply run_jobs_def two_queries_def comp_def)
qed

subsection \<open>From the request to the fetcher\<close>

lemma locale_roundtrip:
  assumes "CHR ''-'' \<notin> set country"
  shows "localeCountry (locale_of country language) = country \<and> localeLanguage (locale_of country language) = language"
proof -
  have "Cut (country @ CHR ''-'' # language) CHR ''-'' = Some (country, language)" using assms by (simp add: Cut_Some)
  then show ?thesis by (simp add: locale_of_def localeCountry_def localeLanguage_def)
qed

text \<open>
  C18. What a client asks for is what the fetcher is asked for. After an accepted submission the
  entries it added to the stream, decoded by a consumer and turned into requests by the worker, are
  the queries of the submission, each with its country, language and device, provided the country
  holds no hyphen.
\<close>

theorem submission_reaches_fetcher:
  assumes "redis_laws ops src" "handleCreateJob (PushJob ops src) (Inr req) rand sv = (JobAccepted runID n, sv')"
    and "CHR ''-'' \<notin> set (cq_Country req)"
  shows "map (\<lambda>j. let r = serp_build env p j w px in (Query r, Country r, Language r, Device r))
      (drop (length (stream_jobs ops src (sv_queue sv))) (stream_jobs ops src (sv_queue sv'))) =
    map (\<lambda>q. (q, cq_Country req, cq_Language req, cq_Device req)) (cq_Queries req)"
proof -
  have "handleCreateJob (PushJob ops src) (Inr req) rand sv = (JobAccepted runID n, sv') \<Longrightarrow>
    stream_jobs ops src (sv_queue sv') = stream_jobs ops src (sv_queue sv) @ run_jobs runID req"
    using redis.push_all_ok [OF assms(1)] by (auto simp: handleCreateJob_def split: if_splits sum.splits prod.splits option.splits)
  then show ?thesis using assms(2) locale_roundtrip [OF assms(3), of "cq_Language req"]
    by (simp add: run_jobs_def serp_build_def)
qed

theorem submission_reaches_fetcher_witness:
  "map (\<lambda>j. let r = serp_build scripted three_tries j [] (new_proxy ''http://p'') in (Query r, Country r, Language r, Device r))
     (stream_jobs one_redis jobs_stream (sv_queue (snd submit_two))) =
   [(''go'', ''US'', ''en'', ''mobile''), (''isabelle'', ''US'', ''en'', ''mobile'')]"
proof -
  have sub: "handleCreateJob (PushJob one_redis jobs_stream) (Inr two_queries) (Inr ''abcdefgh'') (NewServer ([], 0, [])) =
      (JobAccepted ''run-6162636465666768'' 2, snd submit_two)"
    using submit_two_reply by (metis prod.collapse submit_two_def)
  have "CHR ''-'' \<notin> set (cq_Country two_queries)" by (simp add: two_queries_def)
  moreover have "stream_jobs one_redis jobs_stream (sv_queue (NewServer ([], 0, []))) = []"
    by (simp add: stream_jobs_def one_redis_def NewServer_def)
  ultimately show ?thesis
    using submission_reaches_fetcher [OF one_redis_laws sub, of scripted three_tries "[]" "new_proxy ''http://p''"]
    by (simp add: two_queries_def)
qed

subsection \<open>Status\<close>

text \<open>A server that has handled the given submissions, with its replies.\<close>

fun serve :: "(job \<Rightarrow> 's \<Rightarrow> go_error option \<times> 's) \<Rightarrow> ((go_error + createJobRequest) \<times> (go_error + string)) list \<Rightarrow> 's api_server \<Rightarrow>
    api_reply list \<times> 's api_server" where
  "serve push [] sv = ([], sv)"
| "serve push ((body, rand) # calls) sv =
     (let (reply, sv) = handleCreateJob push body rand sv; (replies, sv) = serve push calls sv in (reply # replies, sv))"

lemma create_submitted:
  assumes "handleCreateJob push body rand sv = (reply, sv')"
  shows "map_of (sv_submitted sv') = (case reply of JobAccepted runID n \<Rightarrow> (map_of (sv_submitted sv))(runID \<mapsto> n) | _ \<Rightarrow> map_of (sv_submitted sv))"
  using assms by (auto simp: handleCreateJob_def AList.update_conv' split: sum.splits if_splits prod.splits option.splits)

fun last_accepted :: "string \<Rightarrow> api_reply list \<Rightarrow> int option" where
  "last_accepted r [] = None"
| "last_accepted r (x # xs) = (case last_accepted r xs of
       Some n \<Rightarrow> Some n
     | None \<Rightarrow> (case x of JobAccepted k n \<Rightarrow> if k = r then Some n else None | _ \<Rightarrow> None))"

lemma last_accepted_None: "last_accepted r xs = None \<longleftrightarrow> (\<forall>n. JobAccepted r n \<notin> set xs)"
proof (induction xs)
  case (Cons x xs)
  then show ?case by (cases x) (auto split: option.splits)
qed simp

lemma last_accepted_Some:
  "last_accepted r xs = Some n \<Longrightarrow> \<exists>as bs. xs = as @ JobAccepted r n # bs \<and> (\<forall>m. JobAccepted r m \<notin> set bs)"
proof (induction xs)
  case (Cons x xs)
  show ?case
  proof (cases "last_accepted r xs")
    case None
    then have "x = JobAccepted r n" using Cons.prems by (simp split: api_reply.splits if_splits)
    then show ?thesis using None last_accepted_None by (metis append_Nil)
  next
    case (Some k)
    then obtain as bs where "xs = as @ JobAccepted r n # bs" "\<forall>m. JobAccepted r m \<notin> set bs" using Cons by auto
    then show ?thesis by (intro exI [of _ "x # as"] exI [of _ bs]) simp
  qed
qed simp

lemma serve_submitted:
  "serve push calls sv = (replies, sv') \<Longrightarrow>
   map_of (sv_submitted sv') r = (case last_accepted r replies of Some n \<Rightarrow> Some n | None \<Rightarrow> map_of (sv_submitted sv) r)"
proof (induction push calls sv arbitrary: replies sv' rule: serve.induct)
  case (2 push body rand calls sv)
  obtain x sv1 where x: "handleCreateJob push body rand sv = (x, sv1)" by fastforce
  obtain xs sv2 where xs: "serve push calls sv1 = (xs, sv2)" by fastforce
  have res: "replies = x # xs" "sv' = sv2" using 2(2) by (simp_all add: x xs)
  from 2(1) [OF x [symmetric] refl xs] create_submitted [OF x] show ?case unfolding res
    by (cases x) (auto split: option.splits)
qed simp

text \<open>
  A status report invents nothing. Whatever submissions the server has handled, a run is
  reported as known exactly if the server accepted it, with the number it accepted last under that
  id; the number of results is the counter's, and is reported as unknown, with the value -1, exactly
  when there is no counter.
\<close>

theorem job_status_truthful:
  assumes "serve push calls (NewServer s) = (replies, sv)" "handleJobStatus counter path sv = JobStatus r"
  shows "(js_SubmittedKnown r \<longleftrightarrow> (\<exists>n. JobAccepted (js_RunID r) n \<in> set replies)) \<and>
    (if js_SubmittedKnown r
     then \<exists>xs ys. replies = xs @ JobAccepted (js_RunID r) (js_Submitted r) # ys \<and> (\<forall>m. JobAccepted (js_RunID r) m \<notin> set ys)
     else js_Submitted r = 0) \<and>
    (case counter of None \<Rightarrow> \<not> js_Known r \<and> js_Completed r = - 1
     | Some countByRunID \<Rightarrow> js_Known r \<and> countByRunID (js_RunID r) = Inr (js_Completed r))"
proof -
  have look: "map_of (sv_submitted sv) k = last_accepted k replies" for k
    using serve_submitted [OF assms(1), of k] by (simp add: NewServer_def split: option.splits)
  have r: "js_SubmittedKnown r \<longleftrightarrow> last_accepted (js_RunID r) replies \<noteq> None"
    "js_Submitted r = (case last_accepted (js_RunID r) replies of None \<Rightarrow> 0 | Some n \<Rightarrow> n)"
    "case counter of None \<Rightarrow> \<not> js_Known r \<and> js_Completed r = - 1
     | Some countByRunID \<Rightarrow> js_Known r \<and> countByRunID (js_RunID r) = Inr (js_Completed r)"
    using assms(2) by (auto simp: handleJobStatus_def Let_def look split: if_splits option.splits sum.splits)
  then show ?thesis using last_accepted_None [of "js_RunID r" replies] last_accepted_Some [of "js_RunID r" replies]
    by (auto split: option.splits)
qed

theorem job_status_truthful_witness:
  "\<exists>r. handleJobStatus None '' run-6162636465666768'' (snd submit_two) = JobStatus r \<and>
     js_SubmittedKnown r \<and> js_Submitted r = 2 \<and> js_Completed r = - 1"
proof -
  let ?calls = "[(Inr two_queries, Inr ''abcdefgh'')] :: ((go_error + createJobRequest) \<times> (go_error + string)) list"
  have "serve (PushJob one_redis jobs_stream) ?calls (NewServer ([], 0, [])) = ([fst submit_two], snd submit_two)"
    by (simp add: submit_two_def case_prod_unfold Let_def)
  note truthful = job_status_truthful [OF this [unfolded submit_two_reply], where counter = None]
  have trim: "TrimSpace '' run-6162636465666768'' = ''run-6162636465666768''" by code_simp
  then obtain r where r: "handleJobStatus None '' run-6162636465666768'' (snd submit_two) = JobStatus r" "js_RunID r = ''run-6162636465666768''"
    by (auto simp: handleJobStatus_def Let_def)
  from truthful [OF r(1)] r show ?thesis by (auto simp: Cons_eq_append_conv split: if_splits)
qed

subsection \<open>Scheduled harvests and run identifiers\<close>

lemma hexdigit_inj: "a < 16 \<Longrightarrow> b < 16 \<Longrightarrow> hexdigit a = hexdigit b \<Longrightarrow> a = b"
  by (auto simp: hexdigit_def split: if_splits dest!: arg_cong [of "char_of _" _ "of_char :: char \<Rightarrow> nat"])

lemma EncodeToString_inj: "EncodeToString a = EncodeToString b \<Longrightarrow> a = b"
proof (induction a arbitrary: b)
  case Nil
  then show ?case by (cases b) (simp_all add: EncodeToString_def)
next
  case (Cons x a)
  then obtain y b' where b: "b = y # b'" by (cases b) (auto simp: EncodeToString_def)
  have lt: "byte c div 16 < 16" "byte c mod 16 < 16" for c by (simp_all add: byte_def less_mult_imp_div_less)
  have "byte x div 16 = byte y div 16" "byte x mod 16 = byte y mod 16"
    using Cons.prems hexdigit_inj [OF lt(1) lt(1), of x y] hexdigit_inj [OF lt(2) lt(2), of x y] by (simp_all add: b EncodeToString_def)
  then have "byte x = byte y" by (metis div_mult_mod_eq)
  then have "x = y" by (simp add: byte_def)
  moreover have "a = b'" using Cons by (simp add: b EncodeToString_def)
  ultimately show ?case by (simp add: b)
qed

text \<open>
  A scheduled harvest fires once per query under a run of its own. What it queues is a
  subsequence of its jobs, all of them when the number it reports is the number of its queries, and
  never fewer than it reports; the run id of no submission of the API is that of a scheduled run,
  and two runs have the same id only if the same random bytes were drawn.
\<close>

theorem runOnce_queues:
  assumes "redis_laws ops src" "runOnce (PushJob ops src) (Inr b) h s = (pushed, s')"
  shows "\<exists>runID js n. sched_newRunID (Inr b) = Inr runID \<and> pushed = Some n \<and> subseq js (harvest_jobs runID h) \<and>
    stream_jobs ops src s' = stream_jobs ops src s @ js \<and> n \<le> length js \<and>
    (n = length (hv_Queries h) \<longrightarrow> js = harvest_jobs runID h) \<and>
    (\<forall>b'. api_newRunID (Inr b') \<noteq> Inr runID) \<and> (\<forall>b'. sched_newRunID (Inr b') = Inr runID \<longrightarrow> b' = b)"
proof -
  let ?runID = "''sched-'' @ EncodeToString b"
  obtain n t where nt: "push_each (PushJob ops src) (harvest_jobs ?runID h) 0 s = (n, t)" by fastforce
  have res: "pushed = Some n" "s' = t" using assms(2) nt by (simp_all add: runOnce_def sched_newRunID_def)
  have len: "length (harvest_jobs ?runID h) = length (hv_Queries h)" by (simp add: harvest_jobs_def)
  obtain js where js: "subseq js (harvest_jobs ?runID h)" "stream_jobs ops src t = stream_jobs ops src s @ js"
    "n \<le> length js" "n = length (hv_Queries h) \<longrightarrow> js = harvest_jobs ?runID h"
    using redis.push_each_queued [OF assms(1) nt] unfolding len by auto
  have "api_newRunID (Inr b') \<noteq> Inr ?runID" for b' by (simp add: api_newRunID_def)
  moreover have "sched_newRunID (Inr b') = Inr ?runID \<longrightarrow> b' = b" for b'
    by (auto simp: sched_newRunID_def dest: EncodeToString_inj)
  ultimately show ?thesis using js res
    by (intro exI [of _ ?runID] exI [of _ js] exI [of _ n]) (simp add: sched_newRunID_def)
qed

definition nightly :: harvest where
  "nightly = \<lparr>hv_Name = ''nightly'', hv_CronExpr = ''0 3 * * *'', hv_Queries = [''a'', ''b''], hv_Country = '''', hv_Language = '''',
     hv_Device = ''''\<rparr>"

definition nightly_run :: "nat option \<times> one_stream" where
  "nightly_run = runOnce (PushJob one_redis jobs_stream) (Inr ''abcdefgh'') nightly ([], 0, [])"

lemma nightly_pushed: "fst nightly_run = Some 2"
  by code_simp

theorem runOnce_queues_witness:
  "map job_Query (stream_jobs one_redis jobs_stream (snd nightly_run)) = [''a'', ''b'']"
proof -
  have "stream_jobs one_redis jobs_stream ([], 0, []) = []" by (simp add: stream_jobs_def one_redis_def)
  moreover have "runOnce (PushJob one_redis jobs_stream) (Inr ''abcdefgh'') nightly ([], 0, []) = (Some 2, snd nightly_run)"
    using nightly_pushed by (metis nightly_run_def prod.collapse)
  ultimately obtain runID js where "2 = length (hv_Queries nightly) \<longrightarrow> js = harvest_jobs runID nightly"
    "stream_jobs one_redis jobs_stream (snd nightly_run) = js"
    using runOnce_queues [OF one_redis_laws, of jobs_stream "''abcdefgh''" nightly "([], 0, [])" "Some 2" "snd nightly_run"]
    by (metis append_Nil option.inject)
  then show ?thesis by (simp add: nightly_def harvest_jobs_def)
qed

end
