(* ===== verification/Result_Store.thy ===== *)
theory Result_Store
  imports Serp_Model Fetch_Outcome Job_Submit
begin

text \<open>
  The sinks of \<open>internal/store\<close>: JSON lines (\<open>store.go\<close>) and PostgreSQL (\<open>postgres.go\<close>). The JSON
  encoder, the file and the database are outside: the encoder is the record \<open>store_json\<close>, a file
  the function that writes bytes to it, and the database the record \<open>db_ops\<close>. An insert names its
  columns and passes its values by position, as the statements of the source do. Slices and maps of
  the results are built by appending, so that an empty one is nil.
\<close>

subsection \<open>Encoders\<close>

record 'j store_json =
  sj_Result :: "serp_result \<Rightarrow> go_error + string"
  sj_Page :: "'j page \<Rightarrow> go_error + string"
  sj_Organic :: "organic_result list \<Rightarrow> go_error + string"
  sj_Snippet :: "featured_snippet \<Rightarrow> go_error + string"
  sj_Overview :: "ai_overview \<Rightarrow> go_error + string"
  sj_Strings :: "string list \<Rightarrow> go_error + string"
  sj_Calibration :: "calibration_note \<Rightarrow> go_error + string"
  sj_Headings :: "heading list \<Rightarrow> go_error + string"
  sj_OpenGraph :: "(string \<times> string) list \<Rightarrow> go_error + string"
  sj_Raws :: "string list \<Rightarrow> go_error + string"
  sj_Fields :: "(string \<times> 'j) list \<Rightarrow> go_error + string"
  sj_Items :: "(string \<times> 'j) list list \<Rightarrow> go_error + string"
  sj_Extraction :: "extraction_note \<Rightarrow> go_error + string"

subsection \<open>JSON lines\<close>

definition newline :: string where
  "newline = [CHR 0x0A]"

definition writeLine :: "(string \<Rightarrow> 'f \<Rightarrow> go_error option \<times> 'f) \<Rightarrow> go_error + string \<Rightarrow> 'f \<Rightarrow> go_error option \<times> 'f" where
  "writeLine w marshaled f = (case marshaled of
       Inl e \<Rightarrow> (Some (Wrapped ''store: marshal result'' e), f)
     | Inr b \<Rightarrow>
         (case w (b @ newline) f of
            (Some e, f) \<Rightarrow> (Some (Wrapped ''store: write result'' e), f)
          | (None, f) \<Rightarrow> (None, f)))"

definition jsonl_Write :: "'j store_json \<Rightarrow> (string \<Rightarrow> 'f \<Rightarrow> go_error option \<times> 'f) \<Rightarrow> serp_result \<Rightarrow> 'f \<Rightarrow> go_error option \<times> 'f" where
  "jsonl_Write js w r f = writeLine w (sj_Result js r) f"

definition jsonl_WritePage :: "'j store_json \<Rightarrow> (string \<Rightarrow> 'f \<Rightarrow> go_error option \<times> 'f) \<Rightarrow> 'j page \<Rightarrow> 'f \<Rightarrow> go_error option \<times> 'f" where
  "jsonl_WritePage js w p f = writeLine w (sj_Page js p) f"

subsection \<open>Rows\<close>

datatype sql_value = SNull | SText string | SInt int | STime instant | SJson string | SBytes string

type_synonym row = "(string \<times> sql_value) list"

definition nullIfEmpty :: "string \<Rightarrow> sql_value" where
  "nullIfEmpty s = (if s = '''' then SNull else SText s)"

definition nullBytes :: "string \<Rightarrow> sql_value" where
  "nullBytes b = (if length b = 0 then SNull else SBytes b)"

fun marshal_column :: "go_error + string \<Rightarrow> go_error + sql_value" where
  "marshal_column (Inl e) = Inl e"
| "marshal_column (Inr b) = Inr (SJson b)"

text \<open>\<open>marshalOptional\<close> of a nil pointer is the case of \<open>None\<close>, of a nil slice or map that of the empty list.\<close>

definition marshalOptional :: "('a \<Rightarrow> go_error + string) \<Rightarrow> 'a option \<Rightarrow> go_error + sql_value" where
  "marshalOptional marshal v = (case v of None \<Rightarrow> Inr SNull | Some x \<Rightarrow> marshal_column (marshal x))"

definition unless_nil :: "'a list \<Rightarrow> 'a list option" where
  "unless_nil xs = (if xs = [] then None else Some xs)"

fun marshal_all :: "(string \<times> (go_error + sql_value)) list \<Rightarrow> go_error + sql_value list" where
  "marshal_all [] = Inr []"
| "marshal_all ((what, v) # vs) = (case v of
       Inl e \<Rightarrow> Inl (Wrapped what e)
     | Inr x \<Rightarrow> (case marshal_all vs of Inl e \<Rightarrow> Inl e | Inr xs \<Rightarrow> Inr (x # xs)))"

subsection \<open>The schema\<close>

datatype sql_type = BIGSERIAL | TEXT | TIMESTAMPTZ | BIGINT | INTEGER | JSONB | BYTEA

record column_def =
  cd_name :: string
  cd_type :: sql_type
  cd_notnull :: bool
  cd_default :: bool

definition col :: "string \<Rightarrow> sql_type \<Rightarrow> column_def" where
  "col n t = \<lparr>cd_name = n, cd_type = t, cd_notnull = False, cd_default = False\<rparr>"

definition required :: "column_def \<Rightarrow> column_def" where
  "required c = c\<lparr>cd_notnull := True\<rparr>"

definition defaulted :: "column_def \<Rightarrow> column_def" where
  "defaulted c = c\<lparr>cd_default := True\<rparr>"

definition serp_schema :: "column_def list" where
  "serp_schema = [defaulted (required (col ''id'' BIGSERIAL)), col ''run_id'' TEXT, required (col ''query'' TEXT), col ''locale'' TEXT,
     col ''device'' TEXT, required (col ''fetched_at'' TIMESTAMPTZ), defaulted (required (col ''latency_ms'' BIGINT)),
     col ''proxy_used'' TEXT, col ''organic'' JSONB, col ''featured_snippet'' JSONB, col ''ai_overview'' JSONB,
     col ''people_also_ask'' JSONB, col ''calibration'' JSONB, col ''raw_response'' BYTEA,
     defaulted (required (col ''created_at'' TIMESTAMPTZ))]"

definition page_schema :: "column_def list" where
  "page_schema = [defaulted (required (col ''id'' BIGSERIAL)), col ''run_id'' TEXT, required (col ''target'' TEXT), required (col ''url'' TEXT),
     col ''final_url'' TEXT, defaulted (required (col ''depth'' INTEGER)), defaulted (required (col ''status_code'' INTEGER)),
     col ''content_type'' TEXT, required (col ''fetched_at'' TIMESTAMPTZ), defaulted (required (col ''latency_ms'' BIGINT)),
     col ''proxy_used'' TEXT, col ''title'' TEXT, col ''description'' TEXT, col ''canonical'' TEXT, col ''language'' TEXT,
     col ''headings'' JSONB, col ''open_graph'' JSONB, col ''json_ld'' JSONB, col ''text'' TEXT, col ''links'' JSONB,
     col ''fields'' JSONB, col ''items'' JSONB, col ''extraction'' JSONB, col ''raw_response'' BYTEA,
     defaulted (required (col ''created_at'' TIMESTAMPTZ))]"

text \<open>
  A value fits a column of its type, a null one only if the column allows it. Integers are not
  checked against the range of their column.
\<close>

fun fits :: "sql_type \<Rightarrow> sql_value \<Rightarrow> bool" where
  "fits TEXT (SText _) = True"
| "fits TIMESTAMPTZ (STime _) = True"
| "fits BIGINT (SInt _) = True"
| "fits INTEGER (SInt _) = True"
| "fits JSONB (SJson _) = True"
| "fits BYTEA (SBytes _) = True"
| "fits _ _ = False"

definition value_fits :: "column_def \<Rightarrow> sql_value \<Rightarrow> bool" where
  "value_fits c v \<longleftrightarrow> (if v = SNull then \<not> cd_notnull c else fits (cd_type c) v)"

definition row_fits :: "column_def list \<Rightarrow> row \<Rightarrow> bool" where
  "row_fits cs r \<longleftrightarrow> distinct (map fst r) \<and>
     list_all (\<lambda>(n, v). list_ex (\<lambda>c. cd_name c = n \<and> value_fits c v) cs) r \<and>
     list_all (\<lambda>c. cd_notnull c \<and> \<not> cd_default c \<longrightarrow> cd_name c \<in> set (map fst r)) cs"

record 'd db_ops =
  db_Insert :: "string \<Rightarrow> row \<Rightarrow> 'd \<Rightarrow> go_error option \<times> 'd"
  db_CountWhere :: "string \<Rightarrow> string \<Rightarrow> string \<Rightarrow> 'd \<Rightarrow> go_error + int"
  db_Rows :: "string \<Rightarrow> 'd \<Rightarrow> row list"

definition insert_columns :: "string \<Rightarrow> string list \<Rightarrow> sql_value list \<Rightarrow> 'd db_ops \<Rightarrow> 'd \<Rightarrow> go_error option \<times> 'd" where
  "insert_columns table cols vals ops d = db_Insert ops table (zip cols vals) d"

definition serp_columns :: "string list" where
  "serp_columns = [''run_id'', ''query'', ''locale'', ''device'', ''fetched_at'', ''latency_ms'', ''proxy_used'',
     ''organic'', ''featured_snippet'', ''ai_overview'', ''people_also_ask'', ''calibration'', ''raw_response'']"

definition pg_Write :: "'j store_json \<Rightarrow> 'd db_ops \<Rightarrow> serp_result \<Rightarrow> 'd \<Rightarrow> go_error option \<times> 'd" where
  "pg_Write js ops r d = (case marshal_all [
         (''postgres sink: marshal organic'', marshal_column (sj_Organic js (Organic r))),
         (''postgres sink: marshal featured_snippet'', marshalOptional (sj_Snippet js) (FeaturedSnippet r)),
         (''postgres sink: marshal ai_overview'', marshalOptional (sj_Overview js) (AIOverview r)),
         (''postgres sink: marshal people_also_ask'', marshalOptional (sj_Strings js) (unless_nil (PeopleAlsoAsk r))),
         (''postgres sink: marshal calibration'', marshalOptional (sj_Calibration js) (Calibration r))] of
       Inl e \<Rightarrow> (Some e, d)
     | Inr cols \<Rightarrow>
         (case insert_columns ''serp_results'' serp_columns
             ([nullIfEmpty (sr_RunID r), SText (sr_Query r), nullIfEmpty (sr_Locale r), nullIfEmpty (sr_Device r),
               STime (sr_FetchedAt r), SInt (sr_LatencyMS r), nullIfEmpty (sr_ProxyUsed r)] @ cols @ [nullBytes (sr_RawBody r)]) ops d of
            (Some e, d) \<Rightarrow> (Some (Wrapped ''postgres sink: insert'' e), d)
          | (None, d) \<Rightarrow> (None, d)))"

definition page_columns :: "string list" where
  "page_columns = [''run_id'', ''target'', ''url'', ''final_url'', ''depth'', ''status_code'', ''content_type'', ''fetched_at'',
     ''latency_ms'', ''proxy_used'', ''title'', ''description'', ''canonical'', ''language'', ''headings'', ''open_graph'',
     ''json_ld'', ''text'', ''links'', ''fields'', ''items'', ''extraction'', ''raw_response'']"

definition pg_WritePage :: "'j store_json \<Rightarrow> 'd db_ops \<Rightarrow> 'j page \<Rightarrow> 'd \<Rightarrow> go_error option \<times> 'd" where
  "pg_WritePage js ops p d = (case marshal_all (map (\<lambda>v. (''postgres sink: marshal page column'', v))
         [marshalOptional (sj_Headings js) (unless_nil (Headings p)), marshalOptional (sj_OpenGraph js) (unless_nil (OpenGraph p)),
          marshalOptional (sj_Raws js) (unless_nil (JSONLD p)),
          marshalOptional (sj_Strings js) (Option.bind (pg_Links p) unless_nil),
          marshalOptional (sj_Fields js) (unless_nil (pg_Fields p)), marshalOptional (sj_Items js) (unless_nil (Items p)),
          marshalOptional (sj_Extraction js) (Extraction p)]) of
       Inl e \<Rightarrow> (Some e, d)
     | Inr cols \<Rightarrow>
         (case insert_columns ''pages'' page_columns
             [nullIfEmpty (pg_RunID p), SText (pg_Target p), SText (pg_URL p), nullIfEmpty (pg_FinalURL p), SInt (pg_Depth p),
              SInt (pg_StatusCode p), nullIfEmpty (pg_ContentType p), STime (pg_FetchedAt p), SInt (pg_LatencyMS p),
              nullIfEmpty (pg_ProxyUsed p), nullIfEmpty (pg_Title p), nullIfEmpty (Description p), nullIfEmpty (Canonical p),
              nullIfEmpty (pg_Language p), cols ! 0, cols ! 1, cols ! 2, nullIfEmpty (pg_Text p), cols ! 3, cols ! 4,
              cols ! 5, cols ! 6, nullBytes (pg_RawBody p)] ops d of
            (Some e, d) \<Rightarrow> (Some (Wrapped ''postgres sink: insert page'' e), d)
          | (None, d) \<Rightarrow> (None, d)))"

definition CountByRunID :: "'d db_ops \<Rightarrow> string \<Rightarrow> 'd \<Rightarrow> go_error + int" where
  "CountByRunID ops runID d = (case db_CountWhere ops ''serp_results'' ''run_id'' runID d of
       Inl e \<Rightarrow> Inl (Wrapped ''postgres sink: count by run_id'' e) | Inr n \<Rightarrow> Inr n)"

definition CountPagesByRunID :: "'d db_ops \<Rightarrow> string \<Rightarrow> 'd \<Rightarrow> go_error + int" where
  "CountPagesByRunID ops runID d = (case db_CountWhere ops ''pages'' ''run_id'' runID d of
       Inl e \<Rightarrow> Inl (Wrapped ''postgres sink: count pages by run_id'' e) | Inr n \<Rightarrow> Inr n)"

text \<open>
  What the sink relies on: an insert that succeeded added its row to its table and to no other, a
  failed one added nothing, and a count is that of the rows whose column holds the given text.
\<close>

definition db_laws :: "'d db_ops \<Rightarrow> bool" where
  "db_laws ops \<longleftrightarrow>
     (\<forall>t r d d'. db_Insert ops t r d = (None, d') \<longrightarrow> (\<forall>t'. db_Rows ops t' d' = (if t' = t then db_Rows ops t d @ [r] else db_Rows ops t' d))) \<and>
     (\<forall>t r d e d'. db_Insert ops t r d = (Some e, d') \<longrightarrow> (\<forall>t'. db_Rows ops t' d' = db_Rows ops t' d)) \<and>
     (\<forall>t c v d n. db_CountWhere ops t c v d = Inr n \<longrightarrow>
        n = int (length (filter (\<lambda>r. map_of r c = Some (SText v)) (db_Rows ops t d))))"

subsection \<open>Opening the database\<close>

text \<open>
  \<open>NewPostgresSink\<close>: the calls of \<open>database/sql\<close> are parameters on a state \<open>'c\<close> of the driver; what is
  relied on is that opening adds a handle, closing gives it back, and the other calls do neither.
\<close>

record 'c sql_ops =
  so_Open :: "string \<Rightarrow> 'c \<Rightarrow> go_error option \<times> 'c"
  so_Ping :: "'c \<Rightarrow> go_error option \<times> 'c"
  so_Exec :: "(string \<times> column_def list) list \<Rightarrow> 'c \<Rightarrow> go_error option \<times> 'c"
  so_Close :: "'c \<Rightarrow> go_error option \<times> 'c"
  so_Handles :: "'c \<Rightarrow> nat"

definition schema_tables :: "(string \<times> column_def list) list" where
  "schema_tables = [(''serp_results'', serp_schema), (''pages'', page_schema)]"

definition NewPostgresSink :: "'c sql_ops \<Rightarrow> string \<Rightarrow> 'c \<Rightarrow> go_error option \<times> 'c" where
  "NewPostgresSink ops dsn c = (case so_Open ops dsn c of
       (Some e, c) \<Rightarrow> (Some (Wrapped ''postgres sink: open'' e), c)
     | (None, c) \<Rightarrow> (case so_Ping ops c of
           (Some e, c) \<Rightarrow> (Some (Wrapped ''postgres sink: ping'' e), snd (so_Close ops c))
         | (None, c) \<Rightarrow> (case so_Exec ops schema_tables c of
               (Some e, c) \<Rightarrow> (Some (Wrapped ''postgres sink: apply schema'' e), snd (so_Close ops c))
             | (None, c) \<Rightarrow> (None, c))))"

definition sink_Close :: "'c sql_ops \<Rightarrow> 'c \<Rightarrow> go_error option \<times> 'c" where
  "sink_Close ops c = so_Close ops c"

definition sql_laws :: "'c sql_ops \<Rightarrow> bool" where
  "sql_laws ops \<longleftrightarrow>
     (\<forall>dsn c. so_Handles ops (snd (so_Open ops dsn c)) = (if fst (so_Open ops dsn c) = None then Suc else id) (so_Handles ops c)) \<and>
     (\<forall>c. so_Handles ops (snd (so_Ping ops c)) = so_Handles ops c) \<and>
     (\<forall>t c. so_Handles ops (snd (so_Exec ops t c)) = so_Handles ops c) \<and>
     (\<forall>c. so_Handles ops (snd (so_Close ops c)) = so_Handles ops c - 1)"

text \<open>A sink that could not be built leaves no connection behind; one that was holds one until it is closed.\<close>

lemma NewPostgresSink_no_leak:
  assumes "sql_laws ops"
  shows "case NewPostgresSink ops dsn c of
      (Some e, c') \<Rightarrow> so_Handles ops c' = so_Handles ops c
    | (None, c') \<Rightarrow> so_Handles ops c' = Suc (so_Handles ops c) \<and> so_Handles ops (snd (sink_Close ops c')) = so_Handles ops c"
proof -
  obtain e1 c1 where o1: "so_Open ops dsn c = (e1, c1)" by force
  obtain e2 c2 where o2: "so_Ping ops c1 = (e2, c2)" by force
  obtain e3 c3 where o3: "so_Exec ops schema_tables c2 = (e3, c3)" by force
  have "so_Handles ops c1 = (if e1 = None then Suc else id) (so_Handles ops c)"
    using assms o1 by (metis sql_laws_def fst_conv snd_conv)
  moreover have "so_Handles ops c2 = so_Handles ops c1" "so_Handles ops c3 = so_Handles ops c2"
      "so_Handles ops (snd (so_Close ops x)) = so_Handles ops x - 1" for x
    using assms o2 o3 by (metis sql_laws_def snd_conv)+
  ultimately show ?thesis by (simp add: NewPostgresSink_def sink_Close_def o1 o2 o3 split: option.split)
qed

subsection \<open>Reading a column back\<close>

text \<open>
  What a column promises: the value put into it can be read back. \<open>lawful\<close> is what the encoder
  behind the column has to satisfy.
\<close>

locale column_codec =
  fixes lawful :: bool and put :: "'a \<Rightarrow> go_error + sql_value" and get :: "sql_value \<Rightarrow> 'a"
  assumes get_put: "lawful \<Longrightarrow> put x = Inr v \<Longrightarrow> get v = x"

definition inverts :: "('a \<Rightarrow> go_error + string) \<Rightarrow> (string \<Rightarrow> 'a) \<Rightarrow> bool" where
  "inverts enc dec \<longleftrightarrow> (\<forall>x b. enc x = Inr b \<longrightarrow> dec b = x)"

fun read_text :: "sql_value \<Rightarrow> string" where
  "read_text (SText s) = s"
| "read_text _ = ''''"

fun read_bytes :: "sql_value \<Rightarrow> string" where
  "read_bytes (SBytes s) = s"
| "read_bytes _ = ''''"

fun read_int :: "sql_value \<Rightarrow> int" where
  "read_int (SInt i) = i"
| "read_int _ = 0"

fun read_time :: "sql_value \<Rightarrow> instant" where
  "read_time (STime t) = t"
| "read_time _ = 0"

fun read_option :: "(string \<Rightarrow> 'a) \<Rightarrow> sql_value \<Rightarrow> 'a option" where
  "read_option dec (SJson b) = Some (dec b)"
| "read_option dec _ = None"

definition read_list :: "(string \<Rightarrow> 'a list) \<Rightarrow> sql_value \<Rightarrow> 'a list" where
  "read_list dec v = (case read_option dec v of None \<Rightarrow> [] | Some xs \<Rightarrow> xs)"

lemma marshal_column_Inr: "marshal_column m = Inr v \<longleftrightarrow> (\<exists>b. m = Inr b \<and> v = SJson b)"
  by (cases m) auto

interpretation text_col: column_codec True "\<lambda>s. Inr (nullIfEmpty s)" read_text
  by unfold_locales (auto simp: nullIfEmpty_def)

interpretation bytes_col: column_codec True "\<lambda>b. Inr (nullBytes b)" read_bytes
  by unfold_locales (auto simp: nullBytes_def)

interpretation option_col: column_codec "inverts enc dec" "marshalOptional enc" "read_option dec" for enc dec
  by unfold_locales (auto simp: marshalOptional_def inverts_def marshal_column_Inr split: option.splits)

interpretation list_col: column_codec "inverts enc dec" "\<lambda>xs. marshalOptional enc (unless_nil xs)" "read_list dec" for enc dec
proof unfold_locales
  fix xs v assume "inverts enc dec" "marshalOptional enc (unless_nil xs) = Inr v"
  then have "read_option dec v = unless_nil xs" by (rule option_col.get_put)
  then show "read_list dec v = xs" by (simp add: read_list_def unless_nil_def)
qed

interpretation json_col: column_codec "inverts enc dec" "\<lambda>xs. marshal_column (enc xs)" "read_list dec" for enc dec
  by unfold_locales (auto simp: marshal_column_Inr inverts_def read_list_def)

lemma read_nullIfEmpty [simp]: "read_text (nullIfEmpty s) = s"
  by (rule text_col.get_put) simp_all

lemma read_nullBytes [simp]: "read_bytes (nullBytes b) = b"
  by (rule bytes_col.get_put) simp_all

subsection \<open>A stored result can be read back\<close>

record 'j store_decode =
  sd_Organic :: "string \<Rightarrow> organic_result list"
  sd_Snippet :: "string \<Rightarrow> featured_snippet"
  sd_Overview :: "string \<Rightarrow> ai_overview"
  sd_Strings :: "string \<Rightarrow> string list"
  sd_Calibration :: "string \<Rightarrow> calibration_note"
  sd_Headings :: "string \<Rightarrow> heading list"
  sd_OpenGraph :: "string \<Rightarrow> (string \<times> string) list"
  sd_Raws :: "string \<Rightarrow> string list"
  sd_Fields :: "string \<Rightarrow> (string \<times> 'j) list"
  sd_Items :: "string \<Rightarrow> (string \<times> 'j) list list"
  sd_Extraction :: "string \<Rightarrow> extraction_note"

definition decodes :: "'j store_json \<Rightarrow> 'j store_decode \<Rightarrow> bool" where
  "decodes js dec \<longleftrightarrow> inverts (sj_Organic js) (sd_Organic dec) \<and> inverts (sj_Snippet js) (sd_Snippet dec) \<and>
     inverts (sj_Overview js) (sd_Overview dec) \<and> inverts (sj_Strings js) (sd_Strings dec) \<and>
     inverts (sj_Calibration js) (sd_Calibration dec) \<and> inverts (sj_Headings js) (sd_Headings dec) \<and>
     inverts (sj_OpenGraph js) (sd_OpenGraph dec) \<and> inverts (sj_Raws js) (sd_Raws dec) \<and>
     inverts (sj_Fields js) (sd_Fields dec) \<and> inverts (sj_Items js) (sd_Items dec) \<and>
     inverts (sj_Extraction js) (sd_Extraction dec)"

definition column :: "row \<Rightarrow> string \<Rightarrow> sql_value" where
  "column r c = (case map_of r c of None \<Rightarrow> SNull | Some v \<Rightarrow> v)"

definition row_result :: "'j store_decode \<Rightarrow> row \<Rightarrow> serp_result" where
  "row_result dec r = \<lparr>sr_Query = read_text (column r ''query''), sr_RunID = read_text (column r ''run_id''),
     sr_Locale = read_text (column r ''locale''), sr_Device = read_text (column r ''device''),
     sr_FetchedAt = read_time (column r ''fetched_at''), sr_LatencyMS = read_int (column r ''latency_ms''),
     sr_ProxyUsed = read_text (column r ''proxy_used''), AIOverview = read_option (sd_Overview dec) (column r ''ai_overview''),
     FeaturedSnippet = read_option (sd_Snippet dec) (column r ''featured_snippet''),
     PeopleAlsoAsk = read_list (sd_Strings dec) (column r ''people_also_ask''),
     Organic = read_list (sd_Organic dec) (column r ''organic''),
     Calibration = read_option (sd_Calibration dec) (column r ''calibration''),
     sr_RawBody = read_bytes (column r ''raw_response'')\<rparr>"

definition row_page :: "'j store_decode \<Rightarrow> row \<Rightarrow> 'j page" where
  "row_page dec r = \<lparr>pg_Target = read_text (column r ''target''), pg_RunID = read_text (column r ''run_id''),
     pg_URL = read_text (column r ''url''), pg_FinalURL = read_text (column r ''final_url''),
     pg_Depth = read_int (column r ''depth''), pg_StatusCode = read_int (column r ''status_code''),
     pg_ContentType = read_text (column r ''content_type''), pg_FetchedAt = read_time (column r ''fetched_at''),
     pg_LatencyMS = read_int (column r ''latency_ms''), pg_ProxyUsed = read_text (column r ''proxy_used''),
     pg_Title = read_text (column r ''title''), Description = read_text (column r ''description''),
     Canonical = read_text (column r ''canonical''), pg_Language = read_text (column r ''language''),
     Headings = read_list (sd_Headings dec) (column r ''headings''), OpenGraph = read_list (sd_OpenGraph dec) (column r ''open_graph''),
     JSONLD = read_list (sd_Raws dec) (column r ''json_ld''), pg_Text = read_text (column r ''text''),
     pg_Links = read_option (sd_Strings dec) (column r ''links''), pg_Fields = read_list (sd_Fields dec) (column r ''fields''),
     Items = read_list (sd_Items dec) (column r ''items''), Extraction = read_option (sd_Extraction dec) (column r ''extraction''),
     pg_RawBody = read_bytes (column r ''raw_response'')\<rparr>"

lemma marshal_all_Inr: "marshal_all xs = Inr ys \<longleftrightarrow> map snd xs = map Inr ys"
proof (induction xs arbitrary: ys)
  case (Cons x xs)
  obtain what v where "x = (what, v)" by fastforce
  then show ?case using Cons by (cases ys; cases v; cases "marshal_all xs") auto
qed auto

lemma db_lawsD:
  assumes "db_laws ops"
  shows insert_ok: "db_Insert ops t r d = (None, d') \<Longrightarrow> db_Rows ops t' d' = (if t' = t then db_Rows ops t d @ [r] else db_Rows ops t' d)"
    and insert_error: "db_Insert ops t r d = (Some e, d') \<Longrightarrow> db_Rows ops t' d' = db_Rows ops t' d"
    and count_ok: "db_CountWhere ops t c v d = Inr n \<Longrightarrow> n = int (length (filter (\<lambda>r. map_of r c = Some (SText v)) (db_Rows ops t d)))"
  using assms unfolding db_laws_def by auto

lemma pg_Write_error:
  assumes "db_laws ops" "pg_Write js ops r d = (Some e, d')"
  shows "db_Rows ops t d' = db_Rows ops t d"
  using assms(2) insert_error [OF assms(1)] unfolding pg_Write_def insert_columns_def
  by (auto split: sum.splits prod.splits option.splits)

lemma pg_WritePage_error:
  assumes "db_laws ops" "pg_WritePage js ops p d = (Some e, d')"
  shows "db_Rows ops t d' = db_Rows ops t d"
  using assms(2) insert_error [OF assms(1)] unfolding pg_WritePage_def insert_columns_def
  by (auto split: sum.splits prod.splits option.splits)

lemma pg_Write_row:
  assumes "pg_Write js ops r d = (None, d')"
  obtains cs where "map Inr cs = [marshal_column (sj_Organic js (Organic r)), marshalOptional (sj_Snippet js) (FeaturedSnippet r),
      marshalOptional (sj_Overview js) (AIOverview r), marshalOptional (sj_Strings js) (unless_nil (PeopleAlsoAsk r)),
      marshalOptional (sj_Calibration js) (Calibration r)]"
    "db_Insert ops ''serp_results'' (zip serp_columns ([nullIfEmpty (sr_RunID r), SText (sr_Query r), nullIfEmpty (sr_Locale r),
       nullIfEmpty (sr_Device r), STime (sr_FetchedAt r), SInt (sr_LatencyMS r), nullIfEmpty (sr_ProxyUsed r)] @ cs @ [nullBytes (sr_RawBody r)])) d = (None, d')"
  using assms unfolding pg_Write_def insert_columns_def
  by (auto simp del: marshal_all.simps zip_Cons_Cons append_Cons simp: marshal_all_Inr split: sum.splits prod.splits option.splits)

lemma pg_Write_readable:
  assumes "db_laws ops" "decodes js dec" "pg_Write js ops r d = (err, d')"
  shows "case err of
      None \<Rightarrow> \<exists>row. db_Rows ops ''serp_results'' d' = db_Rows ops ''serp_results'' d @ [row] \<and> row_result dec row = r
    | Some _ \<Rightarrow> db_Rows ops t d' = db_Rows ops t d"
proof (cases err)
  case None
  with assms(3) have "pg_Write js ops r d = (None, d')" by simp
  then obtain cs where cs: "map Inr cs = [marshal_column (sj_Organic js (Organic r)), marshalOptional (sj_Snippet js) (FeaturedSnippet r),
      marshalOptional (sj_Overview js) (AIOverview r), marshalOptional (sj_Strings js) (unless_nil (PeopleAlsoAsk r)),
      marshalOptional (sj_Calibration js) (Calibration r)]"
    and ins: "db_Insert ops ''serp_results'' (zip serp_columns ([nullIfEmpty (sr_RunID r), SText (sr_Query r), nullIfEmpty (sr_Locale r),
       nullIfEmpty (sr_Device r), STime (sr_FetchedAt r), SInt (sr_LatencyMS r), nullIfEmpty (sr_ProxyUsed r)] @ cs @ [nullBytes (sr_RawBody r)])) d = (None, d')"
      (is "db_Insert ops _ ?row d = _") by (rule pg_Write_row)
  from cs obtain a b c e f where v: "cs = [a, b, c, e, f]" "marshal_column (sj_Organic js (Organic r)) = Inr a"
    "marshalOptional (sj_Snippet js) (FeaturedSnippet r) = Inr b" "marshalOptional (sj_Overview js) (AIOverview r) = Inr c"
    "marshalOptional (sj_Strings js) (unless_nil (PeopleAlsoAsk r)) = Inr e" "marshalOptional (sj_Calibration js) (Calibration r) = Inr f"
    by (auto simp: map_eq_Cons_conv)
  note dec = assms(2) [unfolded decodes_def]
  have read: "read_list (sd_Organic dec) a = Organic r" "read_option (sd_Snippet dec) b = FeaturedSnippet r"
    "read_option (sd_Overview dec) c = AIOverview r" "read_list (sd_Strings dec) e = PeopleAlsoAsk r"
    "read_option (sd_Calibration dec) f = Calibration r"
    using dec json_col.get_put v(2) option_col.get_put v(3,4,6) list_col.get_put v(5) by metis+
  have "row_result dec ?row = r" by (simp add: row_result_def column_def serp_columns_def v(1) read)
  then show ?thesis using insert_ok [OF assms(1) ins] None by auto
next
  case (Some e)
  then show ?thesis using assms(3) pg_Write_error [OF assms(1)] by auto
qed


text \<open>A database that keeps its tables as lists of rows, and an encoder of short lists.\<close>

definition list_db :: "(string \<times> row) list db_ops" where
  "list_db = \<lparr>db_Insert = (\<lambda>t r d. (None, d @ [(t, r)])),
     db_CountWhere = (\<lambda>t c v d. Inr (int (length (filter (\<lambda>r. map_of r c = Some (SText v)) (map snd (filter (\<lambda>x. fst x = t) d)))))),
     db_Rows = (\<lambda>t d. map snd (filter (\<lambda>x. fst x = t) d))\<rparr>"

lemma list_db_laws: "db_laws list_db"
  by (auto simp: db_laws_def list_db_def)

definition unsupported :: go_error where
  "unsupported = ErrorString ''json: unsupported type''"

definition short_json :: "string store_json" where
  "short_json = \<lparr>sj_Result = (\<lambda>r. Inr (sr_Query r)), sj_Page = (\<lambda>p. Inr (pg_URL p)),
      sj_Organic = (\<lambda>xs. if xs = [] then Inr ''null'' else Inl unsupported), sj_Snippet = (\<lambda>_. Inl unsupported), sj_Overview = (\<lambda>_. Inl unsupported),
      sj_Strings = (\<lambda>xs. if length xs = 1 then Inr (hd xs) else Inl unsupported), sj_Calibration = (\<lambda>n. if length (MissingBlocks n) = 1 \<and> RawHTMLPath n = '''' then Inr (hd (MissingBlocks n)) else Inl unsupported), sj_Headings = (\<lambda>_. Inl unsupported),
      sj_OpenGraph = (\<lambda>_. Inl unsupported), sj_Raws = (\<lambda>xs. if length xs = 1 then Inr (hd xs) else Inl unsupported), sj_Fields = (\<lambda>_. Inl unsupported),
      sj_Items = (\<lambda>_. Inl unsupported), sj_Extraction = (\<lambda>e. if length (Missing e) = 1 then Inr (hd (Missing e)) else Inl unsupported)\<rparr>"

definition short_decode :: "string store_decode" where
  "short_decode = \<lparr>sd_Organic = (\<lambda>_. []), sd_Snippet = (\<lambda>_. undefined), sd_Overview = (\<lambda>_. undefined), sd_Strings = (\<lambda>b. [b]),
     sd_Calibration = (\<lambda>b. \<lparr>MissingBlocks = [b], RawHTMLPath = ''''\<rparr>), sd_Headings = (\<lambda>_. []), sd_OpenGraph = (\<lambda>_. []), sd_Raws = (\<lambda>b. [b]), sd_Fields = (\<lambda>_. []),
     sd_Items = (\<lambda>_. []), sd_Extraction = (\<lambda>b. \<lparr>Missing = [b]\<rparr>)\<rparr>"

lemma hd_of_one: "length xs = Suc 0 \<Longrightarrow> [hd xs] = xs"
  by (cases xs) auto

lemma short_decodes: "decodes short_json short_decode"
  by (auto simp: decodes_def inverts_def short_json_def short_decode_def hd_of_one split: if_splits)

definition asked_why :: serp_result where
  "asked_why = \<lparr>sr_Query = ''go'', sr_RunID = ''run-1'', sr_Locale = '''', sr_Device = '''', sr_FetchedAt = 7, sr_LatencyMS = 12,
     sr_ProxyUsed = ''p1'', AIOverview = None, FeaturedSnippet = None, PeopleAlsoAsk = [''why''], Organic = [], Calibration = None,
     sr_RawBody = ''''\<rparr>"

lemma asked_why_written: "fst (pg_Write short_json list_db asked_why []) = None"
  by code_simp


lemma pg_WritePage_row:
  assumes "pg_WritePage js ops p d = (None, d')"
  obtains cs where "map Inr cs = [marshalOptional (sj_Headings js) (unless_nil (Headings p)), marshalOptional (sj_OpenGraph js) (unless_nil (OpenGraph p)),
      marshalOptional (sj_Raws js) (unless_nil (JSONLD p)), marshalOptional (sj_Strings js) (Option.bind (pg_Links p) unless_nil),
      marshalOptional (sj_Fields js) (unless_nil (pg_Fields p)), marshalOptional (sj_Items js) (unless_nil (Items p)),
      marshalOptional (sj_Extraction js) (Extraction p)]"
    "db_Insert ops ''pages'' (zip page_columns [nullIfEmpty (pg_RunID p), SText (pg_Target p), SText (pg_URL p), nullIfEmpty (pg_FinalURL p), SInt (pg_Depth p),
       SInt (pg_StatusCode p), nullIfEmpty (pg_ContentType p), STime (pg_FetchedAt p), SInt (pg_LatencyMS p),
       nullIfEmpty (pg_ProxyUsed p), nullIfEmpty (pg_Title p), nullIfEmpty (Description p), nullIfEmpty (Canonical p),
       nullIfEmpty (pg_Language p), cs ! 0, cs ! 1, cs ! 2, nullIfEmpty (pg_Text p), cs ! 3, cs ! 4,
       cs ! 5, cs ! 6, nullBytes (pg_RawBody p)]) d = (None, d')"
  using assms unfolding pg_WritePage_def insert_columns_def
  by (auto simp del: marshal_all.simps zip_Cons_Cons append_Cons nth_Cons_0 nth_Cons_Suc simp: marshal_all_Inr comp_def split: sum.splits prod.splits option.splits)

text \<open>The same of a crawled page; an empty list of links and one that was not asked for are both stored as null.\<close>

lemma stored_page_complete:
  assumes "db_laws ops" "decodes js dec" "pg_WritePage js ops p d = (None, d')"
  shows "\<exists>row. db_Rows ops ''pages'' d' = db_Rows ops ''pages'' d @ [row] \<and>
    row_page dec row = p\<lparr>pg_Links := Option.bind (pg_Links p) unless_nil\<rparr>"
proof -
  from pg_WritePage_row [OF assms(3)] obtain cs where
    cs: "map Inr cs = [marshalOptional (sj_Headings js) (unless_nil (Headings p)), marshalOptional (sj_OpenGraph js) (unless_nil (OpenGraph p)),
      marshalOptional (sj_Raws js) (unless_nil (JSONLD p)), marshalOptional (sj_Strings js) (Option.bind (pg_Links p) unless_nil),
      marshalOptional (sj_Fields js) (unless_nil (pg_Fields p)), marshalOptional (sj_Items js) (unless_nil (Items p)),
      marshalOptional (sj_Extraction js) (Extraction p)]"
    and ins: "db_Insert ops ''pages'' (zip page_columns [nullIfEmpty (pg_RunID p), SText (pg_Target p), SText (pg_URL p), nullIfEmpty (pg_FinalURL p), SInt (pg_Depth p),
       SInt (pg_StatusCode p), nullIfEmpty (pg_ContentType p), STime (pg_FetchedAt p), SInt (pg_LatencyMS p),
       nullIfEmpty (pg_ProxyUsed p), nullIfEmpty (pg_Title p), nullIfEmpty (Description p), nullIfEmpty (Canonical p),
       nullIfEmpty (pg_Language p), cs ! 0, cs ! 1, cs ! 2, nullIfEmpty (pg_Text p), cs ! 3, cs ! 4,
       cs ! 5, cs ! 6, nullBytes (pg_RawBody p)]) d = (None, d')" (is "db_Insert ops _ ?row d = _") by blast
  from cs obtain c0 c1 c2 c3 c4 c5 c6 where v: "cs = [c0, c1, c2, c3, c4, c5, c6]"
    "marshalOptional (sj_Headings js) (unless_nil (Headings p)) = Inr c0" "marshalOptional (sj_OpenGraph js) (unless_nil (OpenGraph p)) = Inr c1"
    "marshalOptional (sj_Raws js) (unless_nil (JSONLD p)) = Inr c2" "marshalOptional (sj_Strings js) (Option.bind (pg_Links p) unless_nil) = Inr c3"
    "marshalOptional (sj_Fields js) (unless_nil (pg_Fields p)) = Inr c4" "marshalOptional (sj_Items js) (unless_nil (Items p)) = Inr c5"
    "marshalOptional (sj_Extraction js) (Extraction p) = Inr c6"
    by (auto simp: map_eq_Cons_conv)
  note dec = assms(2) [unfolded decodes_def]
  have read: "read_list (sd_Headings dec) c0 = Headings p" "read_list (sd_OpenGraph dec) c1 = OpenGraph p"
    "read_list (sd_Raws dec) c2 = JSONLD p" "read_option (sd_Strings dec) c3 = Option.bind (pg_Links p) unless_nil"
    "read_list (sd_Fields dec) c4 = pg_Fields p" "read_list (sd_Items dec) c5 = Items p"
    "read_option (sd_Extraction dec) c6 = Extraction p"
    using dec list_col.get_put v(2-4,6,7) option_col.get_put v(5,8) by metis+
  have "row_page dec ?row = p\<lparr>pg_Links := Option.bind (pg_Links p) unless_nil\<rparr>"
    by (simp add: row_page_def column_def page_columns_def v(1) read)
  then show ?thesis using insert_ok [OF assms(1) ins] by auto
qed

subsection \<open>Counting the results of a run\<close>

text \<open>The results that were stored of a sequence of writes, and the database after it.\<close>

fun pg_writes :: "'j store_json \<Rightarrow> 'd db_ops \<Rightarrow> serp_result list \<Rightarrow> 'd \<Rightarrow> serp_result list \<times> 'd" where
  "pg_writes js ops [] d = ([], d)"
| "pg_writes js ops (r # rs) d = (case pg_Write js ops r d of
       (Some e, d) \<Rightarrow> pg_writes js ops rs d
     | (None, d) \<Rightarrow> (let (stored, d) = pg_writes js ops rs d in (r # stored, d)))"

definition run_rows :: "'d db_ops \<Rightarrow> string \<Rightarrow> 'd \<Rightarrow> nat" where
  "run_rows ops runID d = length (filter (\<lambda>row. map_of row ''run_id'' = Some (SText runID)) (db_Rows ops ''serp_results'' d))"

lemma pg_Write_run_rows:
  assumes "db_laws ops" "pg_Write js ops r d = (err, d')" "runID \<noteq> ''''"
  shows "run_rows ops runID d' = run_rows ops runID d + (if err = None \<and> sr_RunID r = runID then 1 else 0)"
proof (cases err)
  case None
  with assms(2) have "pg_Write js ops r d = (None, d')" by simp
  then obtain row where "db_Insert ops ''serp_results'' row d = (None, d')" "map_of row ''run_id'' = Some (nullIfEmpty (sr_RunID r))"
    by (rule pg_Write_row) (simp add: serp_columns_def)
  moreover have "nullIfEmpty (sr_RunID r) = SText runID \<longleftrightarrow> sr_RunID r = runID" using assms(3) by (auto simp: nullIfEmpty_def)
  ultimately show ?thesis using insert_ok [OF assms(1)] None by (simp add: run_rows_def)
next
  case (Some e)
  then have "db_Rows ops t d' = db_Rows ops t d" for t using assms(2) pg_Write_error [OF assms(1)] by blast
  then show ?thesis using Some by (simp add: run_rows_def)
qed

lemma pg_writes_run_rows:
  assumes "db_laws ops" "runID \<noteq> ''''"
  shows "pg_writes js ops rs d = (stored, d') \<Longrightarrow>
    run_rows ops runID d' = run_rows ops runID d + length (filter (\<lambda>r. sr_RunID r = runID) stored)"
proof (induction rs arbitrary: d stored)
  case (Cons r rs)
  obtain err d1 where w: "pg_Write js ops r d = (err, d1)" by fastforce
  show ?case
    using Cons.prems Cons.IH [of d1] pg_Write_run_rows [OF assms(1) w assms(2)]
    by (cases err) (auto simp: w split: prod.splits)
qed simp


definition after_one :: "(string \<times> row) list" where
  "after_one = snd (pg_writes short_json list_db [asked_why] [])"

lemma after_one_stored: "fst (pg_writes short_json list_db [asked_why] []) = [asked_why]"
  using asked_why_written by (simp add: case_prod_unfold split: option.splits)


subsection \<open>One line per result\<close>

fun write_lines :: "(string \<Rightarrow> 'f \<Rightarrow> go_error option \<times> 'f) \<Rightarrow> (go_error + string) list \<Rightarrow> 'f \<Rightarrow> go_error option list \<times> 'f" where
  "write_lines w [] f = ([], f)"
| "write_lines w (m # ms) f = (let (e, f) = writeLine w m f; (es, f) = write_lines w ms f in (e # es, f))"

lemma Split_at_newline: "c \<notin> set b \<Longrightarrow> Split (b @ c # s) c = b # Split s c"
  by (induction b) auto

text \<open>
  A file of JSON lines has one line per result. Whatever order concurrent writers get the lock
  in, when every write succeeded, splitting the file at its newlines gives the encoded results in
  the order they were written, none torn or merged, as long as the encoder emits no newline.
\<close>

theorem jsonl_one_line_each:
  assumes append: "\<And>b f f'. w b f = (None, f') \<Longrightarrow> contents f' = contents f @ b"
    and ok: "write_lines w ms f = (es, f')" "\<forall>e\<in>set es. e = None" "contents f = ''''"
    and line: "\<And>b. Inr b \<in> set ms \<Longrightarrow> CHR 0x0A \<notin> set b"
  shows "map Inr (butlast (Split (contents f') CHR 0x0A)) = ms \<and> last (Split (contents f') CHR 0x0A) = ''''"
proof -
  have gen: "\<exists>bs. ms = map Inr bs \<and> contents f' = contents f @ concat (map (\<lambda>b. b @ newline) bs)"
    if "write_lines w ms f = (es, f')" "\<forall>e\<in>set es. e = None" for ms es f
    using that
  proof (induction ms arbitrary: f es)
    case (Cons m ms)
    obtain e f1 where w: "writeLine w m f = (e, f1)" by fastforce
    obtain es1 f2 where ws: "write_lines w ms f1 = (es1, f2)" by fastforce
    have all: "e = None" "\<forall>e\<in>set es1. e = None" "f2 = f'" using Cons.prems by (auto simp: w ws)
    from w all(1) obtain b where "m = Inr b" "contents f1 = contents f @ b @ newline"
      using append by (auto simp: writeLine_def split: sum.splits prod.splits option.splits)
    moreover from Cons.IH [of f1 es1] ws all obtain bs where "ms = map Inr bs" "contents f' = contents f1 @ concat (map (\<lambda>b. b @ newline) bs)" by auto
    ultimately show ?case by (intro exI [of _ "b # bs"]) simp
  qed simp
  obtain bs where bs: "ms = map Inr bs" "contents f' = concat (map (\<lambda>b. b @ newline) bs)"
    using gen [OF ok(1,2)] ok(3) by auto
  have "CHR 0x0A \<notin> set b" if "b \<in> set bs" for b using line [of b] that bs(1) by auto
  then have "Split (concat (map (\<lambda>b. b @ newline) bs)) CHR 0x0A = bs @ ['''']"
    by (induction bs) (auto simp: newline_def Split_at_newline)
  then show ?thesis using bs by (simp add: butlast_append)
qed

theorem jsonl_one_line_each_witness:
  "Split (snd (write_lines (\<lambda>b f. (None, f @ b)) [Inr ''{}'', Inr ''[1]''] '''')) CHR 0x0A = [''{}'', ''[1]'', '''']"
proof -
  let ?w = "\<lambda>b f. (None, f @ b) :: go_error option \<times> string" and ?f = "''{}'' @ newline @ ''[1]'' @ newline"
  have r: "write_lines ?w [Inr ''{}'', Inr ''[1]''] '''' = ([None, None], ?f)" by (simp add: writeLine_def newline_def)
  have "CHR 0x0A \<notin> set b" if "Inr b \<in> set [Inr ''{}'', Inr ''[1]'' :: go_error + string]" for b using that by auto
  then have "map Inr (butlast (Split ?f CHR 0x0A)) = [Inr ''{}'', Inr ''[1]'' :: go_error + string] \<and> last (Split ?f CHR 0x0A) = ''''"
    by (intro jsonl_one_line_each [where contents = "\<lambda>f. f", OF _ r]) auto
  then have "butlast (Split ?f CHR 0x0A) = [''{}'', ''[1]'']" "last (Split ?f CHR 0x0A) = ''''" by auto
  then have "Split ?f CHR 0x0A = [''{}'', ''[1]'', '''']" by (metis Split_not_Nil append_butlast_last_id append_Cons append_Nil)
  then show ?thesis unfolding r snd_conv .
qed

subsection \<open>Rows fit the schema\<close>

definition json_or_null :: "sql_value \<Rightarrow> bool" where
  "json_or_null v \<longleftrightarrow> v = SNull \<or> (\<exists>b. v = SJson b)"

lemma marshal_json [simp]:
  "marshal_column m = Inr v \<Longrightarrow> json_or_null v" "marshalOptional enc x = Inr v \<Longrightarrow> json_or_null v"
  by (auto simp: marshal_column_Inr marshalOptional_def json_or_null_def split: option.splits)

lemma fits_col:
  "json_or_null v \<Longrightarrow> value_fits (col n JSONB) v" "value_fits (col n TEXT) (nullIfEmpty s)" "value_fits (col n BYTEA) (nullBytes s)"
  "value_fits (required (col n TEXT)) (SText s)" "value_fits (required (col n TIMESTAMPTZ)) (STime i)"
  "value_fits (defaulted (required (col n BIGINT))) (SInt k)" "value_fits (defaulted (required (col n INTEGER))) (SInt k)"
  by (auto simp: value_fits_def col_def required_def defaulted_def json_or_null_def nullIfEmpty_def nullBytes_def)

lemma col_simps [simp]:
  "cd_name (col n t) = n" "cd_name (required c) = cd_name c" "cd_name (defaulted c) = cd_name c"
  "cd_notnull (col n t) = False" "cd_notnull (required c) = True" "cd_notnull (defaulted c) = cd_notnull c"
  "cd_default (col n t) = False" "cd_default (required c) = cd_default c" "cd_default (defaulted c) = True"
  by (simp_all add: col_def required_def defaulted_def)

lemma pg_Write_fits:
  assumes "db_laws ops" and "pg_Write js ops r d = (err, d')" and "row \<in> set (db_Rows ops ''serp_results'' d')"
  shows "row \<in> set (db_Rows ops ''serp_results'' d) \<or> row_fits serp_schema row"
proof (cases err)
  case None
  with assms(2) obtain cs where cs: "map Inr cs = [marshal_column (sj_Organic js (Organic r)), marshalOptional (sj_Snippet js) (FeaturedSnippet r),
      marshalOptional (sj_Overview js) (AIOverview r), marshalOptional (sj_Strings js) (unless_nil (PeopleAlsoAsk r)),
      marshalOptional (sj_Calibration js) (Calibration r)]"
    and ins: "db_Insert ops ''serp_results'' (zip serp_columns ([nullIfEmpty (sr_RunID r), SText (sr_Query r), nullIfEmpty (sr_Locale r),
      nullIfEmpty (sr_Device r), STime (sr_FetchedAt r), SInt (sr_LatencyMS r), nullIfEmpty (sr_ProxyUsed r)] @ cs @ [nullBytes (sr_RawBody r)])) d = (None, d')"
    using pg_Write_row by metis
  from cs obtain a b c e f where v: "cs = [a, b, c, e, f]" "json_or_null a" "json_or_null b" "json_or_null c" "json_or_null e" "json_or_null f"
    by (fastforce simp: map_eq_Cons_conv dest: marshal_json)
  show ?thesis using assms(3) insert_ok [OF assms(1) ins] fits_col
    by (auto simp: v row_fits_def serp_schema_def serp_columns_def)
next
  case (Some e)
  then show ?thesis using pg_Write_error [OF assms(1), of js r d e d'] assms(2,3) by auto
qed

lemma pg_WritePage_fits:
  assumes "db_laws ops" and "pg_WritePage js ops p d = (err, d')" and "row \<in> set (db_Rows ops ''pages'' d')"
  shows "row \<in> set (db_Rows ops ''pages'' d) \<or> row_fits page_schema row"
proof (cases err)
  case None
  with assms(2) obtain cs where cs: "map Inr cs = [marshalOptional (sj_Headings js) (unless_nil (Headings p)), marshalOptional (sj_OpenGraph js) (unless_nil (OpenGraph p)),
      marshalOptional (sj_Raws js) (unless_nil (JSONLD p)), marshalOptional (sj_Strings js) (Option.bind (pg_Links p) unless_nil),
      marshalOptional (sj_Fields js) (unless_nil (pg_Fields p)), marshalOptional (sj_Items js) (unless_nil (Items p)),
      marshalOptional (sj_Extraction js) (Extraction p)]"
    and ins: "db_Insert ops ''pages'' (zip page_columns [nullIfEmpty (pg_RunID p), SText (pg_Target p), SText (pg_URL p), nullIfEmpty (pg_FinalURL p), SInt (pg_Depth p),
      SInt (pg_StatusCode p), nullIfEmpty (pg_ContentType p), STime (pg_FetchedAt p), SInt (pg_LatencyMS p),
      nullIfEmpty (pg_ProxyUsed p), nullIfEmpty (pg_Title p), nullIfEmpty (Description p), nullIfEmpty (Canonical p),
      nullIfEmpty (pg_Language p), cs ! 0, cs ! 1, cs ! 2, nullIfEmpty (pg_Text p), cs ! 3, cs ! 4,
      cs ! 5, cs ! 6, nullBytes (pg_RawBody p)]) d = (None, d')"
    using pg_WritePage_row by metis
  from cs obtain a b c e f g h where v: "cs = [a, b, c, e, f, g, h]" "json_or_null a" "json_or_null b" "json_or_null c" "json_or_null e"
      "json_or_null f" "json_or_null g" "json_or_null h"
    by (fastforce simp: map_eq_Cons_conv dest: marshal_json)
  show ?thesis using assms(3) insert_ok [OF assms(1) ins] fits_col
    by (auto simp: v row_fits_def page_schema_def page_columns_def)
next
  case (Some e)
  then show ?thesis using pg_WritePage_error [OF assms(1), of js p d e d'] assms(2,3) by auto
qed

text \<open>
  C39. What the sink inserts, the schema accepts. Every row that a write of a result or of a page
  adds names columns of its table, each once, with values of the column's type, null only where the
  column allows it, and supplies every column that may not be null and has no default.
\<close>

theorem rows_fit_schema:
  assumes "db_laws ops"
  shows "(pg_Write js ops r d = (err, d') \<longrightarrow>
      (\<forall>row\<in>set (db_Rows ops ''serp_results'' d'). row \<in> set (db_Rows ops ''serp_results'' d) \<or> row_fits serp_schema row)) \<and>
    (pg_WritePage js ops p d = (err, d') \<longrightarrow>
      (\<forall>row\<in>set (db_Rows ops ''pages'' d'). row \<in> set (db_Rows ops ''pages'' d) \<or> row_fits page_schema row))"
  using assms by (auto dest: pg_Write_fits pg_WritePage_fits)

lemma asked_why_row: "\<exists>row. db_Rows list_db ''serp_results'' (snd (pg_Write short_json list_db asked_why [])) = [row]"
  by (simp add: list_db_def pg_Write_def insert_columns_def asked_why_def short_json_def marshalOptional_def unless_nil_def)

theorem rows_fit_schema_witness:
  "\<exists>row. db_Rows list_db ''serp_results'' (snd (pg_Write short_json list_db asked_why [])) = [row] \<and> row_fits serp_schema row"
proof -
  have "pg_Write short_json list_db asked_why [] = (None, snd (pg_Write short_json list_db asked_why []))"
    using asked_why_written by (metis prod.collapse)
  moreover have "db_Rows list_db ''serp_results'' [] = []" by (simp add: list_db_def)
  ultimately show ?thesis
    using rows_fit_schema [OF list_db_laws, of short_json asked_why "[]"] asked_why_row
    by (metis empty_iff empty_set list.set_intros(1))
qed

end
