(* ===== verification/Harvest_Run.thy ===== *)
theory Harvest_Run
  imports Job_Queue
begin

text \<open>
  A harvest as a whole: the goroutine of \<open>queue.MemorySource\<close>, the channel, and the workers of
  \<open>worker.Pool\<close>, in every interleaving. It is the composition that \<open>cmd/harvester\<close> runs on a list of
  queries and that \<open>cmd/loadtest\<close> measures. A worker handles its job by \<open>process\<close>; the counters are
  atomic, so what \<open>process\<close> adds to them is what the whole adds, whatever the others do meanwhile,
  and the sink locks a mutex around the one write a job makes.
\<close>

subsection \<open>The composition\<close>

record 's harvest_run =
  hv_source :: memory_source
  hv_workers :: "job worker_status list"
  hv_done :: "job list"
  hv_sink :: 's
  hv_Success :: "64 word"
  hv_Dropped :: "64 word"

text \<open>
  The worker starts a job in some state \<open>st\<close> of the shared pool, limiter and counters; all that is
  known of it is the invariant of the proxy pool, which every operation keeps. Source and workers
  share the context.
\<close>

inductive harvest_step :: "('b, 'w) env \<Rightarrow> worker \<Rightarrow> (string \<Rightarrow> string \<Rightarrow> go_error + serp_result) \<Rightarrow>
    (serp_result \<Rightarrow> 's \<Rightarrow> go_error option \<times> 's) \<Rightarrow> 's harvest_run \<Rightarrow> 's harvest_run \<Rightarrow> bool"
  for env p parse wr where
  produce: "memory_step (hv_source s) m \<Longrightarrow> m \<noteq> hv_source s \<Longrightarrow> ms_received m = ms_received (hv_source s) \<Longrightarrow>
    harvest_step env p parse wr s (s\<lparr>hv_source := m\<rparr>)"
| take: "i < length (hv_workers s) \<Longrightarrow> hv_workers s ! i = Idle \<Longrightarrow> memory_step (hv_source s) m \<Longrightarrow>
    ms_received m = ms_received (hv_source s) @ [j] \<Longrightarrow>
    harvest_step env p parse wr s (s\<lparr>hv_source := m, hv_workers := (hv_workers s)[i := Busy j]\<rparr>)"
| handled: "i < length (hv_workers s) \<Longrightarrow> hv_workers s ! i = Busy j \<Longrightarrow> pool_wf (n_pool (st_net st)) \<Longrightarrow>
    process env p parse wr j st (hv_sink s) = Some (r, st', sink') \<Longrightarrow>
    harvest_step env p parse wr s (s\<lparr>hv_workers := (hv_workers s)[i := Idle], hv_done := hv_done s @ [j], hv_sink := sink',
      hv_Success := hv_Success s + (c_Success (st_met st') - c_Success (st_met st)),
      hv_Dropped := hv_Dropped s + (c_Dropped (st_met st') - c_Dropped (st_met st))\<rparr>)"
| drained: "i < length (hv_workers s) \<Longrightarrow> hv_workers s ! i = Idle \<Longrightarrow> ms_closed (hv_source s) \<Longrightarrow> ms_chan (hv_source s) = [] \<Longrightarrow>
    harvest_step env p parse wr s (s\<lparr>hv_workers := (hv_workers s)[i := Stopped]\<rparr>)"
| canceled: "i < length (hv_workers s) \<Longrightarrow> hv_workers s ! i = Idle \<Longrightarrow> ms_ctxDone (hv_source s) \<Longrightarrow>
    harvest_step env p parse wr s (s\<lparr>hv_workers := (hv_workers s)[i := Stopped]\<rparr>)"

definition harvest_start :: "nat \<Rightarrow> nat \<Rightarrow> string list \<Rightarrow> 's \<Rightarrow> 's harvest_run" where
  "harvest_start c buffer queries sink = \<lparr>hv_source = memory_Jobs queries buffer, hv_workers = replicate c Idle,
     hv_done = [], hv_sink = sink, hv_Success = 0, hv_Dropped = 0\<rparr>"

definition harvest_returned :: "'s harvest_run \<Rightarrow> bool" where
  "harvest_returned s \<longleftrightarrow> list_all (\<lambda>w. w = Stopped) (hv_workers s)"

subsection \<open>Refinement of \<open>Run\<close> on a list of jobs\<close>

text \<open>What is left to send and what waits in the channel are the jobs that \<open>run_step\<close> has in its queue.\<close>

definition as_run :: "'s harvest_run \<Rightarrow> job run_state" where
  "as_run s = \<lparr>rs_queue = ms_chan (hv_source s) @ map query_job (ms_left (hv_source s)),
     rs_workers = hv_workers s, rs_done = hv_done s, rs_ctxDone = ms_ctxDone (hv_source s)\<rparr>"

lemma memory_source_same:
  "a\<lparr>ms_ctxDone := True\<rparr> = a \<longleftrightarrow> ms_ctxDone a" "a\<lparr>ms_closed := True\<rparr> = a \<longleftrightarrow> ms_closed a"
  by (cases a; simp)+

text \<open>How a step of the source looks to the queue: it keeps it, or the first job leaves it.\<close>

lemma memory_step_kept:
  assumes "memory_step a m" "ms_received m = ms_received a"
  shows "ms_chan m @ map query_job (ms_left m) = ms_chan a @ map query_job (ms_left a)"
    "ms_ctxDone a \<Longrightarrow> ms_ctxDone m"
  using assms by (auto elim!: memory_stepE)

lemma memory_step_taken:
  assumes "memory_step a m" "ms_received m = ms_received a @ [j]"
  shows "ms_chan a @ map query_job (ms_left a) = j # ms_chan m @ map query_job (ms_left m)" "ms_ctxDone m = ms_ctxDone a"
  using assms by (auto elim!: memory_stepE)

lemma memory_closed_empty:
  "memory_inv qs n a \<Longrightarrow> ms_closed a \<Longrightarrow> \<not> ms_ctxDone a \<Longrightarrow> ms_left a = []"
  by (auto simp: memory_inv_def)

lemma harvest_step_source:
  assumes "harvest_step env p parse wr s t"
  shows "memory_step\<^sup>=\<^sup>= (hv_source s) (hv_source t)"
  using assms by cases auto

lemma harvest_refines_Run:
  assumes "harvest_step env p parse wr s t" "memory_inv qs n (hv_source s)"
  shows "run_step\<^sup>=\<^sup>= (as_run s) (as_run t)"
  using assms(1)
proof cases
  case (produce m)
  then show ?thesis
    using memory_step_kept [OF produce(2,4)] run_step.cancel [of "as_run s"]
    by (cases "ms_ctxDone (hv_source s)"; cases "ms_ctxDone m") (auto simp: as_run_def)
next
  case (take i m j)
  then show ?thesis
    using memory_step_taken [OF take(4,5)] run_step.receive [of i "as_run s" j "ms_chan m @ map query_job (ms_left m)"]
    by (auto simp: as_run_def)
next
  case (handled i j st r st' sink')
  then show ?thesis using run_step.processed [of i "as_run s" j] by (auto simp: as_run_def)
next
  case (drained i)
  then show ?thesis
    using run_step.closed [of i "as_run s"] run_step.ctx_done [of i "as_run s"] memory_closed_empty [OF assms(2)]
    by (cases "ms_ctxDone (hv_source s)") (auto simp: as_run_def)
next
  case (canceled i)
  then show ?thesis using run_step.ctx_done [of i "as_run s"] by (auto simp: as_run_def)
qed

subsection \<open>What a harvest accounts for\<close>

definition harvest_ledger :: "(string \<Rightarrow> string \<Rightarrow> go_error + serp_result) \<Rightarrow> (serp_result \<Rightarrow> 's \<Rightarrow> go_error option \<times> 's) \<Rightarrow>
    's \<Rightarrow> 's harvest_run \<Rightarrow> bool" where
  "harvest_ledger parse wr sink s \<longleftrightarrow>
     (\<exists>js rs. list_all2 (result_of parse) js rs \<and> mset js \<subseteq># mset (hv_done s) \<and> hv_sink s = fold (\<lambda>r. snd \<circ> wr r) rs sink \<and>
        hv_Success s = of_nat (length rs)) \<and>
     hv_Success s + hv_Dropped s = of_nat (length (hv_done s))"

lemma ledger_frame:
  "harvest_ledger parse wr sink (s\<lparr>hv_source := m\<rparr>) = harvest_ledger parse wr sink s"
  "harvest_ledger parse wr sink (s\<lparr>hv_workers := ws\<rparr>) = harvest_ledger parse wr sink s"
  by (simp_all add: harvest_ledger_def)

lemma ledger_success:
  assumes "harvest_ledger parse wr sink s" "result_of parse j res"
  shows "harvest_ledger parse wr sink (s\<lparr>hv_workers := ws, hv_done := hv_done s @ [j], hv_sink := snd (wr res (hv_sink s)),
    hv_Success := hv_Success s + 1, hv_Dropped := hv_Dropped s\<rparr>)"
proof -
  from assms(1) obtain js rs where "list_all2 (result_of parse) js rs" "mset js \<subseteq># mset (hv_done s)"
      "hv_sink s = fold (\<lambda>r. snd \<circ> wr r) rs sink" "hv_Success s = of_nat (length rs)"
    by (auto simp: harvest_ledger_def)
  then have "list_all2 (result_of parse) (js @ [j]) (rs @ [res])" "mset (js @ [j]) \<subseteq># mset (hv_done s @ [j])"
      "snd (wr res (hv_sink s)) = fold (\<lambda>r. snd \<circ> wr r) (rs @ [res]) sink" "hv_Success s + 1 = of_nat (length (rs @ [res]))"
    using assms(2) by (simp_all add: list_all2_appendI)
  then show ?thesis using assms(1) unfolding harvest_ledger_def
    by (intro conjI exI [of _ "js @ [j]"] exI [of _ "rs @ [res]"]) (simp_all add: algebra_simps)
qed

lemma ledger_dropped:
  assumes "harvest_ledger parse wr sink s"
  shows "harvest_ledger parse wr sink (s\<lparr>hv_workers := ws, hv_done := hv_done s @ [j], hv_sink := hv_sink s,
    hv_Success := hv_Success s, hv_Dropped := hv_Dropped s + 1\<rparr>)"
proof -
  have "mset js \<subseteq># mset (hv_done s @ [j])" if "mset js \<subseteq># mset (hv_done s)" for js
    using subset_mset.order_trans [OF that mset_subset_eq_add_left [of _ "{#j#}"]] by simp
  moreover have "hv_Success s + (hv_Dropped s + 1) = of_nat (length (hv_done s @ [j]))"
    using assms by (simp add: harvest_ledger_def algebra_simps)
  ultimately show ?thesis using assms unfolding harvest_ledger_def by fastforce
qed

lemma ledger_step:
  assumes "harvest_step env p parse wr s t" "harvest_ledger parse wr sink s" "env_laws env" "MaxRetries p \<le> 37"
  shows "harvest_ledger parse wr sink t"
  using assms(1)
proof cases
  case (handled i j st r st' sink')
  from process_ends [OF assms(3) handled(4) assms(4) handled(5)] show ?thesis
  proof (elim disjE conjE exE)
    fix res assume "result_of parse j res" "sink' = snd (wr res (hv_sink s))"
      "c_Success (st_met st') = c_Success (st_met st) + 1" "c_Dropped (st_met st') = c_Dropped (st_met st)"
    then show ?thesis using ledger_success [OF assms(2)] by (simp add: handled(1))
  next
    assume "sink' = hv_sink s" "c_Success (st_met st') = c_Success (st_met st)"
      "c_Dropped (st_met st') = c_Dropped (st_met st) + 1"
    then show ?thesis using ledger_dropped [OF assms(2)] by (simp add: handled(1))
  qed
qed (use assms(2) in \<open>simp_all add: harvest_ledger_def\<close>)

definition harvest_inv :: "(string \<Rightarrow> string \<Rightarrow> go_error + serp_result) \<Rightarrow> (serp_result \<Rightarrow> 's \<Rightarrow> go_error option \<times> 's) \<Rightarrow>
    nat \<Rightarrow> nat \<Rightarrow> string list \<Rightarrow> 's \<Rightarrow> 's harvest_run \<Rightarrow> bool" where
  "harvest_inv parse wr c b qs sink s \<longleftrightarrow> memory_inv qs b (hv_source s) \<and>
     run_step\<^sup>*\<^sup>* (run_init c (map query_job qs)) (as_run s) \<and> harvest_ledger parse wr sink s"

lemma harvest_inv_start: "harvest_inv parse wr c b qs sink (harvest_start c b qs sink)"
proof -
  have "as_run (harvest_start c b qs sink) = run_init c (map query_job qs)"
    by (simp add: as_run_def harvest_start_def memory_Jobs_def run_init_def)
  moreover have "memory_inv qs b (hv_source (harvest_start c b qs sink))"
    by (simp add: harvest_start_def memory_inv_def memory_Jobs_def)
  moreover have "harvest_ledger parse wr sink (harvest_start c b qs sink)"
    by (auto simp: harvest_ledger_def harvest_start_def intro!: exI [of _ "[]"])
  ultimately show ?thesis by (simp add: harvest_inv_def)
qed

lemma harvest_inv_step:
  assumes "harvest_step env p parse wr s t" "harvest_inv parse wr c b qs sink s" "env_laws env" "MaxRetries p \<le> 37"
  shows "harvest_inv parse wr c b qs sink t"
proof -
  have m: "memory_inv qs b (hv_source s)" using assms(2) by (simp add: harvest_inv_def)
  have "memory_inv qs b (hv_source t)" using harvest_step_source [OF assms(1)] m memory.inv_step by auto
  moreover have "run_step\<^sup>*\<^sup>* (as_run s) (as_run t)" using harvest_refines_Run [OF assms(1) m] by auto
  ultimately show ?thesis
    using assms(2) ledger_step [OF assms(1) _ assms(3,4)] by (auto simp: harvest_inv_def)
qed

interpretation harvest: invariant_system
    "\<lambda>s. s = harvest_start c b qs sink \<and> env_laws env \<and> MaxRetries p \<le> 37" "harvest_step env p parse wr"
    "\<lambda>s. env_laws env \<and> MaxRetries p \<le> 37 \<and> harvest_inv parse wr c b qs sink s" for c b qs sink env p parse wr
  by unfold_locales (auto intro: harvest_inv_start harvest_inv_step)

lemma harvest_ends:
  assumes "(harvest_step env p parse wr)\<^sup>*\<^sup>* (harvest_start c b qs sink) s" "harvest_returned s"
    and "env_laws env" "MaxRetries p \<le> 37" "0 < c"
  shows "(\<exists>js rs. list_all2 (result_of parse) js rs \<and> mset js \<subseteq># mset (hv_done s) \<and>
        hv_sink s = fold (\<lambda>r. snd \<circ> wr r) rs sink \<and> hv_Success s = of_nat (length rs)) \<and>
    hv_Success s + hv_Dropped s = of_nat (length (hv_done s)) \<and>
    mset (hv_done s) \<subseteq># mset (map query_job qs) \<and>
    (\<not> ms_ctxDone (hv_source s) \<longrightarrow> mset (hv_done s) = mset (map query_job qs))"
proof -
  have inv: "harvest_inv parse wr c b qs sink s"
    using harvest.inv_reach [of "harvest_start c b qs sink" c b qs sink env p parse wr s] assms(1,3,4) by blast
  then have run: "run_step\<^sup>*\<^sup>* (run_init c (map query_job qs)) (as_run s)" by (simp add: harvest_inv_def)
  have "Run_returned (as_run s)" using assms(2) by (simp add: harvest_returned_def Run_returned_def as_run_def)
  moreover have "rs_done (as_run s) = hv_done s" "rs_ctxDone (as_run s) = ms_ctxDone (hv_source s)" by (simp_all add: as_run_def)
  ultimately have once: "mset (map query_job qs) = mset (rs_queue (as_run s)) + mset (hv_done s)"
      "\<not> ms_ctxDone (hv_source s) \<longrightarrow> mset (hv_done s) = mset (map query_job qs)"
    using Run_each_job_once [OF run _ assms(5)] by metis+
  have "mset (hv_done s) \<subseteq># mset (map query_job qs)" unfolding once(1) by (rule mset_subset_eq_add_right)
  with inv once(2) show ?thesis unfolding harvest_inv_def harvest_ledger_def by blast
qed

text \<open>
  C6. A harvest accounts for every query. Whenever \<open>Run\<close> has returned, in every interleaving of the source
  and the workers: the jobs handled are jobs of the list, each at most as often as it is listed, and
  all of them unless the context ended; success and dropped together count exactly the jobs handled;
  and the sink has received one result per success and nothing else, each the parser's result for
  the query of its own job.
\<close>

theorem harvest_accounts:
  assumes "(harvest_step env p parse wr)\<^sup>*\<^sup>* (harvest_start c b qs sink) s" "harvest_returned s"
    and "env_laws env" "MaxRetries p \<le> 37" "0 < c"
  shows "(\<exists>js rs. list_all2 (result_of parse) js rs \<and> mset js \<subseteq># mset (hv_done s) \<and>
        hv_sink s = fold (\<lambda>r. snd \<circ> wr r) rs sink \<and> hv_Success s = of_nat (length rs)) \<and>
    hv_Success s + hv_Dropped s = of_nat (length (hv_done s)) \<and>
    mset (hv_done s) \<subseteq># mset (map query_job qs) \<and>
    (\<not> ms_ctxDone (hv_source s) \<longrightarrow> mset (hv_done s) = mset (map query_job qs))"
  by (rule harvest_ends [OF assms])

definition keep_query :: "serp_result \<Rightarrow> string list \<Rightarrow> go_error option \<times> string list" where
  "keep_query r s = (None, s @ [sr_Query r])"

lemma one_query_run:
  "\<exists>s. (harvest_step scripted three_tries (\<lambda>q b. Inr (empty_result q)) keep_query)\<^sup>*\<^sup>* (harvest_start 1 0 [''go''] []) s \<and>
     harvest_returned s \<and> hv_sink s = [''go''] \<and> \<not> ms_ctxDone (hv_source s)"
proof -
  let ?step = "harvest_step scripted three_tries (\<lambda>q b. Inr (empty_result q)) keep_query" and ?j = "query_job ''go''"
    and ?s0 = "harvest_start 1 0 [''go''] ([] :: string list)"
  let ?run = "process scripted three_tries (\<lambda>q b. Inr (empty_result q)) keep_query ?j (scripted_state [Inr answer] None) []"
  define s1 where "s1 = ?s0\<lparr>hv_source := (hv_source ?s0)\<lparr>ms_left := [], ms_received := [?j]\<rparr>, hv_workers := [Busy ?j]\<rparr>"
  have "map_option (\<lambda>(r, st, s). s) ?run = Some [''go'']" by code_simp
  then obtain r st' where run: "?run = Some (r, st', [''go''])" by auto
  have "?step ?s0 s1"
    using harvest_step.take [where i = 0 and s = ?s0 and j = ?j, OF _ _ memory_step.hand [of "hv_source ?s0" "''go''" "[]"]]
    by (simp add: s1_def harvest_start_def memory_Jobs_def)
  moreover obtain s2 where "?step s1 s2" "hv_source s2 = hv_source s1" "hv_workers s2 = [Idle]" "hv_sink s2 = [''go'']"
    using harvest_step.handled [where i = 0 and s = s1 and j = ?j and st = "scripted_state [Inr answer] None", OF _ _ scripted_pool_wf] run
    by (fastforce simp: s1_def harvest_start_def)
  moreover obtain s3 where "?step s2 s3" "hv_source s3 = (hv_source s1)\<lparr>ms_closed := True\<rparr>" "hv_workers s3 = [Idle]" "hv_sink s3 = [''go'']"
    using harvest_step.produce [where s = s2, OF memory_step.finish] calculation(3-)
    by (fastforce simp: s1_def harvest_start_def memory_Jobs_def)
  moreover obtain s4 where "?step s3 s4" "hv_source s4 = hv_source s3" "hv_workers s4 = [Stopped]" "hv_sink s4 = [''go'']"
    using harvest_step.drained [where i = 0 and s = s3] calculation(7-)
    by (fastforce simp: s1_def harvest_start_def memory_Jobs_def)
  ultimately have "?step\<^sup>*\<^sup>* ?s0 s4" "harvest_returned s4" "hv_sink s4 = [''go'']" "\<not> ms_ctxDone (hv_source s4)"
    by (auto simp: harvest_returned_def s1_def harvest_start_def memory_Jobs_def
        intro: converse_rtranclp_into_rtranclp)
  then show ?thesis by blast
qed

theorem harvest_accounts_witness:
  "\<exists>s. (harvest_step scripted three_tries (\<lambda>q b. Inr (empty_result q)) keep_query)\<^sup>*\<^sup>* (harvest_start 1 0 [''go''] []) s \<and>
     harvest_returned s \<and> hv_sink s = [''go''] \<and> hv_Success s + hv_Dropped s = 1 \<and> hv_done s = [query_job ''go'']"
proof -
  obtain s where s: "(harvest_step scripted three_tries (\<lambda>q b. Inr (empty_result q)) keep_query)\<^sup>*\<^sup>* (harvest_start 1 0 [''go''] []) s"
      "harvest_returned s" "hv_sink s = [''go'']" "\<not> ms_ctxDone (hv_source s)" using one_query_run by auto
  have "MaxRetries three_tries \<le> 37" by (simp add: three_tries_def)
  note all = harvest_accounts [OF s(1,2) scripted_laws this]
  then have "hv_Success s + hv_Dropped s = of_nat (length (hv_done s))" "mset (hv_done s) = {#query_job ''go''#}"
    using s(4) by simp_all
  then show ?thesis using s by auto
qed

subsection \<open>A harvest ends\<close>

fun worker_load :: "'j worker_status \<Rightarrow> nat" where
  "worker_load (Busy j) = 2"
| "worker_load Idle = 1"
| "worker_load Stopped = 0"

definition harvest_measure :: "'s harvest_run \<Rightarrow> nat" where
  "harvest_measure s = 5 * length (ms_left (hv_source s)) + 3 * length (ms_chan (hv_source s)) +
     (if ms_closed (hv_source s) then 0 else 1) + (if ms_ctxDone (hv_source s) then 0 else 1) +
     sum_list (map worker_load (hv_workers s))"

lemma harvest_step_decreases:
  assumes "harvest_step env p parse wr s t"
  shows "harvest_measure t < harvest_measure s"
  using assms
proof cases
  case (produce m)
  from produce(2) show ?thesis
    by cases (use produce(1,3,4) in \<open>simp_all add: harvest_measure_def memory_source_same\<close>)
next
  case (take i m j)
  from take(4) show ?thesis
    by cases (use take sum_list_map_update [OF take(2), of worker_load "Busy j"] in \<open>auto simp: harvest_measure_def\<close>)
next
  case (handled i j st r st' sink')
  then show ?thesis
    using sum_list_map_update [OF handled(2), of worker_load Idle] by (simp add: harvest_measure_def)
next
  case (drained i)
  then show ?thesis
    using sum_list_map_update [OF drained(2), of worker_load Stopped] by (simp add: harvest_measure_def)
next
  case (canceled i)
  then show ?thesis
    using sum_list_map_update [OF canceled(2), of worker_load Stopped] by (simp add: harvest_measure_def)
qed

interpretation harvest_progress: measured_system "harvest_step env p parse wr" harvest_measure for env p parse wr
  by unfold_locales (rule harvest_step_decreases)

text \<open>A worker that has not stopped can always go on, by itself or together with the source.\<close>

lemma idle_goes_on:
  assumes "i < length (hv_workers s)" "hv_workers s ! i = Idle"
  shows "Ex (harvest_step env p parse wr s)"
proof (cases "ms_chan (hv_source s)")
  case (Cons j js)
  then show ?thesis using harvest_step.take [where j = j, OF assms memory_step.receive [OF Cons], of env p parse wr] by (simp add: exI)
next
  case Nil
  show ?thesis
  proof (cases "ms_closed (hv_source s)")
    case True
    then show ?thesis using harvest_step.drained [OF assms True Nil] by blast
  next
    case False
    show ?thesis
    proof (cases "ms_left (hv_source s)")
      case (Cons q qs)
      then show ?thesis using harvest_step.take [where j = "query_job q", OF assms memory_step.hand [OF False Cons Nil], of env p parse wr] by (simp add: exI)
    next
      case Nil
      then show ?thesis
        using harvest_step.produce [OF memory_step.finish [OF False Nil], of env p parse wr] False
        by (auto simp: memory_source_same)
    qed
  qed
qed



end
