(* ===== verification/Harvest_Setup.thy ===== *)
theory Harvest_Setup
  imports Serp_Parse Browser_Pool Job_Submit Crawl_Visit
begin

text \<open>
  Configuration and wiring: \<open>internal/config/config.go\<close>, \<open>internal/scheduler/config.go\<close> and the
  commands \<open>cmd/harvester\<close>, \<open>cmd/crawl\<close> and \<open>cmd/api\<close> up to the point where the components run. A
  call that ends the process (\<open>log.Fatalf\<close>, \<open>os.Exit\<close>) is an \<open>Inl\<close>. What the process finds in its
  surroundings (environment variables, files, the database and the browser) is the record
  \<open>host_ops\<close>; YAML decoding is an argument.
\<close>

subsection \<open>Configuration\<close>

record config =
  Mode :: string
  Queries :: "string list"
  QueueBackend :: string
  RedisAddr :: string
  RedisStream :: string
  RedisGroup :: string
  RedisConsumer :: string
  RedisSeedQueue :: bool
  cf_Concurrency :: int
  cf_MaxRetries :: int
  RatePerProxyRPS :: rat
  RateBurst :: int
  AdaptiveRate :: bool
  RateMinRPS :: rat
  Proxies :: "string list"
  ProxyBanFails :: int
  ProxyBanCooldown :: duration
  ProxyBanCooldownMax :: duration
  ProxyStrategy :: string
  cf_MaxProxyWait :: duration
  LiveEndpoint :: string
  RequestTimeout :: duration
  MockFixtureDir :: string
  ProviderBaseURL :: string
  ProviderAPIKeyEnv :: string
  ProviderEngine :: string
  BrowserPoolSize :: int
  BrowserHeadful :: bool
  BrowserExecutablePath :: string
  BrowserWaitSelector :: string
  BrowserMaxSessionUses :: int
  SinkBackend :: string
  PostgresDSNEnv :: string
  OutputPath :: string
  ReportInterval :: duration
  MetricsAddr :: string

definition Default :: config where
  "Default = \<lparr>Mode = ''mock'', Queries = [], QueueBackend = ''memory'', RedisAddr = ''localhost:6379'',
     RedisStream = ''serp-harvester:queries'', RedisGroup = ''harvesters'', RedisConsumer = ''worker-1'', RedisSeedQueue = False,
     cf_Concurrency = 8, cf_MaxRetries = 2, RatePerProxyRPS = 1, RateBurst = 1, AdaptiveRate = True, RateMinRPS = 0,
     Proxies = [], ProxyBanFails = 3, ProxyBanCooldown = 30 * Second, ProxyBanCooldownMax = 600 * Second,
     ProxyStrategy = ''round_robin'', cf_MaxProxyWait = 120 * Second, LiveEndpoint = ''https://www.google.com/search'',
     RequestTimeout = 10 * Second, MockFixtureDir = ''internal/parser/testdata'', ProviderBaseURL = '''', ProviderAPIKeyEnv = '''',
     ProviderEngine = ''google'', BrowserPoolSize = 4, BrowserHeadful = False, BrowserExecutablePath = '''',
     BrowserWaitSelector = '''', BrowserMaxSessionUses = 50, SinkBackend = ''jsonl'', PostgresDSNEnv = ''POSTGRES_DSN'',
     OutputPath = ''-'', ReportInterval = 2 * Second, MetricsAddr = ''''\<rparr>"

text \<open>\<open>unmarshal\<close> is \<open>yaml.Unmarshal\<close> onto the configuration it is given.\<close>

definition Load :: "(string \<Rightarrow> go_error + string) \<Rightarrow> (string \<Rightarrow> config \<Rightarrow> go_error + config) \<Rightarrow> string \<Rightarrow> go_error + config" where
  "Load readFile unmarshal path = (case readFile path of
       Inl e \<Rightarrow> Inl (Wrapped ''config: read'' e)
     | Inr b \<Rightarrow> (case unmarshal b Default of
         Inl e \<Rightarrow> Inl (Wrapped ''config: parse'' e)
       | Inr cfg \<Rightarrow> Inr cfg))"

subsection \<open>What the process finds\<close>

record host_ops =
  Getenv :: "string \<Rightarrow> string"
  ReadDir :: "string \<Rightarrow> go_error + (string \<times> bool) list"
  ReadFile :: "string \<Rightarrow> go_error + string"
  CreateFile :: "string \<Rightarrow> go_error option"
  ConnectPostgres :: "string \<Rightarrow> go_error option"
  LaunchBrowser :: "playwright_config \<Rightarrow> go_error option"

datatype startup_error = Fatal string | FatalError string go_error | NotReviewed

subsection \<open>Building the parts\<close>

text \<open>\<open>filepath.Ext\<close>: from the last dot of the last element of the path on.\<close>

definition Ext :: "string \<Rightarrow> string" where
  "Ext name = (let r = takeWhile (\<lambda>c. c \<noteq> CHR ''.'' \<and> c \<noteq> CHR ''/'') (rev name);
                   rest = drop (length r) (rev name)
               in if rest \<noteq> [] \<and> hd rest = CHR ''.'' then CHR ''.'' # rev r else '''')"

text \<open>\<open>filepath.Join\<close> is taken of a directory without redundant separators.\<close>

fun load_fixtures :: "(string \<Rightarrow> go_error + string) \<Rightarrow> string \<Rightarrow> (string \<times> bool) list \<Rightarrow> go_error + string list" where
  "load_fixtures readFile dir [] = Inr []"
| "load_fixtures readFile dir ((name, isDir) # es) =
     (if isDir \<or> Ext name \<noteq> ''.html'' then load_fixtures readFile dir es
      else case readFile (dir @ ''/'' @ name) of
          Inl e \<Rightarrow> Inl (Wrapped ''mock fetcher: read fixture'' e)
        | Inr b \<Rightarrow> (case load_fixtures readFile dir es of Inl e \<Rightarrow> Inl e | Inr bs \<Rightarrow> Inr (b # bs)))"

definition NewMockFromDir :: "host_ops \<Rightarrow> string \<Rightarrow> go_error + mock" where
  "NewMockFromDir host dir = (case ReadDir host dir of
       Inl e \<Rightarrow> Inl (Wrapped ''mock fetcher: read dir'' e)
     | Inr es \<Rightarrow>
         (case load_fixtures (ReadFile host) dir es of
            Inl e \<Rightarrow> Inl e
          | Inr fs \<Rightarrow> if fs = [] then Inl (ErrorString ''mock fetcher: no .html fixtures found'')
                     else Inr \<lparr>fixtures = fs, mk_counter = 0, FailEvery = 0\<rparr>))"

definition parseProxyStrategy :: "string \<Rightarrow> startup_error + strategy" where
  "parseProxyStrategy s =
     (if s = '''' \<or> s = ''round_robin'' then Inr RoundRobin
      else if s = ''random'' then Inr Random
      else if s = ''weighted_success_rate'' then Inr WeightedSuccessRate
      else Inl (Fatal ''unknown proxy_strategy''))"

definition configured_pool :: "('a config_scheme) \<Rightarrow> startup_error + pool" where
  "configured_pool cfg = (case parseProxyStrategy (ProxyStrategy cfg) of
       Inl e \<Rightarrow> Inl e
     | Inr s \<Rightarrow> Inr ((NewPool (Proxies cfg) (ProxyBanFails cfg) (ProxyBanCooldown cfg))\<lparr>Strategy := s, MaxCooldown := ProxyBanCooldownMax cfg\<rparr>))"

definition configured_limiter :: "rat \<Rightarrow> ('a config_scheme) \<Rightarrow> 'b limiter" where
  "configured_limiter r cfg =
     (if AdaptiveRate cfg then NewAdaptive r (RateBurst cfg) (RateMinRPS cfg) else New r (RateBurst cfg))"

definition newHTTPFetcher :: "('a config_scheme) \<Rightarrow> http_fetcher" where
  "newHTTPFetcher cfg = \<lparr>hf_Endpoint = LiveEndpoint cfg, hf_Generic = False, DetectAppShells = False, OnConsentHandled = True\<rparr>"

definition harvester_browser :: "('a config_scheme) \<Rightarrow> playwright_config" where
  "harvester_browser cfg = \<lparr>pc_Endpoint = LiveEndpoint cfg, pc_Timeout = RequestTimeout cfg, PoolSize = BrowserPoolSize cfg,
     MaxSessionUses = BrowserMaxSessionUses cfg, pc_WaitSelector = BrowserWaitSelector cfg, pc_Generic = False\<rparr>"

text \<open>\<open>NewPlaywrightFetcher\<close>: the configuration with its defaults, once Chromium is up.\<close>

definition NewPlaywrightFetcher :: "host_ops \<Rightarrow> playwright_config \<Rightarrow> go_error + playwright_config" where
  "NewPlaywrightFetcher host pc = (case NewPlaywrightConfig pc of
       Inl e \<Rightarrow> Inl e
     | Inr pc \<Rightarrow> (case LaunchBrowser host pc of Some e \<Rightarrow> Inl e | None \<Rightarrow> Inr pc))"

datatype fetch_path =
    UseMock mock
  | UseHTTP http_fetcher
  | UseProvider provider
  | UseBrowser playwright_config
  | UseFailover http_fetcher playwright_config

datatype parse_path = ParseHTML | ParseJSON

definition buildFetcherAndParser :: "host_ops \<Rightarrow> ('a config_scheme) \<Rightarrow> bool \<Rightarrow> startup_error + fetch_path \<times> parse_path" where
  "buildFetcherAndParser host cfg reviewed =
     (if Mode cfg = ''mock'' then
        (case NewMockFromDir host (MockFixtureDir cfg) of
           Inl e \<Rightarrow> Inl (FatalError ''build mock fetcher'' e)
         | Inr m \<Rightarrow> Inr (UseMock m, ParseHTML))
      else if Mode cfg = ''live'' then
        (if \<not> reviewed then Inl NotReviewed else Inr (UseHTTP (newHTTPFetcher cfg), ParseHTML))
      else if Mode cfg = ''provider'' then
        (if ProviderBaseURL cfg = '''' then Inl (Fatal ''provider mode requires provider_base_url in config'')
         else let apiKey = Getenv host (ProviderAPIKeyEnv cfg) in
           if apiKey = '''' then Inl (Fatal ''provider mode requires the environment variable to be set'')
           else Inr (UseProvider (NewProviderFetcher (ProviderBaseURL cfg) apiKey (ProviderEngine cfg)), ParseJSON))
      else if Mode cfg = ''playwright'' \<or> Mode cfg = ''hybrid'' then
        (if \<not> reviewed then Inl NotReviewed
         else case NewPlaywrightFetcher host (harvester_browser cfg) of
             Inl e \<Rightarrow> Inl (FatalError ''build playwright fetcher'' e)
           | Inr browser \<Rightarrow>
               if Mode cfg = ''playwright'' then Inr (UseBrowser browser, ParseHTML)
               else Inr (UseFailover (newHTTPFetcher cfg) browser, ParseHTML))
      else Inl (Fatal ''unknown mode''))"

datatype sink_path = Stdout | OutputFile string | Postgres string

definition buildSink :: "host_ops \<Rightarrow> ('a config_scheme) \<Rightarrow> startup_error + sink_path" where
  "buildSink host cfg =
     (if SinkBackend cfg = '''' \<or> SinkBackend cfg = ''jsonl'' then
        (if OutputPath cfg = ''-'' \<or> OutputPath cfg = '''' then Inr Stdout
         else case CreateFile host (OutputPath cfg) of
             Some e \<Rightarrow> Inl (FatalError ''create output file'' e)
           | None \<Rightarrow> Inr (OutputFile (OutputPath cfg)))
      else if SinkBackend cfg = ''postgres'' then
        (let dsn = Getenv host (PostgresDSNEnv cfg) in
         if dsn = '''' then Inl (Fatal ''sink_backend: postgres requires the environment variable to be set'')
         else case ConnectPostgres host dsn of
             Some e \<Rightarrow> Inl (FatalError ''build postgres sink'' e)
           | None \<Rightarrow> Inr (Postgres dsn))
      else Inl (Fatal ''unknown sink_backend''))"

datatype source_path = MemoryJobs memory_source | RedisJobs redis_source string

text \<open>A negative buffer makes \<open>make\<close> of the channel panic.\<close>

definition configured_stream :: "('a config_scheme) \<Rightarrow> redis_source" where
  "configured_stream cfg = \<lparr>Stream = RedisStream cfg, Group = RedisGroup cfg, BlockFor = 0\<rparr>"

definition buildJobSource :: "'r redis_ops \<Rightarrow> ('a config_scheme) \<Rightarrow> 'r \<Rightarrow> (startup_error + source_path) \<times> 'r" where
  "buildJobSource ops cfg r =
     (if QueueBackend cfg = '''' \<or> QueueBackend cfg = ''memory'' then
        (if cf_Concurrency cfg * 2 < 0 then (Inl (Fatal ''panic: makechan: size out of range''), r)
         else (Inr (MemoryJobs (memory_Jobs (Queries cfg) (nat (cf_Concurrency cfg * 2)))), r))
      else if QueueBackend cfg = ''redis'' then
        (let src = configured_stream cfg in
         case EnsureGroup ops src r of
           (Some e, r) \<Rightarrow> (Inl (FatalError ''redis queue'' e), r)
         | (None, r) \<Rightarrow>
             if \<not> RedisSeedQueue cfg then (Inr (RedisJobs src (RedisConsumer cfg)), r)
             else case push_all (PushJob ops src) (map query_job (Queries cfg)) r of
                 (Some e, r) \<Rightarrow> (Inl (FatalError ''redis queue: seed query'' e), r)
               | (None, r) \<Rightarrow> (Inr (RedisJobs src (RedisConsumer cfg)), r))
      else (Inl (Fatal ''unknown queue_backend''), r))"

text \<open>
  The reporter goroutine, which both commands start: \<open>time.NewTicker\<close> panics on an interval that is
  not positive, and with it the process.
\<close>

definition StartReporter :: "('a config_scheme) \<Rightarrow> startup_error option" where
  "StartReporter cfg = (if ReportInterval cfg \<le> 0 then Some (Fatal ''panic: non-positive interval for NewTicker'') else None)"

subsection \<open>The harvester\<close>

record harvester_flags =
  fl_mode :: string
  fl_queries :: string
  fl_reviewed :: bool

record 'b harvester =
  hr_fetch :: fetch_path
  hr_parse :: parse_path
  hr_sink :: sink_path
  hr_pool :: pool
  hr_limiter :: "'b limiter"
  hr_worker :: worker
  hr_source :: source_path

definition with_flags :: "harvester_flags \<Rightarrow> config \<Rightarrow> config" where
  "with_flags flags cfg =
     (let cfg = (if fl_mode flags \<noteq> '''' then cfg\<lparr>Mode := fl_mode flags\<rparr> else cfg)
      in if fl_queries flags \<noteq> '''' then cfg\<lparr>Queries := Split (fl_queries flags) CHR '',''\<rparr> else cfg)"

definition configured_worker :: "string \<Rightarrow> ('a config_scheme) \<Rightarrow> worker" where
  "configured_worker ua cfg = \<lparr>Concurrency = cf_Concurrency cfg, MaxRetries = cf_MaxRetries cfg, MaxProxyWait = cf_MaxProxyWait cfg,
     w_UserAgent = ua\<rparr>"

definition harvester_main :: "host_ops \<Rightarrow> 'r redis_ops \<Rightarrow> harvester_flags \<Rightarrow> go_error + config \<Rightarrow> 'r \<Rightarrow>
    (startup_error + 'b harvester) \<times> 'r" where
  "harvester_main host ops flags loaded r = (case loaded of
       Inl e \<Rightarrow> (Inl (FatalError ''load config'' e), r)
     | Inr cfg \<Rightarrow>
         (let cfg = with_flags flags cfg in
          if Queries cfg = [] \<and> QueueBackend cfg \<noteq> ''redis'' then (Inl (Fatal ''no queries configured''), r)
          else case buildFetcherAndParser host cfg (fl_reviewed flags) of
              Inl e \<Rightarrow> (Inl e, r)
            | Inr (f, p) \<Rightarrow>
                (case buildSink host cfg of
                   Inl e \<Rightarrow> (Inl e, r)
                 | Inr sink \<Rightarrow>
                     (case configured_pool cfg of
                        Inl e \<Rightarrow> (Inl e, r)
                      | Inr pl \<Rightarrow>
                          (case StartReporter cfg of
                             Some e \<Rightarrow> (Inl e, r)
                           | None \<Rightarrow>
                               (case buildJobSource ops cfg r of
                                  (Inl e, r) \<Rightarrow> (Inl e, r)
                                | (Inr src, r) \<Rightarrow>
                                    (Inr \<lparr>hr_fetch = f, hr_parse = p, hr_sink = sink, hr_pool = pl,
                                       hr_limiter = configured_limiter (RatePerProxyRPS cfg) cfg,
                                       hr_worker = configured_worker '''' cfg, hr_source = src\<rparr>, r)))))))"

subsection \<open>The crawler\<close>

text \<open>The crawler's file embeds the harvester's configuration.\<close>

record crawl_config = config +
  cc_UserAgent :: string
  RobotsAgent :: string
  RatePerHostRPS :: rat
  Targets :: "target list"

definition crawl_defaults :: crawl_config where
  "crawl_defaults = config.extend (Default\<lparr>cf_Concurrency := 4, RequestTimeout := 20 * Second\<rparr>)
     (crawl_config.fields ''Mozilla/5.0 (compatible; web-harvester/0.1; +https://github.com/HenryMorganDibie/web-harvester)''
        ''web-harvester'' 1 [])"

definition crawl_load :: "(string \<Rightarrow> go_error + string) \<Rightarrow> (string \<Rightarrow> crawl_config \<Rightarrow> go_error + crawl_config) \<Rightarrow> string \<Rightarrow> go_error + crawl_config" where
  "crawl_load readFile unmarshal path =
     (if path = '''' then Inr crawl_defaults
      else case readFile path of
          Inl e \<Rightarrow> Inl (Wrapped ''read'' e)
        | Inr b \<Rightarrow> (case unmarshal b crawl_defaults of Inl e \<Rightarrow> Inl (Wrapped ''parse'' e) | Inr cfg \<Rightarrow> Inr cfg))"

record crawl_flags =
  cl_url :: string
  cl_depth :: int
  cl_maxPages :: int
  cl_render :: string
  cl_target :: string
  cl_runID :: string
  cl_reviewed :: bool

definition adhoc_target :: "crawl_flags \<Rightarrow> target" where
  "adhoc_target flags = \<lparr>t_Name = ''adhoc'', StartURLs = Split (cl_url flags) CHR '','', AllowedDomains = [], MaxDepth = cl_depth flags,
     MaxPages = cl_maxPages flags, Follow = '''', Include = [], Exclude = [], Render = cl_render flags, t_WaitSelector = '''',
     t_Extract = \<lparr>s_Fields = [], s_Items = None, TextLimit = 0, SkipLinks = False\<rparr>, RespectRobots = None, t_Concurrency = 0,
     t_Locale = '''', t_Device = ''''\<rparr>"

definition select_targets :: "crawl_flags \<Rightarrow> target list \<Rightarrow> startup_error + target list" where
  "select_targets flags ts =
     (let ts = (if cl_url flags \<noteq> '''' then [adhoc_target flags] else ts);
          kept = filter (\<lambda>t. t_Name t = cl_target flags) ts
      in if cl_target flags \<noteq> '''' then (if kept = [] then Inl (Fatal ''no target of that name'') else Inr kept)
         else if ts = [] then Inl (Fatal ''no targets: set targets: in -config, or pass -url'')
         else Inr ts)"

definition needsBrowser :: "target list \<Rightarrow> bool" where
  "needsBrowser ts = list_ex (\<lambda>t. Render t = ''browser'' \<or> Render t = ''auto'') ts"

definition crawl_http :: "bool \<Rightarrow> http_fetcher" where
  "crawl_http shells = \<lparr>hf_Endpoint = '''', hf_Generic = True, DetectAppShells = shells, OnConsentHandled = False\<rparr>"

definition crawl_browser :: "crawl_config \<Rightarrow> playwright_config" where
  "crawl_browser cfg = \<lparr>pc_Endpoint = '''', pc_Timeout = RequestTimeout cfg, PoolSize = BrowserPoolSize cfg,
     MaxSessionUses = BrowserMaxSessionUses cfg, pc_WaitSelector = '''', pc_Generic = True\<rparr>"

text \<open>A fetcher that is a nil browser is \<open>None\<close>.\<close>

definition target_fetcher :: "playwright_config option \<Rightarrow> target \<Rightarrow> fetch_path option" where
  "target_fetcher browser t =
     (if Render t = ''browser'' then map_option UseBrowser browser
      else if Render t = ''auto'' then map_option (UseFailover (crawl_http True)) browser
      else Some (UseHTTP (crawl_http False)))"

record crawl_job =
  tj_target :: target
  tj_fetch :: "fetch_path option"
  tj_robotsFetch :: fetch_path
  tj_pool :: pool
  tj_worker :: worker
  tj_robotsAgent :: string
  tj_runID :: string

definition crawl_newRunID :: "string \<Rightarrow> string" where
  "crawl_newRunID b = ''crawl-'' @ EncodeToString b"

definition crawl_job_of :: "crawl_config \<Rightarrow> string \<Rightarrow> playwright_config option \<Rightarrow> pool \<Rightarrow> target \<Rightarrow> crawl_job" where
  "crawl_job_of cfg runID browser pl t = \<lparr>tj_target = t, tj_fetch = target_fetcher browser t, tj_robotsFetch = UseHTTP (crawl_http False),
     tj_pool = pl, tj_worker = configured_worker (cc_UserAgent cfg) cfg, tj_robotsAgent = RobotsAgent cfg, tj_runID = runID\<rparr>"

text \<open>The crawler has its own copies of the harvester's \<open>parseProxyStrategy\<close> and \<open>buildSink\<close>, for pages.\<close>

definition crawl_parseProxyStrategy :: "string \<Rightarrow> startup_error + strategy" where
  "crawl_parseProxyStrategy s =
     (if s \<in> {'''', ''round_robin''} then Inr RoundRobin
      else if s = ''random'' then Inr Random
      else if s = ''weighted_success_rate'' then Inr WeightedSuccessRate
      else Inl (Fatal ''unknown proxy_strategy''))"

definition crawl_pool :: "crawl_config \<Rightarrow> startup_error + pool" where
  "crawl_pool cfg = (let pp = NewPool (Proxies cfg) (ProxyBanFails cfg) (ProxyBanCooldown cfg) in
     case crawl_parseProxyStrategy (ProxyStrategy cfg) of
       Inl e \<Rightarrow> Inl e
     | Inr s \<Rightarrow> Inr (pp\<lparr>Strategy := s, MaxCooldown := ProxyBanCooldownMax cfg\<rparr>))"

definition crawl_buildSink :: "host_ops \<Rightarrow> crawl_config \<Rightarrow> startup_error + sink_path" where
  "crawl_buildSink host cfg =
     (if SinkBackend cfg \<in> {'''', ''jsonl''} then
        (if OutputPath cfg \<in> {''-'', ''''} then Inr Stdout
         else case CreateFile host (OutputPath cfg) of
             Some e \<Rightarrow> Inl (FatalError ''create output file'' e)
           | None \<Rightarrow> Inr (OutputFile (OutputPath cfg)))
      else if SinkBackend cfg = ''postgres'' then
        (let dsn = Getenv host (PostgresDSNEnv cfg) in
         if dsn = '''' then Inl (Fatal ''sink_backend: postgres requires the environment variable to be set'')
         else case ConnectPostgres host dsn of
             Some e \<Rightarrow> Inl (FatalError ''build postgres sink'' e)
           | None \<Rightarrow> Inr (Postgres dsn))
      else Inl (Fatal ''unknown sink_backend''))"

definition crawl_main :: "host_ops \<Rightarrow> crawl_flags \<Rightarrow> string \<Rightarrow> go_error + crawl_config \<Rightarrow>
    startup_error + sink_path \<times> 'b limiter \<times> crawl_job list" where
  "crawl_main host flags rand loaded = (case loaded of
       Inl e \<Rightarrow> Inl (FatalError ''load config'' e)
     | Inr cfg \<Rightarrow>
         (case select_targets flags (Targets cfg) of
            Inl e \<Rightarrow> Inl e
          | Inr ts \<Rightarrow>
              if \<not> cl_reviewed flags then Inl NotReviewed
              else let runID = (if cl_runID flags = '''' then crawl_newRunID rand else cl_runID flags) in
                case (if needsBrowser ts then map_sum id Some (NewPlaywrightFetcher host (crawl_browser cfg)) else Inr None) of
                  Inl e \<Rightarrow> Inl (FatalError ''build playwright fetcher'' e)
                | Inr browser \<Rightarrow>
                    (case crawl_buildSink host cfg of
                       Inl e \<Rightarrow> Inl e
                     | Inr sink \<Rightarrow>
                         (case (case StartReporter cfg of Some e \<Rightarrow> Inl e | None \<Rightarrow> crawl_pool cfg) of
                            Inl e \<Rightarrow> Inl e
                          | Inr pl \<Rightarrow> Inr (sink, configured_limiter (RatePerHostRPS cfg) cfg,
                              map (crawl_job_of cfg runID browser pl) ts)))))"

subsection \<open>The API server\<close>

definition LoadHarvests :: "(string \<Rightarrow> (bool \<times> go_error) + string) \<Rightarrow> (string \<Rightarrow> go_error + harvest list) \<Rightarrow> string \<Rightarrow> go_error + harvest list" where
  "LoadHarvests readFile unmarshal path =
     (if path = '''' then Inr []
      else case readFile path of
          Inl (notExist, e) \<Rightarrow> if notExist then Inr [] else Inl (Wrapped ''scheduler: read'' e)
        | Inr b \<Rightarrow> (case unmarshal b of Inl e \<Rightarrow> Inl (Wrapped ''scheduler: parse'' e) | Inr hs \<Rightarrow> Inr hs))"

fun register :: "(string \<Rightarrow> go_error option) \<Rightarrow> harvest list \<Rightarrow> harvest list \<Rightarrow> startup_error + harvest list" where
  "register parseCron [] hs = Inr hs"
| "register parseCron (h # rest) hs = (case AddHarvest parseCron h hs of
       (Some e, hs) \<Rightarrow> Inl (FatalError ''register scheduled harvest'' e)
     | (None, hs) \<Rightarrow> register parseCron rest hs)"

text \<open>Whether results are counted, and the harvests that are scheduled.\<close>

definition api_main :: "host_ops \<Rightarrow> (string \<Rightarrow> (bool \<times> go_error) + string) \<Rightarrow> (string \<Rightarrow> go_error + harvest list) \<Rightarrow> (string \<Rightarrow> go_error option) \<Rightarrow>
    string \<Rightarrow> string \<Rightarrow> startup_error + bool \<times> harvest list" where
  "api_main host readFile unmarshal parseCron dsnEnv scheduleFile =
     (let dsn = Getenv host dsnEnv in
      case (if dsn \<noteq> '''' then ConnectPostgres host dsn else None) of
        Some e \<Rightarrow> Inl (FatalError ''connect to postgres for job-status counting'' e)
      | None \<Rightarrow>
          if scheduleFile = '''' then Inr (dsn \<noteq> '''', [])
          else case LoadHarvests readFile unmarshal scheduleFile of
              Inl e \<Rightarrow> Inl (FatalError ''load schedule'' e)
            | Inr hs \<Rightarrow> (case register parseCron hs [] of Inl e \<Rightarrow> Inl e | Inr hs \<Rightarrow> Inr (dsn \<noteq> '''', hs)))"

subsection \<open>What a harvester runs with\<close>

fun browser_of :: "fetch_path \<Rightarrow> playwright_config option" where
  "browser_of (UseBrowser pc) = Some pc"
| "browser_of (UseFailover _ pc) = Some pc"
| "browser_of _ = None"

definition offline_or_provider :: "fetch_path \<Rightarrow> bool" where
  "offline_or_provider f \<longleftrightarrow> (case f of UseMock m \<Rightarrow> fixtures m \<noteq> [] | UseProvider p \<Rightarrow> BaseURL p \<noteq> '''' \<and> APIKey p \<noteq> '''' | _ \<Rightarrow> False)"

definition usable_browser :: "playwright_config \<Rightarrow> bool" where
  "usable_browser pc \<longleftrightarrow> 0 < PoolSize pc \<and> 0 < MaxSessionUses pc \<and> 0 < pc_Timeout pc \<and> (pc_Endpoint pc \<noteq> '''' \<or> pc_Generic pc)"

lemma NewPlaywrightFetcher_usable: "NewPlaywrightFetcher host pc = Inr pc' \<Longrightarrow> usable_browser pc'"
  by (auto simp: NewPlaywrightFetcher_def NewPlaywrightConfig_def usable_browser_def Second_def split: sum.splits option.splits if_splits)

lemma NewMockFromDir_nonempty: "NewMockFromDir host dir = Inr m \<Longrightarrow> fixtures m \<noteq> []"
  by (auto simp: NewMockFromDir_def split: sum.splits if_splits)

lemma buildFetcherAndParser_sound:
  assumes "buildFetcherAndParser host cfg reviewed = Inr (f, p)"
  shows "(reviewed \<or> offline_or_provider f) \<and> (p = ParseJSON \<longleftrightarrow> (\<exists>q. f = UseProvider q)) \<and>
    (case browser_of f of None \<Rightarrow> True | Some pc \<Rightarrow> usable_browser pc)"
  using assms unfolding buildFetcherAndParser_def
  by (auto simp: offline_or_provider_def Let_def NewProviderFetcher_def NewMockFromDir_nonempty NewPlaywrightFetcher_usable
      split: if_splits sum.splits)

lemma configured_pool_wf: "configured_pool cfg = Inr pl \<Longrightarrow> pool_wf pl"
  by (auto simp: configured_pool_def NewPool_wf split: sum.splits)

lemma buildJobSource_memory:
  "buildJobSource ops cfg r = (Inr (MemoryJobs m), r') \<Longrightarrow> ms_left m = Queries cfg \<and> QueueBackend cfg \<noteq> ''redis'' \<and> r' = r"
  by (auto simp: buildJobSource_def memory_Jobs_def Let_def split: if_splits sum.splits prod.splits option.splits)

text \<open>
  C38. What a harvester runs with. Whatever the configuration, flags and surroundings, a harvester
  that starts without the confirmation of the terms of service fetches fixtures, of which there are
  some, or a paid provider with a URL and a key, never the target itself; the JSON parser is paired
  with the provider and only with it; a browser has a positive pool, recycling limit and budget; the
  proxy pool is well formed; and an in-memory queue holds at least one query.
\<close>

theorem harvester_main_sound:
  assumes "harvester_main host ops flags loaded r = (Inr h, r')"
  shows "(fl_reviewed flags \<or> offline_or_provider (hr_fetch h)) \<and>
    (hr_parse h = ParseJSON \<longleftrightarrow> (\<exists>p. hr_fetch h = UseProvider p)) \<and>
    (case browser_of (hr_fetch h) of None \<Rightarrow> True | Some pc \<Rightarrow> usable_browser pc) \<and>
    pool_wf (hr_pool h) \<and>
    (case hr_source h of MemoryJobs m \<Rightarrow> ms_left m \<noteq> [] | RedisJobs _ _ \<Rightarrow> True)"
proof -
  obtain cfg where cfg: "loaded = Inr cfg" using assms by (cases loaded) (auto simp: harvester_main_def)
  let ?c = "with_flags flags cfg"
  from assms cfg obtain f p sink pl src where h: "buildFetcherAndParser host ?c (fl_reviewed flags) = Inr (f, p)" "configured_pool ?c = Inr pl"
      "buildJobSource ops ?c r = (Inr src, r')" "Queries ?c \<noteq> [] \<or> QueueBackend ?c = ''redis''"
      "hr_fetch h = f" "hr_parse h = p" "hr_pool h = pl" "hr_source h = src"
    by (auto simp: harvester_main_def Let_def split: if_splits sum.splits prod.splits option.splits)
  have "case src of MemoryJobs m \<Rightarrow> ms_left m \<noteq> [] | RedisJobs _ _ \<Rightarrow> True"
    using buildJobSource_memory [of ops ?c r] h(3,4) by (auto split: source_path.splits)
  then show ?thesis using buildFetcherAndParser_sound [OF h(1)] configured_pool_wf [OF h(2)] h(5-8) by simp
qed

definition demo_host :: host_ops where
  "demo_host = \<lparr>Getenv = (\<lambda>v. if v = ''SERP_KEY'' then ''k'' else ''''), ReadDir = (\<lambda>d. Inr [(''full.html'', False), (''notes.txt'', False)]),
     ReadFile = (\<lambda>p. Inr ''<html></html>''), CreateFile = (\<lambda>p. None), ConnectPostgres = (\<lambda>d. None), LaunchBrowser = (\<lambda>c. None)\<rparr>"

definition demo_flags :: harvester_flags where
  "demo_flags = \<lparr>fl_mode = '''', fl_queries = ''go,isabelle'', fl_reviewed = False\<rparr>"

definition demo_harvester :: "(startup_error + unit harvester) \<times> one_stream" where
  "demo_harvester = harvester_main demo_host one_redis demo_flags (Inr Default) ([], 0, [])"

lemma demo_harvester_starts: "\<exists>h. demo_harvester = (Inr h, ([], 0, []))"
proof -
  have "\<not> isl (fst demo_harvester)" "snd demo_harvester = ([], 0, [])" by code_simp+
  then show ?thesis by (metis prod.collapse sum.collapse(2))
qed

theorem harvester_main_sound_witness:
  "\<exists>h. demo_harvester = (Inr h, ([], 0, [])) \<and> offline_or_provider (hr_fetch h) \<and> pool_wf (hr_pool h)"
proof -
  obtain h where h: "demo_harvester = (Inr h, ([], 0, []))" using demo_harvester_starts by blast
  from harvester_main_sound [OF this [unfolded demo_harvester_def]] h show ?thesis by (auto simp: demo_flags_def)
qed

subsection \<open>What a crawl runs with\<close>

text \<open>The copies have not drifted apart.\<close>

lemma crawl_copies_agree [simp]:
  "crawl_parseProxyStrategy = parseProxyStrategy" "crawl_buildSink = buildSink" "crawl_pool = configured_pool"
  by (auto simp: crawl_parseProxyStrategy_def parseProxyStrategy_def crawl_buildSink_def buildSink_def
      crawl_pool_def configured_pool_def Let_def fun_eq_iff split: sum.splits)

lemma target_fetcher_there: "needsBrowser ts \<longrightarrow> b \<noteq> None \<Longrightarrow> t \<in> set ts \<Longrightarrow> target_fetcher b t \<noteq> None"
  by (auto simp: target_fetcher_def needsBrowser_def list_ex_iff)

definition rendered_as_asked :: "fetch_path option \<Rightarrow> target \<Rightarrow> bool" where
  "rendered_as_asked f t \<longleftrightarrow> (case Option.bind f browser_of of
       None \<Rightarrow> Render t \<noteq> ''browser'' \<and> Render t \<noteq> ''auto''
     | Some pc \<Rightarrow> (Render t = ''browser'' \<or> Render t = ''auto'') \<and> usable_browser pc \<and> pc_Generic pc)"

text \<open>
  What a crawl runs with. A crawl starts only with the confirmation of the terms of service
  and at least one target. Every target then has a fetcher: a browser that its rendering asks for
  has been launched, since it is launched when any target asks for it. robots.txt is fetched by plain
  HTTP whatever the rendering, each target has a well-formed proxy pool of its own, and all carry
  the same non-empty run id when it is generated.
\<close>

theorem crawl_main_sound:
  assumes "crawl_main host flags rand loaded = Inr (sink, rates, jobs)"
  shows "cl_reviewed flags \<and> jobs \<noteq> [] \<and>
    (\<forall>j\<in>set jobs. tj_fetch j \<noteq> None \<and> tj_robotsFetch j = UseHTTP (crawl_http False) \<and> pool_wf (tj_pool j) \<and> tj_runID j \<noteq> '''' \<and>
      rendered_as_asked (tj_fetch j) (tj_target j))"
proof -
  obtain cfg where cfg: "loaded = Inr cfg" using assms by (cases loaded) (auto simp: crawl_main_def)
  from assms cfg obtain ts b pl where ts: "select_targets flags (Targets cfg) = Inr ts" "cl_reviewed flags" "configured_pool cfg = Inr pl"
      "(if needsBrowser ts then map_sum id Some (NewPlaywrightFetcher host (crawl_browser cfg)) else Inr None) = Inr b"
      "jobs = map (crawl_job_of cfg (if cl_runID flags = '''' then crawl_newRunID rand else cl_runID flags) b pl) ts"
    by (auto simp: crawl_main_def Let_def split: if_splits sum.splits option.splits)
  have "ts \<noteq> []" using ts(1) by (auto simp: select_targets_def Let_def split: if_splits)
  moreover have b: "needsBrowser ts \<longrightarrow> b \<noteq> None" "\<And>pc. b = Some pc \<Longrightarrow> NewPlaywrightFetcher host (crawl_browser cfg) = Inr pc"
    using ts(4) by (cases "NewPlaywrightFetcher host (crawl_browser cfg)"; auto split: if_splits)+
  have generic: "usable_browser pc \<and> pc_Generic pc" if "b = Some pc" for pc
    using NewPlaywrightFetcher_usable [OF b(2) [OF that]] b(2) [OF that]
    by (auto simp: NewPlaywrightFetcher_def NewPlaywrightConfig_def crawl_browser_def split: option.splits)
  moreover have "rendered_as_asked (target_fetcher b t) t" if "t \<in> set ts" for t
    using target_fetcher_there [OF b(1) that] generic by (cases b) (auto simp: target_fetcher_def rendered_as_asked_def)
  ultimately show ?thesis using ts(2) configured_pool_wf [OF ts(3)] target_fetcher_there [OF b(1)]
    by (auto simp: ts(5) crawl_job_of_def crawl_newRunID_def)
qed

definition crawl_demo_flags :: crawl_flags where
  "crawl_demo_flags = \<lparr>cl_url = ''http://h/'', cl_depth = 1, cl_maxPages = 10, cl_render = ''auto'', cl_target = '''', cl_runID = '''',
     cl_reviewed = True\<rparr>"

definition demo_crawl :: "startup_error + sink_path \<times> unit limiter \<times> crawl_job list" where
  "demo_crawl = crawl_main demo_host crawl_demo_flags ''abcdefgh'' (Inr crawl_defaults)"

lemma demo_crawl_starts: "\<not> isl demo_crawl"
  by code_simp

theorem crawl_main_sound_witness:
  "\<exists>sink rates jobs. demo_crawl = Inr (sink, rates, jobs) \<and> jobs \<noteq> [] \<and> tj_fetch (hd jobs) \<noteq> None"
proof -
  obtain sink rates jobs where j: "demo_crawl = Inr (sink, rates, jobs)" using demo_crawl_starts by (metis prod_cases3 sum.collapse(2))
  from crawl_main_sound [OF this [unfolded demo_crawl_def]] have "jobs \<noteq> []" "tj_fetch (hd jobs) \<noteq> None" by auto
  with j show ?thesis by blast
qed

subsection \<open>Seeding the queue\<close>

text \<open>
  The gauges of the proxies, read at every scrape and report: of one pool in the harvester, summed
  over the pools of the targets in the crawler. Every proxy is counted once, available or cooling.
\<close>

definition harvester_gauges :: "(nat \<Rightarrow> instant) \<Rightarrow> pool \<Rightarrow> nat \<Rightarrow> proxy_gauges" where
  "harvester_gauges clk pl throttled =
     (let (available, cooling) = Counts clk pl in \<lparr>Available = available, Cooling = cooling, g_Throttled = throttled\<rparr>)"

definition crawl_gauges :: "((nat \<Rightarrow> instant) \<times> pool) list \<Rightarrow> nat \<Rightarrow> proxy_gauges" where
  "crawl_gauges pools throttled =
     (fold (\<lambda>(clk, pp) g. let (a, c) = Counts clk pp in g\<lparr>Available := Available g + a, Cooling := Cooling g + c\<rparr>) pools
       \<lparr>Available = 0, Cooling = 0, g_Throttled = 0\<rparr>)\<lparr>g_Throttled := throttled\<rparr>"

lemma gauges_sum:
  fixes g :: proxy_gauges
  defines "add \<equiv> \<lambda>(clk, pp) g. let (a, c) = Counts clk pp in g\<lparr>Available := Available g + a, Cooling := Cooling g + c\<rparr>"
  shows "Available (fold add pools g) + Cooling (fold add pools g) = Available g + Cooling g + sum_list (map (Size \<circ> snd) pools)"
proof (induction pools arbitrary: g)
  case (Cons x pools)
  obtain clk pp where x: "x = (clk, pp)" by force
  obtain a c where n: "Counts clk pp = (a, c)" by force
  then have "a + c = Size pp" using Counts_sum [of clk pp] by simp
  then show ?case using Cons.IH [of "add x g"] by (simp add: x n add_def)
qed simp

lemma gauges_count_every_proxy:
  "Available (harvester_gauges clk pl t) + Cooling (harvester_gauges clk pl t) = Size pl"
  "Available (crawl_gauges pools t) + Cooling (crawl_gauges pools t) = sum_list (map (Size \<circ> snd) pools)"
  using Counts_sum [of clk pl] gauges_sum [of pools "\<lparr>Available = 0, Cooling = 0, g_Throttled = 0\<rparr>"]
  by (simp_all add: harvester_gauges_def crawl_gauges_def case_prod_unfold Let_def)

text \<open>A harvester that seeds the stream and starts has queued its queries, in order and after what was there.\<close>

lemma seeded_queue:
  assumes "redis_laws ops (configured_stream cfg)" "QueueBackend cfg = ''redis''" "RedisSeedQueue cfg"
    and "\<And>r. stream_jobs ops (configured_stream cfg) (snd (EnsureGroup ops (configured_stream cfg) r)) = stream_jobs ops (configured_stream cfg) r"
    and "buildJobSource ops cfg r = (Inr src, r')"
  shows "stream_jobs ops (configured_stream cfg) r' = stream_jobs ops (configured_stream cfg) r @ map query_job (Queries cfg)"
proof -
  obtain r1 where "EnsureGroup ops (configured_stream cfg) r = (None, r1)"
      "push_all (PushJob ops (configured_stream cfg)) (map query_job (Queries cfg)) r1 = (None, r')"
    using assms(2,3,5) by (auto simp: buildJobSource_def Let_def split: prod.splits option.splits)
  then show ?thesis using redis.push_all_ok [OF assms(1)] assms(4) [of r] by simp
qed

subsection \<open>Settings that are not checked\<close>

text \<open>
  The commands accept a concurrency that is not positive and a report interval of zero: the first
  starts no worker, so that the harvest is complete with nothing done, the second ends the process.
\<close>

lemma no_workers_no_work: "Run_returned (run_init 0 js) \<and> rs_done (run_init 0 js) = []"
  by (simp add: Run_returned_def run_init_def)

lemma zero_report_interval: "StartReporter (Default\<lparr>ReportInterval := 0\<rparr>) \<noteq> None"
  by (simp add: StartReporter_def)

end
