(* ===== verification/Load_Test.thy ===== *)
theory Load_Test
  imports Harvest_Run Harvest_Setup
begin

text \<open>
  The load generator \<open>cmd/loadtest\<close>: a harvest over synthetic queries with the fixture fetcher and a
  sink that discards, at one or several levels of concurrency, or for a given time with an endless
  source of queries. The run itself is \<open>harvest_step\<close>; printing and the runtime's memory statistics
  are not modelled. A panic of the command is the left value of a sum.
\<close>

subsection \<open>The command\<close>

definition discard :: "serp_result \<Rightarrow> unit \<Rightarrow> go_error option \<times> unit" where
  "discard r s = (None, s)"

fun parse_ints :: "string list \<Rightarrow> string + int list" where
  "parse_ints [] = Inr []"
| "parse_ints (p # ps) = (case Atoi (TrimSpace p) of
       None \<Rightarrow> Inl p
     | Some v \<Rightarrow> (case parse_ints ps of Inl e \<Rightarrow> Inl e | Inr vs \<Rightarrow> Inr (v # vs)))"

definition parseIntList :: "string \<Rightarrow> string + int list" where
  "parseIntList s = parse_ints (Split s CHR '','')"

text \<open>The worker pool of a load test: one retry, no proxies, a limiter that never throttles.\<close>

definition buildPool :: "int \<Rightarrow> worker \<times> pool \<times> 'b limiter" where
  "buildPool concurrency =
     (\<lparr>Concurrency = concurrency, MaxRetries = 1, MaxProxyWait = 0, w_UserAgent = ''''\<rparr>,
      NewPool [] 1000000 Millisecond, New 1000000 1000000)"

definition synthetic_queries :: "nat \<Rightarrow> string list" where
  "synthetic_queries n = map (\<lambda>i. ''synthetic query '' @ itoa i) [0..<n]"

text \<open>
  \<open>make\<close> panics on a negative length and on a negative buffer; a loop up to a negative number of
  workers starts none.
\<close>

definition runFixed :: "int \<Rightarrow> int \<Rightarrow> string + unit harvest_run" where
  "runFixed concurrency n =
     (if n < 0 then Inl ''panic: makeslice: len out of range''
      else if wrap64 (concurrency * 2) < 0 then Inl ''panic: makechan: size out of range''
      else Inr (harvest_start (nat concurrency) (nat (wrap64 (concurrency * 2))) (synthetic_queries (nat n)) ()))"

record load_flags =
  lf_n :: int
  lf_concurrency :: int
  lf_fixtures :: string
  lf_sweep :: string
  lf_duration :: string
  lf_sampleInterval :: string

datatype load_plan =
    SoakRun int duration duration
  | SweepRuns "int list" int
  | FixedRun int int

definition loadtest_main :: "host_ops \<Rightarrow> (string \<Rightarrow> go_error + duration) \<Rightarrow> load_flags \<Rightarrow> startup_error + mock \<times> load_plan" where
  "loadtest_main host ParseDuration f = (case NewMockFromDir host (lf_fixtures f) of
       Inl e \<Rightarrow> Inl (FatalError ''panic'' e)
     | Inr m \<Rightarrow>
         if lf_duration f \<noteq> '''' then
           (case ParseDuration (lf_duration f) of
              Inl e \<Rightarrow> Inl (FatalError ''invalid -duration'' e)
            | Inr d \<Rightarrow> (case ParseDuration (lf_sampleInterval f) of
                  Inl e \<Rightarrow> Inl (FatalError ''invalid -sample-interval'' e)
                | Inr i \<Rightarrow> Inr (m, SoakRun (lf_concurrency f) d i)))
         else if lf_sweep f \<noteq> '''' then
           (case parseIntList (lf_sweep f) of
              Inl p \<Rightarrow> Inl (Fatal (''invalid -sweep: '' @ p))
            | Inr ls \<Rightarrow> Inr (m, SweepRuns ls (lf_n f)))
         else Inr (m, FixedRun (lf_concurrency f) (lf_n f)))"

text \<open>The runs of a sweep, one after the other; the first that panics ends the command.\<close>

fun runSweep :: "int list \<Rightarrow> int \<Rightarrow> string + unit harvest_run list" where
  "runSweep [] n = Inr []"
| "runSweep (c # cs) n = (case runFixed c n of
       Inl e \<Rightarrow> Inl e
     | Inr r \<Rightarrow> (case runSweep cs n of Inl e \<Rightarrow> Inl e | Inr rs \<Rightarrow> Inr (r # rs)))"

subsection \<open>Reports\<close>

record run_result =
  rr_Concurrency :: int
  rr_N :: "64 word"
  rr_Elapsed :: duration
  rr_Metrics :: snapshot
  rr_Latency :: latency_stats
  rr_RPS :: "rat option"

text \<open>Without a guard in the source, a run that took no time divides by zero: \<open>None\<close> is Inf or NaN.\<close>

definition throughput :: "64 word \<Rightarrow> duration \<Rightarrow> rat option" where
  "throughput success elapsed = (if Seconds elapsed = 0 then None else Some (fl (float64_u success / Seconds elapsed)))"

definition result_of_run :: "int \<Rightarrow> duration \<Rightarrow> counters \<Rightarrow> latency_recorder \<Rightarrow> run_result" where
  "result_of_run concurrency elapsed met lat = (let snap = Snapshot met in
     \<lparr>rr_Concurrency = concurrency, rr_N = s_Success snap, rr_Elapsed = elapsed, rr_Metrics = snap, rr_Latency = Stats lat,
      rr_RPS = throughput (s_Success snap) elapsed\<rparr>)"

text \<open>One tick of \<open>sampleLoop\<close>: the rate since the last sample, and the sample to compare with next.\<close>

definition sample_tick :: "instant \<Rightarrow> 64 word \<Rightarrow> 64 word \<times> instant \<Rightarrow> rat \<times> 64 word \<times> instant" where
  "sample_tick now success prev = (let (lastSuccess, lastSampleAt) = prev; elapsed = Seconds (now - lastSampleAt) in
     (if 0 < elapsed then fl (float64_u (success - lastSuccess) / elapsed) else 0, success, now))"

fun sampleLoop :: "(instant \<times> 64 word) list \<Rightarrow> 64 word \<times> instant \<Rightarrow> rat list" where
  "sampleLoop [] prev = []"
| "sampleLoop ((now, success) # ticks) prev = (let (rps, prev) = sample_tick now success prev in rps # sampleLoop ticks prev)"

subsection \<open>The endless source\<close>

record soak_source =
  sk_i :: "64 word"
  sk_buffer :: nat
  sk_chan :: "job list"
  sk_received :: "job list"
  sk_closed :: bool
  sk_ctxDone :: bool

definition soak_job :: "64 word \<Rightarrow> job" where
  "soak_job i = query_job (''soak query '' @ itoa (unat i))"

inductive infinite_step :: "soak_source \<Rightarrow> soak_source \<Rightarrow> bool" where
  send: "\<not> sk_closed s \<Longrightarrow> length (sk_chan s) < sk_buffer s \<Longrightarrow>
    infinite_step s (s\<lparr>sk_chan := sk_chan s @ [soak_job (sk_i s)], sk_i := sk_i s + 1\<rparr>)"
| hand: "\<not> sk_closed s \<Longrightarrow> sk_chan s = [] \<Longrightarrow>
    infinite_step s (s\<lparr>sk_received := sk_received s @ [soak_job (sk_i s)], sk_i := sk_i s + 1\<rparr>)"
| receive: "sk_chan s = j # js \<Longrightarrow> infinite_step s (s\<lparr>sk_chan := js, sk_received := sk_received s @ [j]\<rparr>)"
| stop: "\<not> sk_closed s \<Longrightarrow> sk_ctxDone s \<Longrightarrow> infinite_step s (s\<lparr>sk_closed := True\<rparr>)"
| cancel: "infinite_step s (s\<lparr>sk_ctxDone := True\<rparr>)"

inductive_cases infinite_stepE: "infinite_step s t"

definition infiniteJobs :: "nat \<Rightarrow> soak_source" where
  "infiniteJobs buffer = \<lparr>sk_i = 0, sk_buffer = buffer, sk_chan = [], sk_received = [], sk_closed = False, sk_ctxDone = False\<rparr>"

text \<open>\<open>runSoak\<close> up to the start of the workers: \<open>sampleLoop\<close> makes its ticker of the interval as it is given.\<close>

definition runSoak :: "int \<Rightarrow> duration \<Rightarrow> duration \<Rightarrow> string + soak_source" where
  "runSoak concurrency d interval =
     (if wrap64 (concurrency * 2) < 0 then Inl ''panic: makechan: size out of range''
      else if interval \<le> 0 then Inl ''panic: non-positive interval for NewTicker''
      else Inr (infiniteJobs (nat (wrap64 (concurrency * 2)))))"

subsection \<open>Levels\<close>

lemma TrimSpace_itoa [simp]: "TrimSpace (itoa n) = itoa n"
proof -
  have ns: "\<not> is_space c" if "c \<in> set (itoa n)" for c using itoa_digits [OF that] by (auto simp: is_space_def)
  have "dropWhile is_space xs = xs" if "set xs \<subseteq> set (itoa n)" for xs
    using ns that by (cases xs) auto
  then show ?thesis by (simp add: TrimSpace_def)
qed

lemma parse_ints_itoa:
  "\<forall>n\<in>set ns. int n < 2 ^ 63 \<Longrightarrow> parse_ints (map itoa ns) = Inr (map int ns)"
  by (induction ns) (simp_all add: Atoi_itoa)

text \<open>A printed list of levels is read back as it was.\<close>

lemma parseIntList_print:
  assumes "ns \<noteq> []" "\<forall>n\<in>set ns. int n < 2 ^ 63"
  shows "parseIntList (join (map itoa ns) '','') = Inr (map int ns)"
proof -
  have "\<forall>p\<in>set (map itoa ns). CHR '','' \<notin> set p" using itoa_digits by (fastforce simp: byte_def)
  then have "Split (join (map itoa ns) '','') CHR '','' = map itoa ns" using assms(1) by (intro Split_join) simp_all
  then show ?thesis using parse_ints_itoa [OF assms(2)] by (simp add: parseIntList_def)
qed

text \<open>An empty level, as a trailing comma leaves it, is refused and named.\<close>

lemma parse_ints_empty:
  assumes "\<forall>n\<in>set ns. int n < 2 ^ 63"
  shows "parse_ints (map itoa ns @ '''' # ps) = Inl ''''"
proof -
  have "Atoi (TrimSpace '''') = None" by (simp add: Atoi_def TrimSpace_def)
  with assms show ?thesis by (induction ns) (simp_all add: Atoi_itoa)
qed

subsection \<open>Fixed runs\<close>

lemma itoa_inj: "itoa m = itoa n \<longleftrightarrow> m = n"
  by (metis digits_val_itoa option.inject)

lemma synthetic_distinct: "distinct (map query_job (synthetic_queries n))"
  by (auto simp: synthetic_queries_def distinct_map inj_on_def query_job_def itoa_inj)

text \<open>
  A fixed run of \<open>n\<close> queries that has returned, with at least one worker, has handled each of the \<open>n\<close>
  distinct queries exactly once, so that what it reports as done and what it dropped add up to \<open>n\<close>.
\<close>

theorem runFixed_complete:
  assumes "runFixed c n = Inr s0" "(harvest_step env (fst (buildPool c)) parse discard)\<^sup>*\<^sup>* s0 s" "harvest_returned s"
    and "env_laws env" "0 < c" "\<not> ms_ctxDone (hv_source s)"
    and "c_Success met = hv_Success s" "c_Dropped met = hv_Dropped s"
  shows "distinct (hv_done s) \<and> job_Query ` set (hv_done s) = set (synthetic_queries (nat n)) \<and>
    rr_N (result_of_run c elapsed met lat) + s_Dropped (rr_Metrics (result_of_run c elapsed met lat)) = of_int n"
proof -
  have n: "0 \<le> n" and s0: "s0 = harvest_start (nat c) (nat (wrap64 (c * 2))) (synthetic_queries (nat n)) ()"
    using assms(1) by (auto simp: runFixed_def split: if_splits)
  have "MaxRetries (fst (buildPool c)) \<le> 37" by (simp add: buildPool_def)
  moreover have "0 < nat c" using assms(5) by simp
  ultimately have sum: "hv_Success s + hv_Dropped s = of_nat (length (hv_done s))"
      and d: "mset (hv_done s) = mset (map query_job (synthetic_queries (nat n)))"
    using harvest_ends [OF assms(2) [unfolded s0] assms(3,4)] assms(6) by blast+
  then have "set (hv_done s) = query_job ` set (synthetic_queries (nat n))" by (metis list.set_map set_mset_mset)
  moreover have "job_Query (query_job q) = q" for q by (simp add: query_job_def)
  ultimately have "job_Query ` set (hv_done s) = set (synthetic_queries (nat n))" by (force simp: image_image)
  moreover have "distinct (hv_done s)" using d synthetic_distinct by (metis mset_eq_imp_distinct_iff)
  moreover have "length (hv_done s) = nat n" using mset_eq_length [OF d] by (simp add: synthetic_queries_def)
  then have "hv_Success s + hv_Dropped s = of_int n" using sum n by (metis of_nat_nat)
  ultimately show ?thesis by (simp add: result_of_run_def Snapshot_def Let_def assms(7,8))
qed

subsection \<open>Soak runs\<close>

definition soak_inv :: "nat \<Rightarrow> soak_source \<Rightarrow> bool" where
  "soak_inv b s \<longleftrightarrow> (\<exists>k. sk_received s @ sk_chan s = map (\<lambda>i. soak_job (of_nat i)) [0..<k] \<and> sk_i s = of_nat k) \<and>
     sk_buffer s = b \<and> length (sk_chan s) \<le> b"

lemma soak_inv_step:
  assumes "soak_inv b s" "infinite_step s t"
  shows "soak_inv b t"
proof -
  obtain k where k: "sk_received s @ sk_chan s = map (\<lambda>i. soak_job (of_nat i)) [0..<k]" "sk_i s = of_nat k"
    using assms(1) by (auto simp: soak_inv_def)
  then have "sk_received s @ sk_chan s @ [soak_job (sk_i s)] = map (\<lambda>i. soak_job (of_nat i)) [0..<Suc k]" "sk_i s + 1 = of_nat (Suc k)"
    by simp_all
  with assms k show ?thesis by (auto elim!: infinite_stepE simp del: upt_Suc simp: soak_inv_def)
qed

interpretation soak: invariant_system "\<lambda>s. s = infiniteJobs b" infinite_step "soak_inv b" for b
  by unfold_locales (simp add: soak_inv_def infiniteJobs_def, rule soak_inv_step)

text \<open>The endless source hands over its numbered queries in order, none left out; it counts in 64 bits.\<close>

lemma soak_in_order:
  assumes "infinite_step\<^sup>*\<^sup>* (infiniteJobs b) s"
  shows "sk_received s = map (\<lambda>i. soak_job (of_nat i)) [0..<length (sk_received s)]"
proof -
  obtain k where "sk_received s @ sk_chan s = map (\<lambda>i. soak_job (of_nat i)) [0..<k]"
    using soak.inv_reach [OF refl assms] by (auto simp: soak_inv_def)
  then have "take (length (sk_received s)) (map (\<lambda>i. soak_job (of_nat i)) [0..<k]) = sk_received s" "length (sk_received s) \<le> k"
    by (metis append_eq_conv_conj, metis length_append length_map length_upt minus_nat.diff_0 le_add1)
  then show ?thesis by (simp add: take_map)
qed

text \<open>No success is counted in two samples, and none between the first and the last is missed.\<close>

lemma samples_add_up:
  fixes ticks :: "(instant \<times> 64 word) list"
  shows "ticks \<noteq> [] \<Longrightarrow> sum_list (map2 (\<lambda>t l. snd t - l) ticks (lastSuccess # map snd (butlast ticks))) = snd (last ticks) - lastSuccess"
proof (induction ticks arbitrary: lastSuccess)
  case (Cons t ts)
  show ?case
  proof (cases "ts = []")
    case False
    note Cons.IH [OF False, of "snd t"]
    with False show ?thesis by (simp add: algebra_simps)
  qed simp
qed simp

lemma sampleLoop_rates:
  "sampleLoop ticks (l, at0) = map2 (\<lambda>t (l, a). fst (sample_tick (fst t) (snd t) (l, a))) ticks ((l, at0) # map (\<lambda>t. (snd t, fst t)) (butlast ticks))"
proof (induction ticks arbitrary: l at0)
  case (Cons t ts)
  obtain now s where "t = (now, s)" by force
  then show ?case using Cons by (cases ts) (auto simp: sample_tick_def Let_def)
qed simp

lemma negative_level_panics: "runSweep [1, -1] 5 = Inl ''panic: makechan: size out of range''"
  by (simp add: runFixed_def wrap64_def)

end
